(* ===== verification/Prelude.thy ===== *)
theory Prelude
  imports Main "HOL-Library.Word" "HOL-Library.Char_ord" "HOL-Library.List_Lexorder"
begin

text \<open>
  Shared vocabulary of the development: the fixed-width integers and byte strings the
  program works on, Rust's \<open>Result\<close> as a sum type with its \<open>?\<close>-operator, big-endian
  encoding, the parts of Rust's \<open>str\<close> API that several components use, and the generic
  interfaces (locales) that the components implement: byte codecs and step machines with
  an invariant.
\<close>

section \<open>Fixed-width integers and byte strings\<close>

type_synonym u8 = "8 word"
type_synonym u16 = "16 word"
type_synonym u32 = "32 word"
type_synonym u64 = "64 word"
type_synonym u128 = "128 word"
type_synonym bytes = "u8 list"

named_theorems codec_simps \<open>equations that evaluate encoders and decoders\<close>
named_theorems step_simps \<open>equations that evaluate one step of a stateful component\<close>

lemma unat_bound: "unat (w :: 'a::len word) < 2 ^ LENGTH('a)"
  by (rule unsigned_less)

lemma word_less_Suc:
  fixes n :: "'a::len word"
  assumes "n \<noteq> -1"
  shows "n < n + 1" and "unat (n + 1) = unat n + 1"
proof -
  have "unat n \<noteq> 2 ^ LENGTH('a) - 1"
  proof
    assume "unat n = 2 ^ LENGTH('a) - 1"
    then have "unat n = unat (-1 :: 'a word)"
      by (simp add: unsigned_minus_1_eq_mask mask_eq_exp_minus_1)
    then have "n = -1" by (rule unsigned_word_eqI)
    with assms show False by contradiction
  qed
  moreover have "unat n < 2 ^ LENGTH('a)" by (rule unsigned_less)
  ultimately have lt: "unat n + 1 < 2 ^ LENGTH('a)" by linarith
  then show eq: "unat (n + 1) = unat n + 1"
    by (simp add: unat_word_ariths)
  then show "n < n + 1" by (simp add: word_less_nat_alt)
qed

section \<open>Results\<close>

text \<open>\<open>Result<T, E>\<close> is \<open>'e + 'a\<close>, \<open>Err\<close> on the left; \<open>rbind\<close> is the \<open>?\<close>-operator.\<close>

definition rbind :: "'e + 'a \<Rightarrow> ('a \<Rightarrow> 'e + 'b) \<Rightarrow> 'e + 'b" where
  "rbind r f = (case r of Inl e \<Rightarrow> Inl e | Inr x \<Rightarrow> f x)"

definition map_err :: "('e \<Rightarrow> 'f) \<Rightarrow> 'e + 'a \<Rightarrow> 'f + 'a" where
  "map_err g r = (case r of Inl e \<Rightarrow> Inl (g e) | Inr x \<Rightarrow> Inr x)"

definition ok_or :: "'e \<Rightarrow> 'a option \<Rightarrow> 'e + 'a" where
  "ok_or e x = (case x of None \<Rightarrow> Inl e | Some y \<Rightarrow> Inr y)"

definition is_ok :: "'e + 'a \<Rightarrow> bool" where
  "is_ok r = (case r of Inl _ \<Rightarrow> False | Inr _ \<Rightarrow> True)"

lemma rbind_simps [simp]:
  "rbind (Inl e) f = Inl e"
  "rbind (Inr x) f = f x"
  by (simp_all add: rbind_def)

lemma map_err_simps [simp]:
  "map_err g (Inl e) = Inl (g e)"
  "map_err g (Inr x) = Inr x"
  by (simp_all add: map_err_def)

lemma ok_or_simps [simp]:
  "ok_or e None = Inl e"
  "ok_or e (Some x) = Inr x"
  by (simp_all add: ok_or_def)

lemma is_ok_simps [simp]:
  "is_ok (Inl e) = False"
  "is_ok (Inr x) = True"
  by (simp_all add: is_ok_def)

lemma rbind_eq_Inr [simp]: "rbind r f = Inr y \<longleftrightarrow> (\<exists>x. r = Inr x \<and> f x = Inr y)"
  by (cases r) simp_all

lemma map_err_eq_Inr [simp]: "map_err g r = Inr x \<longleftrightarrow> r = Inr x"
  by (cases r) simp_all

lemma ok_or_eq_Inr [simp]: "ok_or e x = Inr y \<longleftrightarrow> x = Some y"
  by (cases x) simp_all

lemma is_ok_iff: "is_ok r \<longleftrightarrow> (\<exists>x. r = Inr x)"
  by (cases r) simp_all

lemma is_ok_rbind [simp]: "is_ok (rbind r f) \<longleftrightarrow> (\<exists>x. r = Inr x \<and> is_ok (f x))"
  by (cases r) simp_all

text \<open>A \<open>for\<close> loop over a slice whose body may return early with an error.\<close>

fun try_each :: "('a \<Rightarrow> 'e + unit) \<Rightarrow> 'a list \<Rightarrow> 'e + unit" where
  "try_each f [] = Inr ()"
| "try_each f (x # xs) = rbind (f x) (\<lambda>_. try_each f xs)"

lemma try_each_ok [simp]: "try_each f xs = Inr () \<longleftrightarrow> (\<forall>x\<in>set xs. f x = Inr ())"
  by (induction xs) auto

text \<open>\<open>iter().map(f).collect::<Result<Vec<_>, _>>()\<close>: stops at the first error.\<close>

fun try_map :: "('a \<Rightarrow> 'e + 'b) \<Rightarrow> 'a list \<Rightarrow> 'e + 'b list" where
  "try_map f [] = Inr []"
| "try_map f (x # xs) = rbind (f x) (\<lambda>y. rbind (try_map f xs) (\<lambda>ys. Inr (y # ys)))"

lemma try_map_Inr: "try_map f xs = Inr ys \<longleftrightarrow> list_all2 (\<lambda>x y. f x = Inr y) xs ys"
proof (induction xs arbitrary: ys)
  case Nil
  show ?case by auto
next
  case (Cons x xs)
  then show ?case by (cases ys) auto
qed

section \<open>Big-endian encoding\<close>

text \<open>
  \<open>uN::to_be_bytes\<close> and \<open>uN::from_be_bytes\<close>: \<open>be_bytes n w\<close> is the \<open>n\<close> bytes of \<open>w\<close>, most
  significant first.
\<close>

definition be_digits :: "nat \<Rightarrow> nat \<Rightarrow> nat list" where
  "be_digits n x = map (\<lambda>i. x div 256 ^ i mod 256) (rev [0..<n])"

definition be_value :: "nat list \<Rightarrow> nat" where
  "be_value ds = foldl (\<lambda>a d. a * 256 + d) 0 ds"

definition be_bytes :: "nat \<Rightarrow> 'a::len word \<Rightarrow> bytes" where
  "be_bytes n w = map word_of_nat (be_digits n (unat w))"

definition of_be :: "bytes \<Rightarrow> 'a::len word" where
  "of_be bs = word_of_nat (be_value (map unat bs))"

lemma length_be_digits [simp]: "length (be_digits n x) = n"
  by (simp add: be_digits_def)

lemma length_be_bytes [simp]: "length (be_bytes n w) = n"
  by (simp add: be_bytes_def)

lemma be_digits_Suc: "be_digits (Suc n) x = (x div 256 ^ n mod 256) # be_digits n x"
  by (simp add: be_digits_def)

lemma be_value_foldl: "foldl (\<lambda>a d. a * 256 + d) c ds = c * 256 ^ length ds + be_value ds"
proof (induction ds arbitrary: c rule: rev_induct)
  case Nil
  show ?case by (simp add: be_value_def)
next
  case (snoc d ds)
  have "be_value (ds @ [d]) = be_value ds * 256 + d"
    by (simp add: be_value_def)
  with snoc [of c] show ?case by (simp add: add_mult_distrib)
qed

lemma be_value_Cons: "be_value (d # ds) = d * 256 ^ length ds + be_value ds"
  using be_value_foldl [of d ds] by (simp add: be_value_def)

lemma be_value_Nil [simp]: "be_value [] = 0"
  by (simp add: be_value_def)

lemma be_value_digits: "be_value (be_digits n x) = x mod 256 ^ n"
proof (induction n)
  case 0
  show ?case by (simp add: be_digits_def)
next
  case (Suc n)
  have "x mod 256 ^ Suc n = 256 ^ n * (x div 256 ^ n mod 256) + x mod 256 ^ n"
    using mod_mult2_eq [of x "256 ^ n" 256] by (simp add: mult.commute)
  then show ?case
    by (simp add: be_digits_Suc be_value_Cons Suc mult.commute)
qed

lemma be_value_bound: "\<forall>d\<in>set ds. d < 256 \<Longrightarrow> be_value ds < 256 ^ length ds"
proof (induction ds)
  case Nil
  show ?case by simp
next
  case (Cons d ds)
  then have "be_value ds < 256 ^ length ds" and "d \<le> 255" by auto
  moreover from \<open>d \<le> 255\<close> have "d * 256 ^ length ds \<le> 255 * 256 ^ length ds"
    by (rule mult_le_mono1)
  ultimately have "d * 256 ^ length ds + be_value ds < 255 * 256 ^ length ds + 256 ^ length ds"
    by linarith
  then show ?case by (simp add: be_value_Cons)
qed

lemma be_digits_mod: "be_digits n (x mod 256 ^ n) = be_digits n x"
  unfolding be_digits_def
proof (rule map_cong [OF refl])
  fix i assume "i \<in> set (rev [0..<n])"
  then have i: "i < n" by simp
  have dv: "(256::nat) ^ Suc i dvd 256 ^ n" using i by (intro le_imp_power_dvd) simp
  have digit: "y div 256 ^ i mod 256 = y mod 256 ^ Suc i div 256 ^ i" for y :: nat
    using mod_mult2_eq [of y "256 ^ i" 256] by (simp add: mult.commute)
  show "x mod 256 ^ n div 256 ^ i mod 256 = x div 256 ^ i mod 256"
    by (simp only: digit mod_mod_cancel [OF dv])
qed

lemma be_digits_value: "\<forall>d\<in>set ds. d < 256 \<Longrightarrow> be_digits (length ds) (be_value ds) = ds"
proof (induction ds)
  case Nil
  show ?case by (simp add: be_digits_def)
next
  case (Cons d ds)
  let ?n = "length ds"
  from Cons.prems have d: "d < 256" and ds: "\<forall>d\<in>set ds. d < 256" by auto
  have lt: "be_value ds < 256 ^ ?n" by (rule be_value_bound [OF ds])
  have hd: "be_value (d # ds) div 256 ^ ?n = d"
    using lt by (simp add: be_value_Cons)
  have "be_digits ?n (be_value (d # ds)) = be_digits ?n (be_value (d # ds) mod 256 ^ ?n)"
    by (simp only: be_digits_mod)
  also have "\<dots> = be_digits ?n (be_value ds)"
    using lt by (simp add: be_value_Cons)
  finally have tl: "be_digits ?n (be_value (d # ds)) = ds"
    using Cons.IH [OF ds] by simp
  show ?case using hd tl d by (simp add: be_digits_Suc)
qed

lemma unat_u8_lt [simp]: "unat (b :: u8) < 256"
  using unsigned_less [of b] by simp

lemma of_be_bytes:
  fixes w :: "'a::len word"
  assumes "LENGTH('a) = 8 * n"
  shows "of_be (be_bytes n w) = w"
proof -
  have "unat w < 256 ^ n"
    using unsigned_less [of w] assms by (simp add: power_mult)
  then have "be_value (be_digits n (unat w)) = unat w"
    by (simp add: be_value_digits)
  moreover have "map unat (be_bytes n w) = be_digits n (unat w)"
    by (simp add: be_bytes_def be_digits_def unat_of_nat)
  ultimately show ?thesis by (simp add: of_be_def)
qed

lemma be_bytes_of_be:
  assumes "LENGTH('a::len) = 8 * n" and "length bs = n"
  shows "be_bytes n (of_be bs :: 'a word) = bs"
proof -
  have "be_value (map unat bs) < 256 ^ n"
    using be_value_bound [of "map unat bs"] assms(2) by simp
  then have "unat (of_be bs :: 'a word) = be_value (map unat bs)"
    using assms(1) by (simp add: of_be_def unat_of_nat power_mult)
  moreover have "be_digits n (be_value (map unat bs)) = map unat bs"
    using be_digits_value [of "map unat bs"] assms(2) by simp
  ultimately show ?thesis by (simp add: be_bytes_def comp_def)
qed

lemmas of_be_bytes_simps [simp, codec_simps] =
  of_be_bytes [where 'a = 16 and n = 2, simplified]
  of_be_bytes [where 'a = 32 and n = 4, simplified]
  of_be_bytes [where 'a = 64 and n = 8, simplified]
  of_be_bytes [where 'a = 128 and n = 16, simplified]

lemmas be_bytes_of_be_simps [simp, codec_simps] =
  be_bytes_of_be [where 'a = 16 and n = 2, simplified]
  be_bytes_of_be [where 'a = 32 and n = 4, simplified]
  be_bytes_of_be [where 'a = 64 and n = 8, simplified]
  be_bytes_of_be [where 'a = 128 and n = 16, simplified]

section \<open>Text\<close>

text \<open>
  A Rust \<open>String\<close> is the list of its UTF-8 bytes, so \<open>length\<close> is \<open>str::len\<close> and equality and
  order are those of \<open>str\<close>. \<open>utf8_chars\<close> is \<open>str::chars\<close>: the code points of the string; a
  byte that starts no complete sequence is taken alone (Rust strings never contain one).
\<close>

definition byte_of :: "char \<Rightarrow> u8" where
  "byte_of c = of_char c"

definition str_bytes :: "string \<Rightarrow> bytes" where
  "str_bytes s = map byte_of s"

definition is_cont :: "char \<Rightarrow> bool" where
  "is_cont c \<longleftrightarrow> 128 \<le> (of_char c :: nat) \<and> (of_char c :: nat) < 192"

definition seq_len :: "nat \<Rightarrow> nat" where
  "seq_len x = (if x < 192 then 0 else if x < 224 then 1 else if x < 240 then 2 else 3)"

definition lead_base :: "nat \<Rightarrow> nat" where
  "lead_base n = (if n = 0 then 0 else if n = 1 then 192 else if n = 2 then 224 else 240)"

definition conts :: "nat \<Rightarrow> string \<Rightarrow> bool" where
  "conts n s \<longleftrightarrow> n \<le> length s \<and> list_all is_cont (take n s)"

function utf8_chars :: "string \<Rightarrow> nat list" where
  "utf8_chars [] = []"
| "utf8_chars (a # cs) =
     (let x = of_char a; n = seq_len x in
      if conts n cs
      then foldl (\<lambda>v b. v * 64 + (of_char b - 128)) (x - lead_base n) (take n cs) # utf8_chars (drop n cs)
      else x # utf8_chars cs)"
  by pat_completeness auto
termination by (relation "measure length") auto

declare utf8_chars.simps(2) [simp del]

lemma conts_append:
  assumes "\<forall>c\<in>set t. \<not> is_cont c"
  shows "conts n (s @ t) \<longleftrightarrow> conts n s"
proof (cases "n \<le> length s")
  case True
  then show ?thesis by (simp add: conts_def)
next
  case False
  have "\<not> list_all is_cont (take n (s @ t))" if "n \<le> length (s @ t)"
  proof -
    from that False obtain c u where "t = c # u" by (cases t) auto
    with False have "c \<in> set (take n (s @ t))" by (cases "n - length s") auto
    moreover have "\<not> is_cont c" using assms \<open>t = c # u\<close> by simp
    ultimately show ?thesis by (auto simp: list_all_iff)
  qed
  with False show ?thesis by (auto simp: conts_def)
qed

lemma utf8_chars_ascii: "\<forall>c\<in>set t. (of_char c :: nat) < 128 \<Longrightarrow> utf8_chars t = map of_char t"
  by (induction t) (simp_all add: utf8_chars.simps(2) Let_def seq_len_def conts_def lead_base_def)

lemma utf8_chars_append_ascii:
  assumes "\<forall>c\<in>set t. (of_char c :: nat) < 128"
  shows "utf8_chars (s @ t) = utf8_chars s @ map of_char t"
proof (induction s rule: utf8_chars.induct)
  case 1
  from assms show ?case by (simp add: utf8_chars_ascii)
next
  case (2 a cs)
  have "\<forall>c\<in>set t. \<not> is_cont c" using assms by (auto simp: is_cont_def)
  note ca = conts_append [OF this]
  show ?case
  proof (cases "conts (seq_len (of_char a)) cs")
    case True
    then have "seq_len (of_char a) \<le> length cs" by (simp add: conts_def)
    with True 2(1) [OF refl refl True] show ?thesis by (simp add: utf8_chars.simps(2) Let_def ca)
  next
    case False
    with 2(2) [OF refl refl False] show ?thesis by (simp add: utf8_chars.simps(2) Let_def ca)
  qed
qed

text \<open>\<open>char::is_whitespace\<close> (Unicode White\_Space) and \<open>char::is_control\<close> (category Cc).\<close>

definition is_whitespace :: "nat \<Rightarrow> bool" where
  "is_whitespace c \<longleftrightarrow> (9 \<le> c \<and> c \<le> 13) \<or> c = 32 \<or> c = 0x85 \<or> c = 0xA0 \<or> c = 0x1680
     \<or> (0x2000 \<le> c \<and> c \<le> 0x200A) \<or> c = 0x2028 \<or> c = 0x2029 \<or> c = 0x202F \<or> c = 0x205F \<or> c = 0x3000"

definition is_control :: "nat \<Rightarrow> bool" where
  "is_control c \<longleftrightarrow> c < 32 \<or> (127 \<le> c \<and> c < 160)"

text \<open>ASCII classification and case folding of a single byte.\<close>

definition ascii_digit :: "char \<Rightarrow> bool" where
  "ascii_digit c \<longleftrightarrow> 48 \<le> (of_char c :: nat) \<and> (of_char c :: nat) \<le> 57"

definition ascii_upper :: "char \<Rightarrow> bool" where
  "ascii_upper c \<longleftrightarrow> 65 \<le> (of_char c :: nat) \<and> (of_char c :: nat) \<le> 90"

definition ascii_lower :: "char \<Rightarrow> bool" where
  "ascii_lower c \<longleftrightarrow> 97 \<le> (of_char c :: nat) \<and> (of_char c :: nat) \<le> 122"

definition ascii_alnum :: "char \<Rightarrow> bool" where
  "ascii_alnum c \<longleftrightarrow> ascii_digit c \<or> ascii_upper c \<or> ascii_lower c"

definition to_lower_char :: "char \<Rightarrow> char" where
  "to_lower_char c = (if ascii_upper c then char_of (of_char c + 32 :: nat) else c)"

definition to_ascii_lowercase :: "string \<Rightarrow> string" where
  "to_ascii_lowercase s = map to_lower_char s"

text \<open>\<open>str::split_once\<close> and \<open>str::rsplit_once\<close> at an ASCII character, \<open>str::split\<close>.\<close>

fun split_once :: "char \<Rightarrow> string \<Rightarrow> (string \<times> string) option" where
  "split_once c [] = None"
| "split_once c (x # xs) =
     (if x = c then Some ([], xs)
      else map_option (\<lambda>(a, b). (x # a, b)) (split_once c xs))"

definition rsplit_once :: "char \<Rightarrow> string \<Rightarrow> (string \<times> string) option" where
  "rsplit_once c s = map_option (\<lambda>(a, b). (rev b, rev a)) (split_once c (rev s))"

fun split_on :: "char \<Rightarrow> string \<Rightarrow> string list" where
  "split_on c [] = [[]]"
| "split_on c (x # xs) =
     (if x = c then [] # split_on c xs
      else (case split_on c xs of [] \<Rightarrow> [[x]] | p # ps \<Rightarrow> (x # p) # ps))"

definition starts_with :: "string \<Rightarrow> string \<Rightarrow> bool" where
  "starts_with p s \<longleftrightarrow> take (length p) s = p"

text \<open>\<open>Display\<close> and \<open>LowerHex\<close> of an unsigned integer, and the digits of a number in a radix.\<close>

definition digit_char :: "nat \<Rightarrow> char" where
  "digit_char d = (if d < 10 then char_of (48 + d) else char_of (87 + d))"

definition to_digit :: "nat \<Rightarrow> char \<Rightarrow> nat option" where
  "to_digit radix c =
     (let x = of_char c :: nat;
          d = (if 48 \<le> x \<and> x \<le> 57 then x - 48
               else if 97 \<le> x \<and> x \<le> 122 then x - 87
               else if 65 \<le> x \<and> x \<le> 90 then x - 55 else radix)
      in if d < radix then Some d else None)"

function show_radix :: "nat \<Rightarrow> nat \<Rightarrow> string" where
  "show_radix r n =
     (if r < 2 \<or> n < r then [digit_char n] else show_radix r (n div r) @ [digit_char (n mod r)])"
  by pat_completeness auto
termination by (relation "measure snd") auto

declare show_radix.simps [simp del]

definition show_nat :: "nat \<Rightarrow> string" where
  "show_nat n = show_radix 10 n"

lemma to_digit_char:
  assumes "d < radix" and "radix \<le> 36"
  shows "to_digit radix (digit_char d) = Some d"
proof (cases "d < 10")
  case True
  with assms show ?thesis by (simp add: to_digit_def digit_char_def of_char_of Let_def)
next
  case False
  then have "d - 10 < 26" and "d = 10 + (d - 10)" using assms by simp_all
  then obtain e where "d = 10 + e" "e < 26" by blast
  with assms show ?thesis by (simp add: to_digit_def digit_char_def of_char_of Let_def)
qed

text \<open>
  \<open>str::trim\<close>: removes whitespace characters from both ends; \<open>ws_seqs\<close> lists the UTF-8
  encodings of the characters \<open>is_whitespace\<close> accepts.
\<close>

definition ws_seqs :: "string list" where
  "ws_seqs = map (map (char_of :: nat \<Rightarrow> char))
     ([[9], [10], [11], [12], [13], [32], [0xC2, 0x85], [0xC2, 0xA0], [0xE1, 0x9A, 0x80]]
      @ map (\<lambda>i. [0xE2, 0x80, 0x80 + i]) [0..<11]
      @ [[0xE2, 0x80, 0xA8], [0xE2, 0x80, 0xA9], [0xE2, 0x80, 0xAF], [0xE2, 0x81, 0x9F],
         [0xE3, 0x80, 0x80]])"

function strip_seqs :: "string list \<Rightarrow> string \<Rightarrow> string" where
  "strip_seqs ws [] = []"
| "strip_seqs ws (c # cs) =
     (case find (\<lambda>w. starts_with w (c # cs)) ws of
        None \<Rightarrow> c # cs
      | Some w \<Rightarrow> strip_seqs ws (drop (length w - 1) cs))"
  by pat_completeness auto
termination by (relation "measure (\<lambda>(_, s). length s)") auto

definition trim :: "string \<Rightarrow> string" where
  "trim s = rev (strip_seqs (map rev ws_seqs) (rev (strip_seqs ws_seqs s)))"

lemma strip_seqs_id:
  assumes "s \<noteq> []" and "\<forall>w\<in>set ws. w \<noteq> [] \<and> hd w \<noteq> hd s"
  shows "strip_seqs ws s = s"
proof (cases s)
  case Nil
  with assms(1) show ?thesis by simp
next
  case (Cons c cs)
  have "\<not> starts_with w s" if w: "w \<in> set ws" for w
  proof -
    from assms(2) w have "w \<noteq> []" and "hd w \<noteq> c" using Cons by auto
    then show ?thesis using Cons by (cases w) (simp_all add: starts_with_def)
  qed
  then have "find (\<lambda>w. starts_with w s) ws = None" by (simp add: find_None_iff)
  with Cons show ?thesis by simp
qed

definition graphic :: "char \<Rightarrow> bool" where
  "graphic c \<longleftrightarrow> 33 \<le> (of_char c :: nat) \<and> (of_char c :: nat) < 127"

lemma ws_seqs_ends: "w \<in> set ws_seqs \<Longrightarrow> w \<noteq> [] \<and> \<not> graphic (hd w) \<and> \<not> graphic (last w)"
  by (auto simp: ws_seqs_def graphic_def of_char_of)

lemma trim_id:
  assumes "s \<noteq> []" and "graphic (hd s)" and "graphic (last s)"
  shows "trim s = s"
proof -
  have "strip_seqs ws_seqs s = s"
    using assms(1,2) by (intro strip_seqs_id) (auto dest: ws_seqs_ends)
  moreover have "strip_seqs (map rev ws_seqs) (rev s) = rev s"
    using assms(1,3) by (intro strip_seqs_id) (auto simp: hd_rev dest: ws_seqs_ends)
  ultimately show ?thesis by (simp add: trim_def)
qed

lemma starts_with_append [simp]: "starts_with p (p @ s)"
  by (simp add: starts_with_def)

lemma split_once_append: "c \<notin> set a \<Longrightarrow> split_once c (a @ c # b) = Some (a, b)"
  by (induction a) auto

lemma split_once_SomeD: "split_once c s = Some (a, b) \<Longrightarrow> s = a @ c # b \<and> c \<notin> set a"
  by (induction s arbitrary: a) (auto split: if_splits)

lemma split_once_None: "split_once c s = None \<longleftrightarrow> c \<notin> set s"
  by (induction s) auto

lemma rsplit_once_append: "c \<notin> set b \<Longrightarrow> rsplit_once c (a @ c # b) = Some (a, b)"
  using split_once_append [of c "rev b" "rev a"] by (simp add: rsplit_once_def)

lemma rsplit_once_SomeD:
  assumes "rsplit_once c s = Some (a, b)"
  shows "s = a @ c # b \<and> c \<notin> set b"
proof -
  from assms have "split_once c (rev s) = Some (rev b, rev a)"
    by (auto simp: rsplit_once_def)
  from split_once_SomeD [OF this] have rs: "rev s = rev b @ c # rev a" and "c \<notin> set (rev b)"
    by blast+
  from rs have "rev (rev s) = rev (rev b @ c # rev a)" by (rule arg_cong)
  with \<open>c \<notin> set (rev b)\<close> show ?thesis by simp
qed

section \<open>Interfaces\<close>

text \<open>
  A codec: \<open>dec\<close> reads back what \<open>enc\<close> wrote for every value satisfying \<open>ok\<close>. A canonical codec
  moreover accepts nothing but encodings, so an accepted input has one reading and a value
  one encoding.
\<close>

locale codec =
  fixes enc :: "'a \<Rightarrow> 'b" and dec :: "'b \<Rightarrow> 'e + 'a" and ok :: "'a \<Rightarrow> bool"
  assumes dec_enc: "ok x \<Longrightarrow> dec (enc x) = Inr x"
begin

lemma enc_inj:
  assumes "ok x" and "ok y" and "enc x = enc y"
  shows "x = y"
proof -
  have "Inr x = dec (enc x)" by (simp only: dec_enc [OF assms(1)])
  also have "\<dots> = Inr y" by (simp only: assms(3) dec_enc [OF assms(2)])
  finally show ?thesis by simp
qed

end

locale canonical_codec = codec +
  assumes enc_dec: "dec b = Inr x \<Longrightarrow> ok x \<and> enc x = b"
begin

lemma dec_inj:
  assumes "dec b = Inr x" and "dec c = Inr x"
  shows "b = c"
  using enc_dec [OF assms(1)] enc_dec [OF assms(2)] by auto

lemma dec_iff: "dec b = Inr x \<longleftrightarrow> ok x \<and> b = enc x"
proof
  assume "dec b = Inr x"
  from enc_dec [OF this] show "ok x \<and> b = enc x" by auto
next
  assume "ok x \<and> b = enc x"
  then show "dec b = Inr x" by (simp add: dec_enc)
qed

end

text \<open>
  A component driven by operations: \<open>step s e\<close> is the state after operation \<open>e\<close>; \<open>inv\<close> holds
  initially and is kept by every operation, hence holds after every run.
\<close>

primrec run :: "('s \<Rightarrow> 'e \<Rightarrow> 's) \<Rightarrow> 's \<Rightarrow> 'e list \<Rightarrow> 's" where
  "run step s [] = s"
| "run step s (e # es) = run step (step s e) es"

lemma run_append [simp]: "run step s (es @ fs) = run step (run step s es) fs"
  by (induction es arbitrary: s) simp_all

locale invariant_machine =
  fixes init :: "'s" and step :: "'s \<Rightarrow> 'e \<Rightarrow> 's" and inv :: "'s \<Rightarrow> bool"
  assumes inv_init: "inv init"
    and inv_step: "inv s \<Longrightarrow> inv (step s e)"
begin

lemma inv_run: "inv s \<Longrightarrow> inv (run step s es)"
  by (induction es arbitrary: s) (simp_all add: inv_step)

lemma inv_reachable: "inv (run step init es)"
  by (rule inv_run [OF inv_init])

end

end
