(* ===== verification/Net.thy ===== *)
theory Net
  imports Prelude
begin

text \<open>
  Rust's \<open>std::net\<close> addresses: \<open>IpAddr\<close>, \<open>SocketAddr\<close>, their text parser (a recursive-descent
  parser over bytes) and their \<open>Display\<close>, together with \<open>u16::from_str\<close>. Every component
  that handles addresses builds on these.
\<close>

section \<open>Addresses\<close>

datatype ip_addr = V4 u32 | V6 u128

datatype socket_addr = SockV4 u32 u16 | SockV6 u128 u16 u32 u32

primrec sa_ip :: "socket_addr \<Rightarrow> ip_addr" where
  "sa_ip (SockV4 ip port) = V4 ip"
| "sa_ip (SockV6 ip port flowinfo scope_id) = V6 ip"

primrec sa_port :: "socket_addr \<Rightarrow> u16" where
  "sa_port (SockV4 ip port) = port"
| "sa_port (SockV6 ip port flowinfo scope_id) = port"

primrec sa_new :: "ip_addr \<Rightarrow> u16 \<Rightarrow> socket_addr" where
  "sa_new (V4 ip) port = SockV4 ip port"
| "sa_new (V6 ip) port = SockV6 ip port 0 0"

primrec is_unspecified :: "ip_addr \<Rightarrow> bool" where
  "is_unspecified (V4 ip) = (ip = 0)"
| "is_unspecified (V6 ip) = (ip = 0)"

primrec is_v4 :: "ip_addr \<Rightarrow> bool" where
  "is_v4 (V4 ip) = True"
| "is_v4 (V6 ip) = False"

lemma sa_new_simps [simp]: "sa_ip (sa_new ip port) = ip" "sa_port (sa_new ip port) = port"
  by (cases ip; simp)+

section \<open>Text parser\<close>

text \<open>
  A parser consumes a prefix: \<open>None\<close> is failure (the position is restored), \<open>Some (x, rest)\<close>
  success. \<open>take_digits\<close> reads the longest run of digits of the radix.
\<close>

type_synonym 'a parser = "string \<Rightarrow> ('a \<times> string) option"

definition pbind :: "('a \<times> string) option \<Rightarrow> ('a \<Rightarrow> string \<Rightarrow> ('b \<times> string) option) \<Rightarrow> ('b \<times> string) option" where
  "pbind r f = (case r of None \<Rightarrow> None | Some (x, rest) \<Rightarrow> f x rest)"

lemma pbind_simps [simp]: "pbind None f = None" "pbind (Some (x, s)) f = f x s"
  by (simp_all add: pbind_def)

fun take_digits :: "nat \<Rightarrow> string \<Rightarrow> nat list \<times> string" where
  "take_digits radix [] = ([], [])"
| "take_digits radix (c # cs) =
     (case to_digit radix c of
        None \<Rightarrow> ([], c # cs)
      | Some d \<Rightarrow> (case take_digits radix cs of (ds, rest) \<Rightarrow> (d # ds, rest)))"

definition digits_value :: "nat \<Rightarrow> nat list \<Rightarrow> nat" where
  "digits_value radix ds = foldl (\<lambda>a d. a * radix + d) 0 ds"

definition read_number :: "nat \<Rightarrow> nat option \<Rightarrow> bool \<Rightarrow> nat \<Rightarrow> nat parser" where
  "read_number radix max_digits allow_zero_prefix bound s =
     (case take_digits radix s of (ds, rest) \<Rightarrow>
        if (case max_digits of None \<Rightarrow> False | Some m \<Rightarrow> m < length ds) then None
        else if ds = [] then None
        else if \<not> allow_zero_prefix \<and> hd s = CHR ''0'' \<and> 1 < length ds then None
        else if digits_value radix ds < bound then Some (digits_value radix ds, rest)
        else None)"

fun read_given_char :: "char \<Rightarrow> unit parser" where
  "read_given_char c [] = None"
| "read_given_char c (x # xs) = (if x = c then Some ((), xs) else None)"

definition read_separator :: "char \<Rightarrow> nat \<Rightarrow> 'a parser \<Rightarrow> 'a parser" where
  "read_separator sep index inner s =
     (if index > 0 then pbind (read_given_char sep s) (\<lambda>_ s. inner s) else inner s)"

fun read_v4_groups :: "nat \<Rightarrow> nat \<Rightarrow> nat list parser" where
  "read_v4_groups 0 i s = Some ([], s)"
| "read_v4_groups (Suc n) i s =
     pbind (read_separator (CHR ''.'') i (read_number 10 (Some 3) False 256) s) (\<lambda>g s.
     pbind (read_v4_groups n (Suc i) s) (\<lambda>gs s. Some (g # gs, s)))"

definition read_ipv4_addr :: "u32 parser" where
  "read_ipv4_addr s =
     pbind (read_v4_groups 4 0 s) (\<lambda>gs s. Some (word_of_nat (be_value gs), s))"

fun read_groups :: "nat \<Rightarrow> nat \<Rightarrow> string \<Rightarrow> nat list \<times> bool \<times> string" where
  "read_groups 0 i s = ([], False, s)"
| "read_groups (Suc n) i s =
     (case (if n > 0 then read_separator (CHR '':'') i read_ipv4_addr s else None) of
        Some (a, rest) \<Rightarrow> ([unat a div 65536, unat a mod 65536], True, rest)
      | None \<Rightarrow>
          (case read_separator (CHR '':'') i (read_number 16 (Some 4) True 65536) s of
             None \<Rightarrow> ([], False, s)
           | Some (g, rest) \<Rightarrow>
               (case read_groups n (Suc i) rest of (gs, v4, rest) \<Rightarrow> (g # gs, v4, rest))))"

definition segments_value :: "nat list \<Rightarrow> nat" where
  "segments_value gs = foldl (\<lambda>a g. a * 65536 + g) 0 gs"

definition read_ipv6_addr :: "u128 parser" where
  "read_ipv6_addr s =
     (case read_groups 8 0 s of (head, head_ipv4, s1) \<Rightarrow>
        if length head = 8 then Some (word_of_nat (segments_value head), s1)
        else if head_ipv4 then None
        else
          pbind (read_given_char (CHR '':'') s1) (\<lambda>_ s2.
          pbind (read_given_char (CHR '':'') s2) (\<lambda>_ s3.
          (case read_groups (8 - (length head + 1)) 0 s3 of (tail, _, s4) \<Rightarrow>
             Some (word_of_nat (segments_value
               (head @ replicate (8 - length head - length tail) 0 @ tail)), s4)))))"

definition read_ip_addr :: "ip_addr parser" where
  "read_ip_addr s =
     (case read_ipv4_addr s of
        Some (a, rest) \<Rightarrow> Some (V4 a, rest)
      | None \<Rightarrow> pbind (read_ipv6_addr s) (\<lambda>a s. Some (V6 a, s)))"

definition read_port :: "u16 parser" where
  "read_port s =
     pbind (read_given_char (CHR '':'') s) (\<lambda>_ s.
     pbind (read_number 10 None True (2 ^ 16) s) (\<lambda>n s. Some (word_of_nat n, s)))"

definition read_scope_id :: "u32 parser" where
  "read_scope_id s =
     pbind (read_given_char (CHR ''%'') s) (\<lambda>_ s.
     pbind (read_number 10 None True (2 ^ 32) s) (\<lambda>n s. Some (word_of_nat n, s)))"

definition read_socket_addr_v4 :: "socket_addr parser" where
  "read_socket_addr_v4 s =
     pbind (read_ipv4_addr s) (\<lambda>ip s. pbind (read_port s) (\<lambda>port s. Some (SockV4 ip port, s)))"

definition read_socket_addr_v6 :: "socket_addr parser" where
  "read_socket_addr_v6 s =
     pbind (read_given_char (CHR ''['') s) (\<lambda>_ s.
     pbind (read_ipv6_addr s) (\<lambda>ip s.
     (case (case read_scope_id s of None \<Rightarrow> (0, s) | Some p \<Rightarrow> p) of (scope_id, s) \<Rightarrow>
        pbind (read_given_char (CHR '']'') s) (\<lambda>_ s.
        pbind (read_port s) (\<lambda>port s. Some (SockV6 ip port 0 scope_id, s))))))"

definition read_socket_addr :: "socket_addr parser" where
  "read_socket_addr s =
     (case read_socket_addr_v4 s of Some r \<Rightarrow> Some r | None \<Rightarrow> read_socket_addr_v6 s)"

text \<open>\<open>from_str\<close>: the whole text must be consumed.\<close>

definition parse_whole :: "'a parser \<Rightarrow> string \<Rightarrow> 'a option" where
  "parse_whole p s = (case p s of Some (x, []) \<Rightarrow> Some x | _ \<Rightarrow> None)"

abbreviation parse_ipv4 :: "string \<Rightarrow> u32 option" where
  "parse_ipv4 s \<equiv> (if 15 < length s then None else parse_whole read_ipv4_addr s)"

abbreviation parse_ipv6 :: "string \<Rightarrow> u128 option" where
  "parse_ipv6 \<equiv> parse_whole read_ipv6_addr"

abbreviation parse_ip :: "string \<Rightarrow> ip_addr option" where
  "parse_ip \<equiv> parse_whole read_ip_addr"

abbreviation parse_socket_addr :: "string \<Rightarrow> socket_addr option" where
  "parse_socket_addr \<equiv> parse_whole read_socket_addr"

text \<open>\<open>uN::from_str\<close>: an optional plus sign, then decimal digits within the width.\<close>

definition parse_uint :: "nat \<Rightarrow> string \<Rightarrow> nat option" where
  "parse_uint bound s =
     (let ds = (case s of c # cs \<Rightarrow> if c = CHR ''+'' then cs else s | [] \<Rightarrow> [])
      in if ds = [] then None
         else case take_digits 10 ds of
           (vs, []) \<Rightarrow> if digits_value 10 vs < bound then Some (digits_value 10 vs) else None
         | _ \<Rightarrow> None)"

definition parse_u16 :: "string \<Rightarrow> u16 option" where
  "parse_u16 s = map_option word_of_nat (parse_uint (2 ^ 16) s)"

definition parse_u8 :: "string \<Rightarrow> u8 option" where
  "parse_u8 s = map_option word_of_nat (parse_uint (2 ^ 8) s)"

section \<open>Display\<close>

fun join :: "string \<Rightarrow> string list \<Rightarrow> string" where
  "join sep [] = []"
| "join sep [x] = x"
| "join sep (x # y # xs) = x @ sep @ join sep (y # xs)"

definition show_ipv4 :: "u32 \<Rightarrow> string" where
  "show_ipv4 w = join ''.'' (map show_nat (be_digits 4 (unat w)))"

definition segments :: "u128 \<Rightarrow> nat list" where
  "segments w = map (\<lambda>i. unat w div 65536 ^ i mod 65536) (rev [0..<8])"

text \<open>The first longest run of zero segments: \<open>(start, len)\<close>.\<close>

fun zero_run :: "nat \<Rightarrow> nat list \<Rightarrow> nat \<times> nat \<Rightarrow> nat \<times> nat \<Rightarrow> nat \<times> nat" where
  "zero_run i [] longest current = longest"
| "zero_run i (g # gs) longest (start, len) =
     (if g = 0 then
        let current = (if len = 0 then i else start, len + 1);
            longest = (if snd current > snd longest then current else longest)
        in zero_run (i + 1) gs longest current
      else zero_run (i + 1) gs longest (0, 0))"

definition show_ipv6 :: "u128 \<Rightarrow> string" where
  "show_ipv6 w =
     (let gs = segments w; hex = (\<lambda>gs. join '':'' (map (show_radix 16) gs)) in
      if take 6 gs = [0, 0, 0, 0, 0, 0xffff]
      then ''::ffff:'' @ show_ipv4 (word_of_nat (unat w mod 2 ^ 32))
      else case zero_run 0 gs (0, 0) (0, 0) of (start, len) \<Rightarrow>
        if len > 1 then hex (take start gs) @ ''::'' @ hex (drop (start + len) gs) else hex gs)"

primrec show_ip :: "ip_addr \<Rightarrow> string" where
  "show_ip (V4 a) = show_ipv4 a"
| "show_ip (V6 a) = show_ipv6 a"

primrec show_socket_addr :: "socket_addr \<Rightarrow> string" where
  "show_socket_addr (SockV4 ip port) = show_ipv4 ip @ '':'' @ show_nat (unat port)"
| "show_socket_addr (SockV6 ip port flowinfo scope_id) =
     ''['' @ show_ipv6 ip @ (if scope_id = 0 then '''' else ''%'' @ show_nat (unat scope_id))
       @ '']:'' @ show_nat (unat port)"

text \<open>Equations that evaluate the parsers on concrete text.\<close>

lemma read_v4_groups_numeral:
  "read_v4_groups (numeral k) i s =
     pbind (read_separator (CHR ''.'') i (read_number 10 (Some 3) False 256) s) (\<lambda>g s.
     pbind (read_v4_groups (pred_numeral k) (Suc i) s) (\<lambda>gs s. Some (g # gs, s)))"
  by (simp add: numeral_eq_Suc)

lemmas read_groups_numeral = read_groups.simps(2) [of "pred_numeral k" for k, folded numeral_eq_Suc]

lemmas net_eval [codec_simps] =
  parse_whole_def read_socket_addr_def read_socket_addr_v4_def read_socket_addr_v6_def read_port_def
  read_ip_addr_def read_ipv4_addr_def read_ipv6_addr_def read_v4_groups_numeral read_groups_numeral
  read_separator_def read_number_def to_digit_def digits_value_def parse_uint_def parse_u16_def
  be_value_def

section \<open>Numbers read back\<close>

definition no_digit_head :: "nat \<Rightarrow> string \<Rightarrow> bool" where
  "no_digit_head radix s \<longleftrightarrow> (case s of [] \<Rightarrow> True | c # _ \<Rightarrow> to_digit radix c = None)"

fun radix_digits :: "nat \<Rightarrow> nat \<Rightarrow> nat list" where
  "radix_digits r n = (if r < 2 \<or> n < r then [n] else radix_digits r (n div r) @ [n mod r])"

declare radix_digits.simps [simp del]

lemma show_radix_digits: "show_radix r n = map digit_char (radix_digits r n)"
  by (induction r n rule: show_radix.induct)
     (simp add: show_radix.simps radix_digits.simps)

lemma radix_digits_less:
  assumes "2 \<le> r"
  shows "\<forall>d\<in>set (radix_digits r n). d < r"
  using assms by (induction r n rule: radix_digits.induct) (subst radix_digits.simps, auto)

lemma radix_digits_value: "2 \<le> r \<Longrightarrow> digits_value r (radix_digits r n) = n"
proof (induction r n rule: radix_digits.induct)
  case (1 r n)
  then show ?case by (subst radix_digits.simps) (auto simp: digits_value_def)
qed

lemma radix_digits_not_Nil [simp]: "radix_digits r n \<noteq> []"
  by (subst radix_digits.simps) simp

lemma radix_digits_hd:
  "2 \<le> r \<Longrightarrow> hd (radix_digits r n) = 0 \<longleftrightarrow> n = 0"
proof (induction r n rule: radix_digits.induct)
  case (1 r n)
  have "n div r \<noteq> 0" if "\<not> n < r" using that 1(2) by (simp add: div_eq_0_iff)
  with 1 show ?case by (subst radix_digits.simps) auto
qed

lemma radix_digits_length: "2 \<le> r \<Longrightarrow> n < r ^ Suc k \<Longrightarrow> length (radix_digits r n) \<le> Suc k"
proof (induction k arbitrary: n)
  case 0
  then show ?case by (subst radix_digits.simps) simp
next
  case (Suc k)
  have "n div r < r ^ Suc k"
    using Suc.prems by (intro less_mult_imp_div_less) (simp add: mult.commute)
  from Suc.IH [OF Suc.prems(1) this] show ?case by (subst radix_digits.simps) simp
qed

lemma take_digits_map:
  assumes "radix \<le> 36" and "\<forall>d\<in>set ds. d < radix" and "no_digit_head radix rest"
  shows "take_digits radix (map digit_char ds @ rest) = (ds, rest)"
  using assms(2)
proof (induction ds)
  case Nil
  from assms(3) show ?case by (cases rest) (simp_all add: no_digit_head_def)
next
  case (Cons d ds)
  then show ?case using assms(1) by (simp add: to_digit_char)
qed

lemma take_digits_show_radix:
  assumes "2 \<le> radix" and "radix \<le> 36" and "no_digit_head radix rest"
  shows "take_digits radix (show_radix radix n @ rest) = (radix_digits radix n, rest)"
  unfolding show_radix_digits
  by (rule take_digits_map [OF assms(2) radix_digits_less [OF assms(1)] assms(3)])

lemma digit_char_0: "d < 10 \<Longrightarrow> digit_char d = CHR ''0'' \<longleftrightarrow> d = 0"
proof -
  assume "d < 10"
  then have "d \<in> set [0..<10]" by simp
  moreover have "list_all (\<lambda>d. (digit_char d = CHR ''0'') = (d = 0)) [0..<10]" by code_simp
  ultimately show ?thesis unfolding list_all_iff by (rule bspec [rotated])
qed

lemma read_number_show:
  assumes "no_digit_head 10 rest" and "n < bound"
    and "\<And>m. max_digits = Some m \<Longrightarrow> length (radix_digits 10 n) \<le> m"
  shows "read_number 10 max_digits z bound (show_nat n @ rest) = Some (n, rest)"
proof -
  have "hd (show_nat n @ rest) = digit_char (hd (radix_digits 10 n))"
    by (simp add: show_nat_def show_radix_digits hd_append hd_map)
  moreover have "hd (radix_digits 10 n) < 10"
    using radix_digits_less [of 10 n] radix_digits_not_Nil [of 10 n] by (simp add: hd_in_set)
  moreover have "n = 0 \<Longrightarrow> length (radix_digits 10 n) = 1" by (simp add: radix_digits.simps)
  ultimately have z: "\<not> (hd (show_nat n @ rest) = CHR ''0'' \<and> 1 < length (radix_digits 10 n))"
    using radix_digits_hd [of 10 n] digit_char_0 by auto
  have "take_digits 10 (show_nat n @ rest) = (radix_digits 10 n, rest)"
    unfolding show_nat_def by (rule take_digits_show_radix) (simp_all add: assms(1))
  with z assms(2,3) show ?thesis
    by (auto simp: read_number_def radix_digits_value split: option.split)
qed

lemma no_digit_head_simps [simp]:
  "no_digit_head r []"
  "no_digit_head 10 (CHR ''.'' # s)"
  "no_digit_head 10 (CHR '':'' # s)"
  "no_digit_head 10 (CHR ''/'' # s)"
  "no_digit_head 10 (CHR '' '' # s)"
  "no_digit_head 10 (CHR '']'' # s)"
  by (simp_all add: no_digit_head_def to_digit_def)

lemma read_v4_group:
  "no_digit_head 10 rest \<Longrightarrow> g < 256 \<Longrightarrow>
     read_number 10 (Some 3) False 256 (show_nat g @ rest) = Some (g, rest)"
  using radix_digits_length [of 10 g 2] by (intro read_number_show) simp_all

lemma be_digits_4: "be_digits 4 x =
    [x div 256 ^ 3 mod 256, x div 256 ^ 2 mod 256, x div 256 mod 256, x mod 256]"
  by (simp add: be_digits_def upt_rec)

lemma read_ipv4_show:
  assumes "no_digit_head 10 rest"
  shows "read_ipv4_addr (show_ipv4 w @ rest) = Some (w, rest)"
proof -
  obtain a b c d where ds: "be_digits 4 (unat w) = [a, b, c, d]"
    and lt: "a < 256" "b < 256" "c < 256" "d < 256"
    by (auto simp: be_digits_4)
  have four: "(4::nat) = Suc (Suc (Suc (Suc 0)))" by simp
  have tx: "show_ipv4 w @ rest =
      show_nat a @ CHR ''.'' # show_nat b @ CHR ''.'' # show_nat c @ CHR ''.'' # show_nat d @ rest"
    by (simp add: show_ipv4_def ds)
  have "read_v4_groups 4 0 (show_ipv4 w @ rest) = Some ([a, b, c, d], rest)"
    unfolding tx four using lt assms
    by (simp add: read_separator_def read_v4_group)
  moreover have "be_value [a, b, c, d] = unat w"
    using be_value_digits [of 4 "unat w"] unat_bound [of w] by (simp add: ds)
  ultimately show ?thesis by (simp add: read_ipv4_addr_def)
qed

lemma read_port_show:
  assumes "no_digit_head 10 rest"
  shows "read_port (CHR '':'' # show_nat (unat port) @ rest) = Some (port, rest)"
proof -
  have "unat port < 2 ^ 16" using unat_bound [of port] by simp
  with read_number_show [OF assms, of "unat port" "2 ^ 16" None True] show ?thesis
    by (simp add: read_port_def)
qed

lemma parse_ip_show_v4: "parse_ip (show_ipv4 w) = Some (V4 w)"
  using read_ipv4_show [of "[]" w] by (simp add: parse_whole_def read_ip_addr_def)

lemma parse_socket_addr_show_v4: "parse_socket_addr (show_socket_addr (SockV4 ip port)) = Some (SockV4 ip port)"
  using read_ipv4_show [of "CHR '':'' # show_nat (unat port)" ip] read_port_show [of "[]" port]
  by (simp add: parse_whole_def read_socket_addr_def read_socket_addr_v4_def)

lemma parse_u16_show: "parse_u16 (show_nat (unat port)) = Some port"
proof -
  have lt: "unat port < 2 ^ 16" using unat_bound [of port] by simp
  have td: "take_digits 10 (show_nat (unat port)) = (radix_digits 10 (unat port), [])"
    using take_digits_show_radix [of 10 "[]" "unat port"] by (simp add: show_nat_def)
  obtain c cs where s: "show_nat (unat port) = c # cs"
    by (cases "show_nat (unat port)") (simp_all add: show_nat_def show_radix_digits)
  have "to_digit 10 c \<noteq> None" using td s by (auto split: option.splits prod.splits)
  then have "c \<noteq> CHR ''+''" by (auto simp: to_digit_def)
  with td s lt show ?thesis
    by (simp add: parse_u16_def parse_uint_def radix_digits_value)
qed

end
