(* ===== verification/Nat_Wire.thy ===== *)
theory Nat_Wire
  imports Net
begin

text \<open>
  The wire formats of NAT traversal (\<open>nat/wire/mod.rs\<close>, \<open>nat/wire/pcp.rs\<close>,
  \<open>nat/wire/natpmp.rs\<close>) and the default-route parser (\<open>nat/discovery.rs\<close>): requests, responses
  and result codes of PCP and NAT-PMP, with the exact set of datagrams each decoder accepts.
  The record of bytes a gateway sends (\<open>pcp_response_bytes\<close>, \<open>natpmp_response_bytes\<close>) is the
  reference layout the decoders are compared with.
\<close>

unbundle bit_operations_syntax

section \<open>Shared primitives\<close>

definition GATEWAY_PORT :: u16 where "GATEWAY_PORT = 5351"
definition IP_PROTO_TCP :: u8 where "IP_PROTO_TCP = 6"
definition IP_PROTO_UDP :: u8 where "IP_PROTO_UDP = 17"

datatype map_protocol = MapTcp | MapUdp

primrec ip_proto :: "map_protocol \<Rightarrow> u8" where
  "ip_proto MapTcp = IP_PROTO_TCP"
| "ip_proto MapUdp = IP_PROTO_UDP"

definition LIFETIME_MIN_SECS :: u32 where "LIFETIME_MIN_SECS = 120"
definition LIFETIME_MAX_SECS :: u32 where "LIFETIME_MAX_SECS = 24 * 60 * 60"
definition LIFETIME_RELEASE :: u32 where "LIFETIME_RELEASE = 0"

definition lifetime_bounded :: "u32 \<Rightarrow> u32" where
  "lifetime_bounded secs =
     (if secs < LIFETIME_MIN_SECS then LIFETIME_MIN_SECS
      else if LIFETIME_MAX_SECS < secs then LIFETIME_MAX_SECS else secs)"

datatype pcp_result_code =
    PcpSuccess | PcpUnsuppVersion | PcpNotAuthorized | PcpMalformedRequest | PcpUnsuppOpcode
  | PcpUnsuppOption | PcpMalformedOption | PcpNetworkFailure | PcpNoResources | PcpUnsuppProtocol
  | PcpUserExQuota | PcpCannotProvideExternal | PcpAddressMismatch | PcpExcessiveRemotePeers

datatype nat_pmp_result_code =
    PmpSuccess | PmpUnsupportedVersion | PmpNotAuthorized | PmpNetworkFailure
  | PmpOutOfResources | PmpUnsupportedOpcode

datatype wire_error =
    Truncated nat nat
  | BadVersion u8
  | BadOpcode u8
  | NotAResponse
  | NonceMismatch
  | UnknownResultCode u16
  | PcpError pcp_result_code
  | NatPmpError nat_pmp_result_code
  | NotIpv4Mapped u128

definition mapped_prefix :: bytes where
  "mapped_prefix = replicate 10 0 @ [0xFF, 0xFF]"

definition ipv4_to_mapped_v6 :: "u32 \<Rightarrow> u128" where
  "ipv4_to_mapped_v6 v4 = of_be (mapped_prefix @ be_bytes 4 v4)"

definition ipv6_mapped_to_v4 :: "u128 \<Rightarrow> wire_error + u32" where
  "ipv6_mapped_to_v4 v6 =
     (let octets = be_bytes 16 v6 in
      if take 12 octets = mapped_prefix then Inr (of_be (drop 12 octets)) else Inl (NotIpv4Mapped v6))"

section \<open>PCP\<close>

definition PCP_VERSION :: u8 where "PCP_VERSION = 2"
definition PCP_OPCODE_MAP :: u8 where "PCP_OPCODE_MAP = 1"
definition RESPONSE_BIT :: u8 where "RESPONSE_BIT = 0x80"
definition PCP_MAP_RESPONSE_LEN :: nat where "PCP_MAP_RESPONSE_LEN = 60"
definition PCP_NONCE_LEN :: nat where "PCP_NONCE_LEN = 12"

definition PCP_CODES :: "pcp_result_code list" where
  "PCP_CODES =
     [PcpSuccess, PcpUnsuppVersion, PcpNotAuthorized, PcpMalformedRequest, PcpUnsuppOpcode,
      PcpUnsuppOption, PcpMalformedOption, PcpNetworkFailure, PcpNoResources, PcpUnsuppProtocol,
      PcpUserExQuota, PcpCannotProvideExternal, PcpAddressMismatch, PcpExcessiveRemotePeers]"

definition pcp_from_wire :: "u8 \<Rightarrow> wire_error + pcp_result_code" where
  "pcp_from_wire value =
     (if unat value < length PCP_CODES then Inr (PCP_CODES ! unat value)
      else Inl (UnknownResultCode (ucast value)))"

primrec pcp_as_u8 :: "pcp_result_code \<Rightarrow> u8" where
  "pcp_as_u8 PcpSuccess = 0"
| "pcp_as_u8 PcpUnsuppVersion = 1"
| "pcp_as_u8 PcpNotAuthorized = 2"
| "pcp_as_u8 PcpMalformedRequest = 3"
| "pcp_as_u8 PcpUnsuppOpcode = 4"
| "pcp_as_u8 PcpUnsuppOption = 5"
| "pcp_as_u8 PcpMalformedOption = 6"
| "pcp_as_u8 PcpNetworkFailure = 7"
| "pcp_as_u8 PcpNoResources = 8"
| "pcp_as_u8 PcpUnsuppProtocol = 9"
| "pcp_as_u8 PcpUserExQuota = 10"
| "pcp_as_u8 PcpCannotProvideExternal = 11"
| "pcp_as_u8 PcpAddressMismatch = 12"
| "pcp_as_u8 PcpExcessiveRemotePeers = 13"

definition pcp_is_transient :: "pcp_result_code \<Rightarrow> bool" where
  "pcp_is_transient c \<longleftrightarrow> c = PcpNetworkFailure \<or> c = PcpNoResources \<or> c = PcpCannotProvideExternal"

definition pcp_should_fall_back :: "pcp_result_code \<Rightarrow> bool" where
  "pcp_should_fall_back c \<longleftrightarrow> c = PcpUnsuppVersion"

record pcp_map_request =
  pq_lifetime_secs :: u32
  pq_client_addr :: u32
  pq_nonce :: bytes
  pq_protocol :: map_protocol
  pq_internal_port :: u16
  pq_suggested_external_port :: u16
  pq_suggested_external_addr :: u32

record pcp_map_response =
  pr_result_code :: pcp_result_code
  pr_epoch_time :: u32
  pr_assigned_lifetime :: u32
  pr_nonce :: bytes
  pr_protocol :: map_protocol
  pr_internal_port :: u16
  pr_assigned_external_port :: u16
  pr_assigned_external_addr :: u32

definition pcp_encode_map_request :: "pcp_map_request \<Rightarrow> bytes" where
  "pcp_encode_map_request req =
     [PCP_VERSION, PCP_OPCODE_MAP, 0, 0]
     @ be_bytes 4 (pq_lifetime_secs req)
     @ be_bytes 16 (ipv4_to_mapped_v6 (pq_client_addr req))
     @ pq_nonce req
     @ [ip_proto (pq_protocol req), 0, 0, 0]
     @ be_bytes 2 (pq_internal_port req)
     @ be_bytes 2 (pq_suggested_external_port req)
     @ be_bytes 16 (ipv4_to_mapped_v6 (pq_suggested_external_addr req))"

text \<open>\<open>buf[a..a + n]\<close>\<close>

definition sub_bytes :: "nat \<Rightarrow> nat \<Rightarrow> bytes \<Rightarrow> bytes" where
  "sub_bytes a n buf = take n (drop a buf)"

definition pcp_decode_map_response :: "bytes \<Rightarrow> wire_error + pcp_map_response" where
  "pcp_decode_map_response buf =
     (if length buf < PCP_MAP_RESPONSE_LEN then Inl (Truncated PCP_MAP_RESPONSE_LEN (length buf))
      else let version = buf ! 0; opcode_byte = buf ! 1; opcode = opcode_byte AND NOT RESPONSE_BIT in
      if version \<noteq> PCP_VERSION then Inl (BadVersion version)
      else if opcode_byte AND RESPONSE_BIT = 0 then Inl NotAResponse
      else if opcode \<noteq> PCP_OPCODE_MAP then Inl (BadOpcode opcode)
      else rbind (pcp_from_wire (buf ! 3)) (\<lambda>code.
      rbind (if buf ! 36 = IP_PROTO_TCP then Inr MapTcp
             else if buf ! 36 = IP_PROTO_UDP then Inr MapUdp
             else Inl (BadOpcode (buf ! 36))) (\<lambda>proto.
      rbind (ipv6_mapped_to_v4 (of_be (sub_bytes 44 16 buf))) (\<lambda>ext.
        Inr \<lparr>pr_result_code = code,
             pr_epoch_time = of_be (sub_bytes 8 4 buf),
             pr_assigned_lifetime = of_be (sub_bytes 4 4 buf),
             pr_nonce = sub_bytes 24 PCP_NONCE_LEN buf,
             pr_protocol = proto,
             pr_internal_port = of_be (sub_bytes 40 2 buf),
             pr_assigned_external_port = of_be (sub_bytes 42 2 buf),
             pr_assigned_external_addr = ext\<rparr>))))"

section \<open>NAT-PMP\<close>

definition NATPMP_VERSION :: u8 where "NATPMP_VERSION = 0"
definition NATPMP_OPCODE_EXTERNAL_ADDRESS :: u8 where "NATPMP_OPCODE_EXTERNAL_ADDRESS = 0"
definition NATPMP_OPCODE_MAP_UDP :: u8 where "NATPMP_OPCODE_MAP_UDP = 1"
definition NATPMP_OPCODE_MAP_TCP :: u8 where "NATPMP_OPCODE_MAP_TCP = 2"
definition NATPMP_EXTERNAL_ADDRESS_RESPONSE_LEN :: nat where "NATPMP_EXTERNAL_ADDRESS_RESPONSE_LEN = 12"
definition NATPMP_MAP_RESPONSE_LEN :: nat where "NATPMP_MAP_RESPONSE_LEN = 16"

definition PMP_CODES :: "nat_pmp_result_code list" where
  "PMP_CODES =
     [PmpSuccess, PmpUnsupportedVersion, PmpNotAuthorized, PmpNetworkFailure, PmpOutOfResources,
      PmpUnsupportedOpcode]"

definition natpmp_from_wire :: "u16 \<Rightarrow> wire_error + nat_pmp_result_code" where
  "natpmp_from_wire value =
     (if unat value < length PMP_CODES then Inr (PMP_CODES ! unat value)
      else Inl (UnknownResultCode value))"

primrec natpmp_as_u16 :: "nat_pmp_result_code \<Rightarrow> u16" where
  "natpmp_as_u16 PmpSuccess = 0"
| "natpmp_as_u16 PmpUnsupportedVersion = 1"
| "natpmp_as_u16 PmpNotAuthorized = 2"
| "natpmp_as_u16 PmpNetworkFailure = 3"
| "natpmp_as_u16 PmpOutOfResources = 4"
| "natpmp_as_u16 PmpUnsupportedOpcode = 5"

definition natpmp_is_transient :: "nat_pmp_result_code \<Rightarrow> bool" where
  "natpmp_is_transient c \<longleftrightarrow> c = PmpNetworkFailure \<or> c = PmpOutOfResources"

record natpmp_map_request =
  nq_protocol :: map_protocol
  nq_internal_port :: u16
  nq_suggested_external_port :: u16
  nq_lifetime_secs :: u32

record natpmp_map_response =
  nr_result_code :: nat_pmp_result_code
  nr_protocol :: map_protocol
  nr_seconds_since_epoch :: u32
  nr_internal_port :: u16
  nr_assigned_external_port :: u16
  nr_assigned_lifetime :: u32

record natpmp_external_address_response =
  nx_result_code :: nat_pmp_result_code
  nx_seconds_since_epoch :: u32
  nx_external_address :: u32

definition natpmp_encode_external_address_request :: bytes where
  "natpmp_encode_external_address_request = [NATPMP_VERSION, NATPMP_OPCODE_EXTERNAL_ADDRESS]"

primrec natpmp_opcode :: "map_protocol \<Rightarrow> u8" where
  "natpmp_opcode MapUdp = NATPMP_OPCODE_MAP_UDP"
| "natpmp_opcode MapTcp = NATPMP_OPCODE_MAP_TCP"

definition natpmp_encode_map_request :: "natpmp_map_request \<Rightarrow> bytes" where
  "natpmp_encode_map_request req =
     [NATPMP_VERSION, natpmp_opcode (nq_protocol req), 0, 0]
     @ be_bytes 2 (nq_internal_port req)
     @ be_bytes 2 (nq_suggested_external_port req)
     @ be_bytes 4 (nq_lifetime_secs req)"

definition validate_response_header :: "bytes \<Rightarrow> u8 \<Rightarrow> wire_error + u16" where
  "validate_response_header buf expected_opcode =
     (let opc = buf ! 1 in
      if buf ! 0 \<noteq> NATPMP_VERSION then Inl (BadVersion (buf ! 0))
      else if opc AND RESPONSE_BIT = 0 then Inl NotAResponse
      else if opc AND NOT RESPONSE_BIT \<noteq> expected_opcode then Inl (BadOpcode (opc AND NOT RESPONSE_BIT))
      else Inr (of_be (sub_bytes 2 2 buf)))"

definition decode_external_address_response :: "bytes \<Rightarrow> wire_error + natpmp_external_address_response" where
  "decode_external_address_response buf =
     (if length buf < NATPMP_EXTERNAL_ADDRESS_RESPONSE_LEN
      then Inl (Truncated NATPMP_EXTERNAL_ADDRESS_RESPONSE_LEN (length buf))
      else rbind (validate_response_header buf NATPMP_OPCODE_EXTERNAL_ADDRESS) (\<lambda>raw.
      rbind (natpmp_from_wire raw) (\<lambda>code.
        Inr \<lparr>nx_result_code = code,
             nx_seconds_since_epoch = of_be (sub_bytes 4 4 buf),
             nx_external_address = of_be (sub_bytes 8 4 buf)\<rparr>)))"

definition natpmp_decode_map_response :: "bytes \<Rightarrow> wire_error + natpmp_map_response" where
  "natpmp_decode_map_response buf =
     (if length buf < NATPMP_MAP_RESPONSE_LEN then Inl (Truncated NATPMP_MAP_RESPONSE_LEN (length buf))
      else let opc = buf ! 1; bare_op = opc AND NOT RESPONSE_BIT in
      if buf ! 0 \<noteq> NATPMP_VERSION then Inl (BadVersion (buf ! 0))
      else if opc AND RESPONSE_BIT = 0 then Inl NotAResponse
      else rbind (if bare_op = NATPMP_OPCODE_MAP_UDP then Inr MapUdp
                  else if bare_op = NATPMP_OPCODE_MAP_TCP then Inr MapTcp
                  else Inl (BadOpcode bare_op)) (\<lambda>proto.
      rbind (natpmp_from_wire (of_be (sub_bytes 2 2 buf))) (\<lambda>code.
        Inr \<lparr>nr_result_code = code,
             nr_protocol = proto,
             nr_seconds_since_epoch = of_be (sub_bytes 4 4 buf),
             nr_internal_port = of_be (sub_bytes 8 2 buf),
             nr_assigned_external_port = of_be (sub_bytes 10 2 buf),
             nr_assigned_lifetime = of_be (sub_bytes 12 4 buf)\<rparr>)))"

section \<open>Default-route discovery\<close>

text \<open>\<open>str::lines\<close>, \<open>str::split_whitespace\<close> and \<open>u32::from_str_radix\<close>.\<close>

definition strip_cr :: "string \<Rightarrow> string" where
  "strip_cr l = (if l \<noteq> [] \<and> last l = CHR 0x0D then butlast l else l)"

definition str_lines :: "string \<Rightarrow> string list" where
  "str_lines s =
     (let ps = split_on (CHR 0x0A) s in
      map strip_cr (butlast ps) @ (if last ps = [] then [] else [last ps]))"

fun break_ws :: "string \<Rightarrow> string \<times> string" where
  "break_ws [] = ([], [])"
| "break_ws (c # cs) =
     (if \<exists>w\<in>set ws_seqs. starts_with w (c # cs) then ([], c # cs)
      else (c # fst (break_ws cs), snd (break_ws cs)))"

lemma break_ws_length: "length (snd (break_ws s)) \<le> length s"
  by (induction s rule: break_ws.induct) auto

lemma strip_seqs_length: "length (strip_seqs ws s) \<le> length s"
proof (induction ws s rule: strip_seqs.induct)
  case (2 ws c cs)
  show ?case
  proof (cases "find (\<lambda>w. starts_with w (c # cs)) ws")
    case (Some w)
    from 2 [OF this] Some show ?thesis by (auto intro: le_trans)
  qed simp
qed simp

function split_whitespace :: "string \<Rightarrow> string list" where
  "split_whitespace s =
     (case strip_seqs ws_seqs s of
        [] \<Rightarrow> []
      | c # cs \<Rightarrow> (c # fst (break_ws cs)) # split_whitespace (snd (break_ws cs)))"
  by pat_completeness auto
termination
proof (relation "measure length")
  fix s :: string and c cs
  assume "strip_seqs ws_seqs s = c # cs"
  then have "Suc (length cs) \<le> length s" using strip_seqs_length [of ws_seqs s] by simp
  then show "(snd (break_ws cs), s) \<in> measure length"
    using break_ws_length [of cs] by simp
qed simp

declare split_whitespace.simps [simp del]

definition from_str_radix :: "nat \<Rightarrow> nat \<Rightarrow> string \<Rightarrow> nat option" where
  "from_str_radix radix bound s =
     (let ds = (case s of c # cs \<Rightarrow> if c = CHR ''+'' then cs else s | [] \<Rightarrow> [])
      in if ds = [] then None
         else case take_digits radix ds of
           (vs, []) \<Rightarrow> if digits_value radix vs < bound then Some (digits_value radix vs) else None
         | _ \<Rightarrow> None)"

datatype discovery_error = NoLocalAddress | NoDefaultRoute | ProcReadError

record gateway =
  gw_addr :: u32
  gw_local_source :: u32
  gw_port :: u16

definition parse_hex_ipv4 :: "string \<Rightarrow> u32 option" where
  "parse_hex_ipv4 t =
     (if length t \<noteq> 8 then None else map_option word_of_nat (from_str_radix 16 (2 ^ 32) t))"

definition swap_bytes :: "u32 \<Rightarrow> u32" where
  "swap_bytes w = of_be (rev (be_bytes 4 w))"

text \<open>One row of the routing table: its metric and gateway when it is a usable default route.\<close>

definition default_route :: "string \<Rightarrow> (u32 \<times> u32) option" where
  "default_route line =
     (let cols = split_whitespace line in
      if length cols < 8 then None
      else case (parse_hex_ipv4 (cols ! 1), parse_hex_ipv4 (cols ! 7)) of
        (Some dst, Some netmask) \<Rightarrow>
          if dst \<noteq> 0 \<or> netmask \<noteq> 0 then None
          else (case parse_hex_ipv4 (cols ! 2) of
                  None \<Rightarrow> None
                | Some gw \<Rightarrow>
                    if gw = 0 then None
                    else Some (case parse_uint (2 ^ 32) (cols ! 6) of None \<Rightarrow> - 1 | Some m \<Rightarrow> word_of_nat m,
                               swap_bytes gw))
      | _ \<Rightarrow> None)"

definition better_route :: "(u32 \<times> u32) option \<Rightarrow> string \<Rightarrow> (u32 \<times> u32) option" where
  "better_route best line =
     (case default_route line of
        None \<Rightarrow> best
      | Some (metric, gw) \<Rightarrow>
          (case best of
             None \<Rightarrow> Some (metric, gw)
           | Some (cur, g) \<Rightarrow> if metric < cur then Some (metric, gw) else best))"

definition parse_default_gateway :: "string \<Rightarrow> discovery_error + u32" where
  "parse_default_gateway t =
     ok_or NoDefaultRoute (map_option snd (foldl better_route None (drop 1 (str_lines t))))"

text \<open>
  \<open>discover\<close> with the two system calls as inputs: the source address the kernel selects and the
  contents of the routing table.
\<close>

definition discover :: "discovery_error + u32 \<Rightarrow> discovery_error + string \<Rightarrow> discovery_error + gateway" where
  "discover local_source proc_route =
     rbind local_source (\<lambda>src. rbind proc_route (\<lambda>raw. rbind (parse_default_gateway raw) (\<lambda>addr.
       Inr \<lparr>gw_addr = addr, gw_local_source = src, gw_port = GATEWAY_PORT\<rparr>)))"

section \<open>Exactness of the decoders\<close>

lemma slice_split: "a + n \<le> length buf \<Longrightarrow> drop a buf = sub_bytes a n buf @ drop (a + n) buf"
  unfolding sub_bytes_def by (metis add.commute append_take_drop_id drop_drop)

lemma slice_single: "a < length buf \<Longrightarrow> drop a buf = buf ! a # drop (Suc a) buf"
  by (rule Cons_nth_drop_Suc [symmetric])

lemma take_eq_nth: "n \<le> length buf \<Longrightarrow> take n buf = map (nth buf) [0..<n]"
  by (rule nth_equalityI) auto

lemma length_slice [simp]: "a + n \<le> length buf \<Longrightarrow> length (sub_bytes a n buf) = n"
  by (simp add: sub_bytes_def)

lemma slice_append:
  "a = length p \<Longrightarrow> n = length q \<Longrightarrow> sub_bytes a n (p @ q @ r) = q"
  by (simp add: sub_bytes_def)

lemma and_response_bit: "(w :: u8) AND RESPONSE_BIT = (if bit w 7 then RESPONSE_BIT else 0)"
proof -
  have "bit (RESPONSE_BIT :: u8) n \<longleftrightarrow> n = 7" for n
    unfolding RESPONSE_BIT_def using bit_exp_iff [where 'a = "8 word", of 7 n] by auto
  then show ?thesis by (intro bit_word_eqI) (auto simp: bit_and_iff)
qed

lemma response_opcode:
  "w AND RESPONSE_BIT \<noteq> 0 \<and> w AND NOT RESPONSE_BIT = opc \<Longrightarrow> w = opc OR RESPONSE_BIT"
proof -
  assume a: "w AND RESPONSE_BIT \<noteq> 0 \<and> w AND NOT RESPONSE_BIT = opc"
  have "w = (w AND NOT RESPONSE_BIT) OR (w AND RESPONSE_BIT)"
    by (rule bit_word_eqI) (auto simp: bit_simps)
  with a show ?thesis by (simp add: and_response_bit split: if_splits)
qed

lemma mapped_roundtrip [simp]: "ipv6_mapped_to_v4 (ipv4_to_mapped_v6 w) = Inr w"
  by (simp add: ipv6_mapped_to_v4_def ipv4_to_mapped_v6_def mapped_prefix_def)

lemma mapped_only: "ipv6_mapped_to_v4 v = Inr w \<Longrightarrow> v = ipv4_to_mapped_v6 w"
proof -
  assume "ipv6_mapped_to_v4 v = Inr w"
  then have p: "take 12 (be_bytes 16 v) = mapped_prefix" and w: "w = of_be (drop 12 (be_bytes 16 v))"
    by (auto simp: ipv6_mapped_to_v4_def Let_def split: if_splits)
  have "mapped_prefix @ be_bytes 4 w = be_bytes 16 v"
    using p append_take_drop_id [of 12 "be_bytes 16 v"] by (simp add: w)
  then show ?thesis by (simp add: ipv4_to_mapped_v6_def)
qed

lemma pcp_from_wire_as_u8 [simp]: "pcp_from_wire (pcp_as_u8 c) = Inr c"
  by (cases c) (simp_all add: pcp_from_wire_def PCP_CODES_def)

lemma less_14: "(n :: nat) < 14 \<longleftrightarrow> n \<in> {0, 1, 2, 3, 4, 5, 6, 7, 8, 9, 10, 11, 12, 13}"
  by (simp, presburger)

lemma pcp_from_wire_only: "pcp_from_wire v = Inr c \<Longrightarrow> v = pcp_as_u8 c"
proof -
  assume "pcp_from_wire v = Inr c"
  then have "unat v < 14" and c: "c = PCP_CODES ! unat v"
    by (auto simp: pcp_from_wire_def PCP_CODES_def split: if_splits)
  then have "unat (pcp_as_u8 c) = unat v"
    unfolding less_14 by (auto simp: PCP_CODES_def)
  then show ?thesis by (metis unsigned_word_eqI)
qed

lemma natpmp_from_wire_as_u16 [simp]: "natpmp_from_wire (natpmp_as_u16 c) = Inr c"
  by (cases c) (simp_all add: natpmp_from_wire_def PMP_CODES_def)

lemma less_6: "(n :: nat) < 6 \<longleftrightarrow> n \<in> {0, 1, 2, 3, 4, 5}"
  by auto

lemma natpmp_from_wire_only: "natpmp_from_wire v = Inr c \<Longrightarrow> v = natpmp_as_u16 c"
proof -
  assume "natpmp_from_wire v = Inr c"
  then have "unat v < 6" and c: "c = PMP_CODES ! unat v"
    by (auto simp: natpmp_from_wire_def PMP_CODES_def split: if_splits)
  then have "unat (natpmp_as_u16 c) = unat v"
    unfolding less_6 by (auto simp: PMP_CODES_def)
  then show ?thesis by (metis unsigned_word_eqI)
qed

text \<open>
  The layout of a PCP MAP response: \<open>r1\<close>, \<open>r2\<close> and \<open>r3\<close> are the reserved fields, \<open>opts\<close> the
  options a gateway may append.
\<close>

definition pcp_response_bytes :: "u8 \<Rightarrow> bytes \<Rightarrow> bytes \<Rightarrow> bytes \<Rightarrow> pcp_map_response \<Rightarrow> bytes" where
  "pcp_response_bytes r1 r2 r3 opts r =
     [PCP_VERSION, PCP_OPCODE_MAP OR RESPONSE_BIT, r1, pcp_as_u8 (pr_result_code r)]
     @ be_bytes 4 (pr_assigned_lifetime r) @ be_bytes 4 (pr_epoch_time r) @ r2
     @ pr_nonce r @ [ip_proto (pr_protocol r)] @ r3
     @ be_bytes 2 (pr_internal_port r) @ be_bytes 2 (pr_assigned_external_port r)
     @ be_bytes 16 (ipv4_to_mapped_v6 (pr_assigned_external_addr r)) @ opts"

definition natpmp_response_bytes :: "bytes \<Rightarrow> natpmp_map_response \<Rightarrow> bytes" where
  "natpmp_response_bytes opts r =
     [NATPMP_VERSION, natpmp_opcode (nr_protocol r) OR RESPONSE_BIT]
     @ be_bytes 2 (natpmp_as_u16 (nr_result_code r)) @ be_bytes 4 (nr_seconds_since_epoch r)
     @ be_bytes 2 (nr_internal_port r) @ be_bytes 2 (nr_assigned_external_port r)
     @ be_bytes 4 (nr_assigned_lifetime r) @ opts"

lemma pcp_decode_response:
  assumes "length r2 = 12" "length r3 = 3" "length (pr_nonce r) = 12"
  shows "pcp_decode_map_response (pcp_response_bytes r1 r2 r3 opts r) = Inr r"
proof -
  let ?b = "pcp_response_bytes r1 r2 r3 opts r"
  have len: "60 \<le> length ?b" using assms by (simp add: pcp_response_bytes_def)
  have "?b ! 36 = ip_proto (pr_protocol r)"
    using assms by (simp add: pcp_response_bytes_def nth_append)
  moreover have "sub_bytes 4 4 ?b = be_bytes 4 (pr_assigned_lifetime r)"
    "sub_bytes 8 4 ?b = be_bytes 4 (pr_epoch_time r)"
    "sub_bytes 24 12 ?b = pr_nonce r"
    "sub_bytes 40 2 ?b = be_bytes 2 (pr_internal_port r)"
    "sub_bytes 42 2 ?b = be_bytes 2 (pr_assigned_external_port r)"
    "sub_bytes 44 16 ?b = be_bytes 16 (ipv4_to_mapped_v6 (pr_assigned_external_addr r))"
    using assms by (simp_all add: pcp_response_bytes_def sub_bytes_def)
  moreover have "?b ! 0 = PCP_VERSION" "?b ! 1 = PCP_OPCODE_MAP OR RESPONSE_BIT"
    "?b ! 3 = pcp_as_u8 (pr_result_code r)"
    by (simp_all add: pcp_response_bytes_def)
  ultimately show ?thesis
    using len
    by (cases "pr_protocol r")
      (simp_all add: pcp_decode_map_response_def PCP_MAP_RESPONSE_LEN_def PCP_NONCE_LEN_def
        PCP_OPCODE_MAP_def RESPONSE_BIT_def IP_PROTO_TCP_def IP_PROTO_UDP_def)
qed

lemma pcp_decode_only:
  assumes "pcp_decode_map_response buf = Inr r"
  shows "length (pr_nonce r) = 12 \<and> (\<exists>r1 r2 r3 opts. length r2 = 12 \<and> length r3 = 3 \<and>
    buf = pcp_response_bytes r1 r2 r3 opts r)"
proof -
  have len: "60 \<le> length buf"
    using assms by (auto simp: pcp_decode_map_response_def PCP_MAP_RESPONSE_LEN_def split: if_splits)
  from assms len have v: "buf ! 0 = PCP_VERSION"
    and opb: "buf ! 1 = PCP_OPCODE_MAP OR RESPONSE_BIT"
    and code: "buf ! 3 = pcp_as_u8 (pr_result_code r)"
    and proto: "buf ! 36 = ip_proto (pr_protocol r)"
    and ext: "of_be (sub_bytes 44 16 buf) = ipv4_to_mapped_v6 (pr_assigned_external_addr r)"
    and fields: "pr_epoch_time r = of_be (sub_bytes 8 4 buf)" "pr_assigned_lifetime r = of_be (sub_bytes 4 4 buf)"
      "pr_nonce r = sub_bytes 24 12 buf" "pr_internal_port r = of_be (sub_bytes 40 2 buf)"
      "pr_assigned_external_port r = of_be (sub_bytes 42 2 buf)"
    by (auto simp: pcp_decode_map_response_def Let_def PCP_MAP_RESPONSE_LEN_def PCP_NONCE_LEN_def
        intro: response_opcode dest!: pcp_from_wire_only mapped_only split: if_splits)
  have ext': "be_bytes 16 (ipv4_to_mapped_v6 (pr_assigned_external_addr r)) = sub_bytes 44 16 buf"
    using len by (simp flip: ext)
  have "buf = take 4 buf @ drop 4 buf" by simp
  also have "take 4 buf = [buf ! 0, buf ! 1, buf ! 2, buf ! 3]"
    using len by (simp add: take_eq_nth upt_rec numeral_2_eq_2 numeral_3_eq_3)
  also have "drop 4 buf = sub_bytes 4 4 buf @ sub_bytes 8 4 buf @ sub_bytes 12 12 buf @ sub_bytes 24 12 buf @ drop 36 buf"
    using len by (simp add: slice_split [of 4 4] slice_split [of 8 4] slice_split [of 12 12] slice_split [of 24 12])
  also have "drop 36 buf = buf ! 36 # sub_bytes 37 3 buf @ sub_bytes 40 2 buf @ sub_bytes 42 2 buf @ sub_bytes 44 16 buf @ drop 60 buf"
    using len by (simp add: slice_single [of 36] slice_split [of 37 3] slice_split [of 40 2] slice_split [of 42 2] slice_split [of 44 16])
  finally have "buf = pcp_response_bytes (buf ! 2) (sub_bytes 12 12 buf) (sub_bytes 37 3 buf) (drop 60 buf) r"
    using len by (simp add: pcp_response_bytes_def v opb [simplified] code proto fields ext')
  moreover have "length (sub_bytes 12 12 buf) = 12" "length (sub_bytes 37 3 buf) = 3" "length (pr_nonce r) = 12"
    using len by (simp_all add: fields)
  ultimately show ?thesis by blast
qed

lemma natpmp_decode_response: "natpmp_decode_map_response (natpmp_response_bytes opts r) = Inr r"
proof -
  let ?b = "natpmp_response_bytes opts r"
  have len: "16 \<le> length ?b" by (simp add: natpmp_response_bytes_def)
  have "sub_bytes 2 2 ?b = be_bytes 2 (natpmp_as_u16 (nr_result_code r))"
    "sub_bytes 4 4 ?b = be_bytes 4 (nr_seconds_since_epoch r)"
    "sub_bytes 8 2 ?b = be_bytes 2 (nr_internal_port r)"
    "sub_bytes 10 2 ?b = be_bytes 2 (nr_assigned_external_port r)"
    "sub_bytes 12 4 ?b = be_bytes 4 (nr_assigned_lifetime r)"
    by (simp_all add: natpmp_response_bytes_def sub_bytes_def)
  moreover have "?b ! 0 = NATPMP_VERSION" "?b ! 1 = natpmp_opcode (nr_protocol r) OR RESPONSE_BIT"
    by (simp_all add: natpmp_response_bytes_def)
  ultimately show ?thesis
    using len
    by (cases "nr_protocol r")
      (simp_all add: natpmp_decode_map_response_def NATPMP_MAP_RESPONSE_LEN_def RESPONSE_BIT_def
        NATPMP_OPCODE_MAP_TCP_def NATPMP_OPCODE_MAP_UDP_def)
qed

lemma natpmp_decode_only:
  assumes "natpmp_decode_map_response buf = Inr r"
  shows "\<exists>opts. buf = natpmp_response_bytes opts r"
proof -
  have len: "16 \<le> length buf"
    using assms by (auto simp: natpmp_decode_map_response_def NATPMP_MAP_RESPONSE_LEN_def split: if_splits)
  from assms len have v: "buf ! 0 = NATPMP_VERSION"
    and opb: "buf ! 1 = natpmp_opcode (nr_protocol r) OR RESPONSE_BIT"
    and code: "of_be (sub_bytes 2 2 buf) = natpmp_as_u16 (nr_result_code r)"
    and fields: "nr_seconds_since_epoch r = of_be (sub_bytes 4 4 buf)" "nr_internal_port r = of_be (sub_bytes 8 2 buf)"
      "nr_assigned_external_port r = of_be (sub_bytes 10 2 buf)" "nr_assigned_lifetime r = of_be (sub_bytes 12 4 buf)"
    by (auto simp: natpmp_decode_map_response_def Let_def NATPMP_MAP_RESPONSE_LEN_def
        intro: response_opcode dest!: natpmp_from_wire_only split: if_splits)
  have code': "be_bytes 2 (natpmp_as_u16 (nr_result_code r)) = sub_bytes 2 2 buf"
    using len by (simp flip: code)
  have "buf = take 2 buf @ drop 2 buf" by simp
  also have "take 2 buf = [buf ! 0, buf ! 1]"
    using len by (simp add: take_eq_nth upt_rec)
  also have "drop 2 buf = sub_bytes 2 2 buf @ sub_bytes 4 4 buf @ sub_bytes 8 2 buf @ sub_bytes 10 2 buf @ sub_bytes 12 4 buf @ drop 16 buf"
    using len by (simp add: slice_split [of 2 2] slice_split [of 4 4] slice_split [of 8 2] slice_split [of 10 2] slice_split [of 12 4])
  finally have "buf = natpmp_response_bytes (drop 16 buf) r"
    using len by (simp add: natpmp_response_bytes_def v opb [simplified] code' fields)
  then show ?thesis by blast
qed

section \<open>The selected default route\<close>

definition route_rows :: "string \<Rightarrow> (u32 \<times> u32) list" where
  "route_rows t = List.map_filter default_route (drop 1 (str_lines t))"

definition first_least :: "(u32 \<times> u32) list \<Rightarrow> u32 \<times> u32 \<Rightarrow> bool" where
  "first_least rows r \<longleftrightarrow>
     (\<exists>as bs. rows = as @ r # bs \<and> (\<forall>x\<in>set as. fst r < fst x) \<and> (\<forall>x\<in>set bs. fst r \<le> fst x))"

lemma first_least_snoc:
  "first_least (rows @ [x]) r \<longleftrightarrow>
     first_least rows r \<and> fst r \<le> fst x \<or> r = x \<and> (\<forall>y\<in>set rows. fst x < fst y)"
proof
  assume "first_least (rows @ [x]) r"
  then obtain as bs where e: "rows @ [x] = as @ r # bs" and p: "\<forall>x\<in>set as. fst r < fst x"
    and q: "\<forall>x\<in>set bs. fst r \<le> fst x"
    unfolding first_least_def by blast
  show "first_least rows r \<and> fst r \<le> fst x \<or> r = x \<and> (\<forall>y\<in>set rows. fst x < fst y)"
  proof (cases bs rule: rev_cases)
    case Nil
    with e p show ?thesis by auto
  next
    case (snoc bs' b)
    with e have "rows = as @ r # bs'" "b = x" by auto
    with p q snoc show ?thesis unfolding first_least_def by auto
  qed
next
  assume "first_least rows r \<and> fst r \<le> fst x \<or> r = x \<and> (\<forall>y\<in>set rows. fst x < fst y)"
  then show "first_least (rows @ [x]) r"
  proof (elim disjE conjE)
    assume "first_least rows r" "fst r \<le> fst x"
    then obtain as bs where "rows = as @ r # bs" "\<forall>x\<in>set as. fst r < fst x" "\<forall>x\<in>set bs. fst r \<le> fst x"
      unfolding first_least_def by blast
    with \<open>fst r \<le> fst x\<close> show ?thesis
      unfolding first_least_def by (intro exI [of _ as] exI [of _ "bs @ [x]"]) auto
  next
    assume "r = x" "\<forall>y\<in>set rows. fst x < fst y"
    then show ?thesis unfolding first_least_def by (intro exI [of _ rows] exI [of _ "[]"]) auto
  qed
qed

lemma first_least_iff_least: "first_least rows r \<Longrightarrow> x \<in> set rows \<Longrightarrow> fst r \<le> fst x"
  unfolding first_least_def by (auto simp: order.strict_implies_order)

lemma first_least_exists: "rows \<noteq> [] \<Longrightarrow> \<exists>r. first_least rows r"
proof (induction rows rule: rev_induct)
  case (snoc x rows)
  show ?case
  proof (cases "rows = []")
    case True
    then have "first_least (rows @ [x]) x" unfolding first_least_snoc by simp
    then show ?thesis by blast
  next
    case False
    with snoc obtain r where r: "first_least rows r" by blast
    then have "fst r \<le> fst x \<or> (\<forall>y\<in>set rows. fst x < fst y)"
      by (meson first_least_iff_least less_le_trans not_le)
    with r show ?thesis unfolding first_least_snoc by blast
  qed
qed simp

lemma first_least_single: "first_least [x] r \<longleftrightarrow> r = x"
  by (simp add: first_least_snoc [of "[]", simplified]) (simp add: first_least_def)

lemma better_route_simps:
  "default_route l = None \<Longrightarrow> better_route best l = best"
  "default_route l = Some x \<Longrightarrow> better_route None l = Some x"
  "default_route l = Some x \<Longrightarrow> better_route (Some b) l = Some (if fst x < fst b then x else b)"
  by (simp_all add: better_route_def split: prod.splits)

lemma map_filter_snoc:
  "List.map_filter f (xs @ [x]) = List.map_filter f xs @ (case f x of None \<Rightarrow> [] | Some y \<Rightarrow> [y])"
  by (simp add: map_filter_def split: option.splits)

lemma fold_better:
  "foldl better_route None ls = Some r \<longleftrightarrow> first_least (List.map_filter default_route ls) r"
proof (induction ls arbitrary: r rule: rev_induct)
  case Nil
  show ?case by (simp add: first_least_def)
next
  case (snoc l ls)
  let ?rows = "List.map_filter default_route ls"
  show ?case
  proof (cases "default_route l")
    case None
    with snoc show ?thesis by (simp add: better_route_simps map_filter_snoc)
  next
    case (Some x)
    show ?thesis
    proof (cases "foldl better_route None ls")
      case None
      then have "?rows = []"
        using snoc first_least_exists by (metis option.distinct(1))
      then show ?thesis
        using Some None by (auto simp: better_route_simps map_filter_snoc first_least_single)
    next
      case (Some b)
      with snoc have b: "first_least ?rows r \<longleftrightarrow> r = b" for r by (metis option.inject)
      have least: "fst b \<le> fst y" if "y \<in> set ?rows" for y
        using b [of b] first_least_iff_least that by blast
      have mem: "b \<in> set ?rows" using b [of b] by (auto simp: first_least_def)
      have "(\<forall>y\<in>set ?rows. fst x < fst y) \<longleftrightarrow> fst x < fst b"
        using least mem by (meson less_le_trans)
      then show ?thesis
        using \<open>default_route l = Some x\<close> Some
        by (auto simp: better_route_simps map_filter_snoc first_least_snoc b)
    qed
  qed
qed

lemma parse_default_gateway_least:
  "parse_default_gateway t = Inr gw \<longleftrightarrow> (\<exists>m. first_least (route_rows t) (m, gw))"
  by (auto simp: parse_default_gateway_def route_rows_def fold_better)

section \<open>Properties\<close>

text \<open>
  the decoders of gateway responses accept exactly the well-formed responses and lose no
  field. A datagram decodes to a PCP response iff it is that response in the RFC 6887 layout, with
  arbitrary reserved bytes and trailing options; it decodes to a NAT-PMP response iff it is
  that response in the RFC 6886 layout followed by arbitrary bytes.
\<close>

theorem nat_responses_exact:
  "(pcp_decode_map_response buf = Inr r \<longleftrightarrow>
      length (pr_nonce r) = 12 \<and>
      (\<exists>r1 r2 r3 opts. length r2 = 12 \<and> length r3 = 3 \<and> buf = pcp_response_bytes r1 r2 r3 opts r)) \<and>
   (natpmp_decode_map_response buf = Inr q \<longleftrightarrow> (\<exists>opts. buf = natpmp_response_bytes opts q))"
  using pcp_decode_only pcp_decode_response natpmp_decode_only natpmp_decode_response by blast

end
