(* ===== verification/Wire.thy ===== *)
theory Wire
  imports Prelude
begin

text \<open>
  The packet layer of the chain control plane (crate \<open>ratatoskr\<close>, files \<open>error.rs\<close> and
  \<open>wire.rs\<close>): packet types and their tags, the 5-byte preamble, the cleartext counter of
  post-handshake packets, and the fixed-layout heartbeat payloads. The parser and the
  writers form canonical codecs.
\<close>

section \<open>Errors\<close>

text \<open>
  A formatted message is its template with the values interpolated into it; every error
  branch of the source keeps its own template.
\<close>

datatype message = Fmt string "string list"

datatype error =
    Io string
  | ReadFile string string
  | WriteFile string string
  | TomlParse string string
  | Postcard string
  | Hex string
  | Base64 string
  | InvalidRule message
  | InvalidEnrollmentToken message
  | InvalidPubKey message
  | InvalidPredicate message
  | Noise string
  | Auth string
  | Replay u64 u64
  | MalformedPacket string
  | UnknownPacketType u8

section \<open>Packet types\<close>

definition PREAMBLE_LEN :: nat where "PREAMBLE_LEN = 1 + 4"
definition COUNTER_LEN :: nat where "COUNTER_LEN = 8"
definition HEARTBEAT_PT_LEN :: nat where "HEARTBEAT_PT_LEN = 8 + 1"
definition HEARTBEAT_ACK_PT_LEN :: nat where "HEARTBEAT_ACK_PT_LEN = 8 + 8"
definition AEAD_TAG_LEN :: nat where "AEAD_TAG_LEN = 16"
definition MAX_CONTROL_PLAINTEXT_LEN :: nat where "MAX_CONTROL_PLAINTEXT_LEN = 17 * 1024"
definition MAX_PACKET_LEN :: nat where
  "MAX_PACKET_LEN = PREAMBLE_LEN + COUNTER_LEN + MAX_CONTROL_PLAINTEXT_LEN + AEAD_TAG_LEN"

lemmas wire_len_defs [codec_simps] =
  PREAMBLE_LEN_def COUNTER_LEN_def HEARTBEAT_PT_LEN_def HEARTBEAT_ACK_PT_LEN_def
  AEAD_TAG_LEN_def MAX_CONTROL_PLAINTEXT_LEN_def MAX_PACKET_LEN_def

datatype session_id = SessionId u8 u8 u8 u8

primrec sid_bytes :: "session_id \<Rightarrow> bytes" where
  "sid_bytes (SessionId a b c d) = [a, b, c, d]"

datatype packet_type =
    Handshake1 | Handshake2 | Heartbeat | HeartbeatAck | Rekey | Control | ControlAck

primrec tag_of :: "packet_type \<Rightarrow> u8" where
  "tag_of Handshake1 = 0x01"
| "tag_of Handshake2 = 0x02"
| "tag_of Heartbeat = 0x03"
| "tag_of HeartbeatAck = 0x04"
| "tag_of Rekey = 0x05"
| "tag_of Control = 0x06"
| "tag_of ControlAck = 0x07"

definition from_tag :: "u8 \<Rightarrow> error + packet_type" where
  "from_tag tag =
     (if tag = 0x01 then Inr Handshake1
      else if tag = 0x02 then Inr Handshake2
      else if tag = 0x03 then Inr Heartbeat
      else if tag = 0x04 then Inr HeartbeatAck
      else if tag = 0x05 then Inr Rekey
      else if tag = 0x06 then Inr Control
      else if tag = 0x07 then Inr ControlAck
      else Inl (UnknownPacketType tag))"

primrec has_counter :: "packet_type \<Rightarrow> bool" where
  "has_counter Handshake1 = False"
| "has_counter Handshake2 = False"
| "has_counter Heartbeat = True"
| "has_counter HeartbeatAck = True"
| "has_counter Rekey = True"
| "has_counter Control = True"
| "has_counter ControlAck = True"

lemma from_tag_iff [simp]: "from_tag t = Inr pt \<longleftrightarrow> t = tag_of pt"
  by (cases pt) (auto simp: from_tag_def)

lemma from_tag_tag_of [simp]: "from_tag (tag_of pt) = Inr pt"
  by simp

lemma tag_of_inject [simp]: "tag_of a = tag_of b \<longleftrightarrow> a = b"
  by (cases a; cases b) simp_all

interpretation tag: canonical_codec tag_of from_tag "\<lambda>_. True"
  by unfold_locales auto

section \<open>Packets\<close>

record packet_view =
  view_type :: packet_type
  view_session_id :: session_id
  view_counter :: "u64 option"
  view_body :: bytes

definition parse :: "bytes \<Rightarrow> error + packet_view" where
  "parse buf =
     (if length buf < PREAMBLE_LEN then Inl (MalformedPacket ''packet shorter than preamble'')
      else rbind (from_tag (buf ! 0)) (\<lambda>packet_type.
        let sid = SessionId (buf ! 1) (buf ! 2) (buf ! 3) (buf ! 4) in
        if has_counter packet_type then
          if length buf < PREAMBLE_LEN + COUNTER_LEN
          then Inl (MalformedPacket ''packet shorter than preamble + counter'')
          else
            let counter = of_be (take COUNTER_LEN (drop PREAMBLE_LEN buf)) in
            Inr \<lparr>view_type = packet_type, view_session_id = sid, view_counter = Some counter,
                 view_body = drop (PREAMBLE_LEN + COUNTER_LEN) buf\<rparr>
        else
          Inr \<lparr>view_type = packet_type, view_session_id = sid, view_counter = None,
               view_body = drop PREAMBLE_LEN buf\<rparr>))"

definition write_preamble :: "bytes \<Rightarrow> packet_type \<Rightarrow> session_id \<Rightarrow> bytes" where
  "write_preamble out pt sid = (out @ [tag_of pt]) @ sid_bytes sid"

definition write_counter :: "bytes \<Rightarrow> u64 \<Rightarrow> bytes" where
  "write_counter out counter = out @ be_bytes 8 counter"

lemmas write_defs [codec_simps] = write_preamble_def write_counter_def

text \<open>
  The packet a view stands for, written the way the senders assemble it: preamble, then
  the counter where there is one, then the body. A view is well formed when it has a
  counter exactly for the packet types that carry one.
\<close>

definition packet_bytes :: "packet_view \<Rightarrow> bytes" where
  "packet_bytes v =
     (let out = write_preamble [] (view_type v) (view_session_id v);
          out = (case view_counter v of None \<Rightarrow> out | Some c \<Rightarrow> write_counter out c)
      in out @ view_body v)"

definition view_wf :: "packet_view \<Rightarrow> bool" where
  "view_wf v \<longleftrightarrow> (has_counter (view_type v) \<longleftrightarrow> view_counter v \<noteq> None)"

lemma list_split5:
  assumes "5 \<le> length b"
  shows "b = [b ! 0, b ! 1, b ! 2, b ! 3, b ! 4] @ drop 5 b"
proof -
  have "take 5 b = [b ! 0, b ! 1, b ! 2, b ! 3, b ! 4]"
    using assms by (intro nth_equalityI) (auto simp: less_Suc_eq numeral_eq_Suc nth_Cons')
  then show ?thesis using append_take_drop_id [of 5 b] by simp
qed

lemma parse_packet_bytes:
  assumes "view_wf v"
  shows "parse (packet_bytes v) = Inr v"
proof (cases "view_counter v")
  case None
  with assms show ?thesis
    by (cases v; cases "view_session_id v")
       (simp add: parse_def packet_bytes_def view_wf_def codec_simps)
next
  case (Some c)
  with assms show ?thesis
    by (cases v; cases "view_session_id v")
       (simp add: parse_def packet_bytes_def view_wf_def codec_simps)
qed

lemma packet_bytes_parse:
  assumes "parse b = Inr v"
  shows "view_wf v \<and> packet_bytes v = b"
proof -
  let ?sid = "SessionId (b ! 1) (b ! 2) (b ! 3) (b ! 4)"
  from assms have len: "5 \<le> length b" and tag: "b ! 0 = tag_of (view_type v)"
    and sid: "view_session_id v = ?sid"
    by (auto simp: parse_def wire_len_defs Let_def split: if_splits)
  have pre: "b = write_preamble [] (view_type v) (view_session_id v) @ drop 5 b"
    using list_split5 [OF len] by (simp add: write_preamble_def sid tag)
  show ?thesis
  proof (cases "has_counter (view_type v)")
    case True
    with assms have len13: "13 \<le> length b"
      and ctr: "view_counter v = Some (of_be (take 8 (drop 5 b)))"
      and body: "view_body v = drop 13 b"
      by (auto simp: parse_def wire_len_defs Let_def split: if_splits)
    have "drop 5 b = take 8 (drop 5 b) @ drop 13 b"
      using append_take_drop_id [of 8 "drop 5 b"] by simp
    with pre len13 ctr body True show ?thesis
      by (simp add: packet_bytes_def view_wf_def write_counter_def)
  next
    case False
    with assms have "view_counter v = None" and "view_body v = drop 5 b"
      by (auto simp: parse_def wire_len_defs Let_def split: if_splits)
    with pre False show ?thesis
      by (simp add: packet_bytes_def view_wf_def)
  qed
qed

interpretation packet: canonical_codec packet_bytes parse view_wf
  by unfold_locales (rule parse_packet_bytes, assumption, rule packet_bytes_parse)

section \<open>Heartbeat payloads\<close>

definition encode_heartbeat_plaintext :: "u64 \<Rightarrow> u8 \<Rightarrow> bytes" where
  "encode_heartbeat_plaintext timestamp_ms flags = be_bytes 8 timestamp_ms @ [flags]"

definition decode_heartbeat_plaintext :: "bytes \<Rightarrow> error + (u64 \<times> u8)" where
  "decode_heartbeat_plaintext buf =
     (if length buf \<noteq> HEARTBEAT_PT_LEN
      then Inl (MalformedPacket ''heartbeat plaintext wrong length'')
      else Inr (of_be (take 8 buf), buf ! 8))"

definition encode_heartbeat_ack_plaintext :: "u64 \<Rightarrow> u64 \<Rightarrow> bytes" where
  "encode_heartbeat_ack_plaintext echoed_counter server_ts_ms =
     be_bytes 8 echoed_counter @ be_bytes 8 server_ts_ms"

definition decode_heartbeat_ack_plaintext :: "bytes \<Rightarrow> error + (u64 \<times> u64)" where
  "decode_heartbeat_ack_plaintext buf =
     (if length buf \<noteq> HEARTBEAT_ACK_PT_LEN
      then Inl (MalformedPacket ''heartbeat-ack plaintext wrong length'')
      else Inr (of_be (take 8 buf), of_be (drop 8 buf)))"

lemma take8_snoc: "length (b :: 'a list) = 9 \<Longrightarrow> take 8 b @ [b ! 8] = b"
  using id_take_nth_drop [of 8 b] by simp

interpretation heartbeat_pt: canonical_codec
  "\<lambda>(ts, flags). encode_heartbeat_plaintext ts flags" decode_heartbeat_plaintext "\<lambda>_. True"
  by unfold_locales
     (auto simp: encode_heartbeat_plaintext_def decode_heartbeat_plaintext_def nth_append
       take8_snoc wire_len_defs split: if_splits)

interpretation heartbeat_ack_pt: canonical_codec
  "\<lambda>(ec, ts). encode_heartbeat_ack_plaintext ec ts" decode_heartbeat_ack_plaintext "\<lambda>_. True"
  by unfold_locales
     (auto simp: encode_heartbeat_ack_plaintext_def decode_heartbeat_ack_plaintext_def
       wire_len_defs split: if_splits)

section \<open>Properties\<close>

text \<open>
  C34: the packet parser accepts exactly the packets the writers can produce, and reads each
  back as written: a byte string parses to a view iff the view is well formed (a counter
  exactly on post-handshake types) and the bytes are its preamble, counter and body. The
  post-handshake types include \<open>Control\<close> and \<open>ControlAck\<close>, which the comment on the counter field
  leaves out.
\<close>

theorem parse_exact: "parse b = Inr v \<longleftrightarrow> view_wf v \<and> b = packet_bytes v"
  by (rule packet.dec_iff)

text \<open>
  the heartbeat and heartbeat-ack payloads decode to exactly the pairs they encode; any
  other byte string is refused.
\<close>

theorem heartbeat_payloads_exact:
  "(decode_heartbeat_plaintext b = Inr (ts, flags) \<longleftrightarrow>
      b = encode_heartbeat_plaintext ts flags) \<and>
   (decode_heartbeat_ack_plaintext a = Inr (ec, sts) \<longleftrightarrow>
      a = encode_heartbeat_ack_plaintext ec sts)"
  using heartbeat_pt.dec_iff [of b "(ts, flags)"] heartbeat_ack_pt.dec_iff [of a "(ec, sts)"]
  by simp_all

end
