(* ===== verification/Ordered_Map.thy ===== *)
theory Ordered_Map
  imports Prelude "HOL-Library.Multiset"
begin

text \<open>
  \<open>BTreeMap\<close> of Rust's standard library: an association list sorted strictly by key, so
  iteration order is key order. The interface (locale \<open>ordered_map\<close>) states the laws the
  components rely on; the list implementation interprets it. \<open>BTreeSet\<close> is a map to unit.
\<close>

type_synonym ('k, 'v) btree = "('k \<times> 'v) list"

definition bt_empty :: "('k, 'v) btree" where
  "bt_empty = []"

definition bt_wf :: "('k::linorder, 'v) btree \<Rightarrow> bool" where
  "bt_wf m \<longleftrightarrow> sorted_wrt (<) (map fst m)"

definition bt_get :: "('k, 'v) btree \<Rightarrow> 'k \<Rightarrow> 'v option" where
  "bt_get m k = map_of m k"

fun bt_insert :: "'k::linorder \<Rightarrow> 'v \<Rightarrow> ('k, 'v) btree \<Rightarrow> ('k, 'v) btree" where
  "bt_insert k v [] = [(k, v)]"
| "bt_insert k v ((k', v') # m) =
     (if k < k' then (k, v) # (k', v') # m
      else if k = k' then (k, v) # m
      else (k', v') # bt_insert k v m)"

definition bt_remove :: "'k \<Rightarrow> ('k, 'v) btree \<Rightarrow> ('k, 'v) btree" where
  "bt_remove k m = filter (\<lambda>(k', _). k' \<noteq> k) m"

definition bt_keys :: "('k, 'v) btree \<Rightarrow> 'k list" where
  "bt_keys m = map fst m"

definition bt_values :: "('k, 'v) btree \<Rightarrow> 'v list" where
  "bt_values m = map snd m"

text \<open>The interface: a finite map whose keys are enumerated in ascending order.\<close>

locale ordered_map =
  fixes empty :: "'m" and get :: "'m \<Rightarrow> 'k::linorder \<Rightarrow> 'v option"
    and ins :: "'k \<Rightarrow> 'v \<Rightarrow> 'm \<Rightarrow> 'm" and rem :: "'k \<Rightarrow> 'm \<Rightarrow> 'm"
    and keys :: "'m \<Rightarrow> 'k list" and wf :: "'m \<Rightarrow> bool"
  assumes wf_empty: "wf empty" and get_empty: "get empty k = None"
    and wf_ins: "wf m \<Longrightarrow> wf (ins k v m)"
    and wf_rem: "wf m \<Longrightarrow> wf (rem k m)"
    and get_ins: "wf m \<Longrightarrow> get (ins k v m) = (get m)(k \<mapsto> v)"
    and get_rem: "get (rem k m) = (get m)(k := None)"
    and keys_dom: "set (keys m) = dom (get m)"
    and keys_sorted: "wf m \<Longrightarrow> sorted_wrt (<) (keys m)"
begin

lemma get_ins_same: "wf m \<Longrightarrow> get (ins k v m) k = Some v"
  by (simp add: get_ins)

lemma finite_dom: "finite (dom (get m))"
  using keys_dom [of m] finite_set [of "keys m"] by simp

lemma keys_ins: "wf m \<Longrightarrow> set (keys (ins k v m)) = insert k (set (keys m))"
  by (simp add: keys_dom get_ins)

lemma keys_rem: "set (keys (rem k m)) = set (keys m) - {k}"
  by (simp add: keys_dom get_rem)

lemma keys_determined:
  assumes "wf m" and "wf n" and "dom (get m) = dom (get n)"
  shows "keys m = keys n"
proof -
  have "sorted (keys m) \<and> distinct (keys m)" "sorted (keys n) \<and> distinct (keys n)"
    using keys_sorted [OF assms(1)] keys_sorted [OF assms(2)] by (simp_all add: strict_sorted_iff)
  moreover have "set (keys m) = set (keys n)" using assms(3) by (simp add: keys_dom)
  ultimately show ?thesis by (simp add: sorted_distinct_set_unique)
qed

end

lemma bt_wf_Nil [simp]: "bt_wf []"
  by (simp add: bt_wf_def)

lemma bt_wf_Cons [simp]: "bt_wf ((k, v) # m) \<longleftrightarrow> (\<forall>k'\<in>fst ` set m. k < k') \<and> bt_wf m"
  by (simp add: bt_wf_def)

lemma fst_set_bt_insert [simp]: "fst ` set (bt_insert k v m) = insert k (fst ` set m)"
  by (induction k v m rule: bt_insert.induct) (simp_all add: insert_commute)

lemma bt_wf_insert [simp]: "bt_wf m \<Longrightarrow> bt_wf (bt_insert k v m)"
proof (induction k v m rule: bt_insert.induct)
  case (1 k v)
  show ?case by simp
next
  case (2 k v k' v' m)
  then show ?case by (cases k k' rule: linorder_cases) (auto intro: less_trans)
qed

lemma bt_wf_filter [simp]: "bt_wf m \<Longrightarrow> bt_wf (filter P m)"
  by (simp add: bt_wf_def) (metis sorted_wrt_filter sorted_wrt_map)

lemma bt_wf_remove [simp]: "bt_wf m \<Longrightarrow> bt_wf (bt_remove k m)"
  by (simp add: bt_remove_def)

lemma bt_wf_distinct: "bt_wf m \<Longrightarrow> distinct (map fst m)"
  unfolding bt_wf_def by (simp add: strict_sorted_iff)

lemma bt_get_simps [simp]:
  "bt_get [] k = None"
  "bt_get ((k', v) # m) k = (if k' = k then Some v else bt_get m k)"
  by (simp_all add: bt_get_def)

lemma bt_get_map_of: "bt_get m = map_of m"
  by (rule ext) (simp add: bt_get_def)

lemma bt_get_insert [simp]: "bt_wf m \<Longrightarrow> bt_get (bt_insert k v m) = (bt_get m)(k \<mapsto> v)"
proof (induction m)
  case Nil
  show ?case by (rule ext) simp
next
  case (Cons a m)
  then show ?case by (cases a) (rule ext, auto)
qed

lemma bt_get_remove [simp]: "bt_get (bt_remove k m) = (bt_get m)(k := None)"
  by (rule ext, induction m) (auto simp: bt_remove_def)

lemma bt_get_in_set: "bt_wf m \<Longrightarrow> bt_get m k = Some v \<longleftrightarrow> (k, v) \<in> set m"
  by (simp add: bt_get_def bt_wf_distinct)

lemma bt_get_None: "bt_get m k = None \<longleftrightarrow> k \<notin> fst ` set m"
  by (simp add: bt_get_def map_of_eq_None_iff)

interpretation bt: ordered_map bt_empty bt_get bt_insert bt_remove bt_keys bt_wf
proof unfold_locales
  show "set (bt_keys m) = dom (bt_get m)" for m :: "('a::linorder, 'b) btree"
    by (simp add: bt_keys_def bt_get_map_of dom_map_of_conv_image_fst)
qed (simp_all add: bt_empty_def bt_keys_def, simp add: bt_wf_def)

lemma set_bt_insert_fresh: "k \<notin> fst ` set m \<Longrightarrow> set (bt_insert k v m) = insert (k, v) (set m)"
  by (induction k v m rule: bt_insert.induct) (simp_all add: insert_commute)

lemma set_bt_remove: "set (bt_remove k m) = {(k', v). (k', v) \<in> set m \<and> k' \<noteq> k}"
  by (auto simp: bt_remove_def)

lemma bt_remove_absent [simp]: "k \<notin> fst ` set m \<Longrightarrow> bt_remove k m = m"
  unfolding bt_remove_def by (rule filter_True) force

lemma mset_bt_insert_fresh: "k \<notin> fst ` set m \<Longrightarrow> mset (bt_insert k v m) = add_mset (k, v) (mset m)"
  by (induction k v m rule: bt_insert.induct) (simp_all add: add_mset_commute)

lemma mset_bt_remove:
  assumes "bt_wf m" and "bt_get m k = Some v"
  shows "mset m = add_mset (k, v) (mset (bt_remove k m))"
  using assms
proof (induction m)
  case Nil
  then show ?case by simp
next
  case (Cons p m)
  obtain k' v' where p: "p = (k', v')" by (cases p)
  show ?case
  proof (cases "k' = k")
    case True
    with Cons.prems p have "k \<notin> fst ` set m" by auto
    then have "bt_remove k m = m" by (rule bt_remove_absent)
    with Cons.prems p True show ?thesis by (simp add: bt_remove_def)
  next
    case False
    with Cons p have "mset m = add_mset (k, v) (mset (bt_remove k m))" by simp
    with p False show ?thesis by (simp add: bt_remove_def)
  qed
qed

lemma mset_concat_map: "mset (concat (map f xs)) = (\<Sum>x\<in>#mset xs. mset (f x))"
  by (induction xs) simp_all

lemma mset_concat_split:
  "mset (concat (map f xs)) =
     mset (concat (map f (filter (\<lambda>x. \<not> P x) xs))) + mset (concat (map f (filter P xs)))"
  by (induction xs) simp_all

end
