(* ===== verification/Rules.thy ===== *)
theory Rules
  imports Wire Net Ordered_Map
begin

text \<open>
  Rule configuration (crate \<open>ratatoskr\<close>, directory \<open>rule/\<close>): the data of \<open>[[rule]]\<close> and
  \<open>[[route]]\<close> tables, their validation, the \<open>host:port\<close> targets of terminal rules, rule sets
  with their cross-file uniqueness checks, and the name-keyed diff used on reload.

  Durations are nanoseconds. The \<open>url\<close> crate is a parameter: the record \<open>url_lib\<close> holds the
  accessors the sources call on a parsed URL.
\<close>

section \<open>Data (\<open>types.rs\<close>, \<open>http_route.rs\<close>, \<open>rule_def.rs\<close>, \<open>target.rs\<close>)\<close>

datatype protocol = Tcp | Udp | Https

primrec protocol_as_str :: "protocol \<Rightarrow> string" where
  "protocol_as_str Tcp = ''tcp''"
| "protocol_as_str Udp = ''udp''"
| "protocol_as_str Https = ''https''"

datatype proxy_proto = V1 | V2

record hsts_config =
  max_age :: u32
  include_subdomains :: bool
  preload :: bool

definition DEFAULT_HSTS_MAX_AGE :: u32 where "DEFAULT_HSTS_MAX_AGE = 31536000"

definition hsts_default :: hsts_config where
  "hsts_default = \<lparr>max_age = DEFAULT_HSTS_MAX_AGE, include_subdomains = False, preload = False\<rparr>"

record 'u url_lib =
  url_scheme :: "'u \<Rightarrow> string"
  url_host_str :: "'u \<Rightarrow> string option"
  url_port_or_known_default :: "'u \<Rightarrow> u16 option"

record 'u http_route =
  hostname :: string
  route_target :: 'u
  hsts :: "hsts_config option"
  headers :: "(string, string) btree"

record rule =
  rule_name :: string
  listen :: socket_addr
  protocol :: protocol
  target_port :: "u16 option"
  target :: "string option"
  idle_timeout :: "nat option"
  proxy_protocol :: "proxy_proto option"

definition DEFAULT_UDP_IDLE_TIMEOUT :: nat where "DEFAULT_UDP_IDLE_TIMEOUT = 60 * 1000000000"

datatype target = Static socket_addr | Dns string u16

section \<open>Validation helpers (\<open>validate.rs\<close>)\<close>

definition ldh_label :: "string \<Rightarrow> bool" where
  "ldh_label label =
     (if label = [] \<or> 63 < length label then False
      else if \<not> ascii_alnum (label ! 0) \<or> \<not> ascii_alnum (label ! (length label - 1)) then False
      else list_all (\<lambda>b. ascii_alnum b \<or> b = CHR ''-'') label)"

definition strip_suffix_dot :: "string \<Rightarrow> string" where
  "strip_suffix_dot s = (if s \<noteq> [] \<and> last s = CHR ''.'' then butlast s else s)"

definition is_valid_dns_hostname :: "string \<Rightarrow> bool" where
  "is_valid_dns_hostname s0 =
     (let s = strip_suffix_dot s0 in
      if s = [] \<or> 253 < length s then False else list_all ldh_label (split_on (CHR ''.'') s))"

definition RESERVED_HEADERS :: "string list" where
  "RESERVED_HEADERS =
     [''connection'', ''keep-alive'', ''proxy-authenticate'', ''proxy-authorization'', ''te'',
      ''trailer'', ''transfer-encoding'', ''upgrade'',
      ''strict-transport-security'', ''alt-svc'',
      ''x-forwarded-for'', ''x-forwarded-proto'', ''x-forwarded-protocol'', ''x-forwarded-host'',
      ''x-forwarded-port'', ''x-real-ip'', ''forwarded'']"

definition reserved_static_header :: "string \<Rightarrow> bool" where
  "reserved_static_header name =
     (let lower = to_ascii_lowercase name in list_ex (\<lambda>r. r = lower) RESERVED_HEADERS)"

definition is_token_byte :: "char \<Rightarrow> bool" where
  "is_token_byte b \<longleftrightarrow> b \<in> set ''!#$%&*+-.^_`|~'' \<or> of_char b = (39 :: nat) \<or> ascii_alnum b"

definition is_field_value_byte :: "char \<Rightarrow> bool" where
  "is_field_value_byte b \<longleftrightarrow>
     of_char b = (9 :: nat) \<or> (0x20 \<le> (of_char b :: nat) \<and> (of_char b :: nat) \<le> 0x7E)"

definition validate_static_header :: "string \<Rightarrow> string \<Rightarrow> string \<Rightarrow> string \<Rightarrow> error + unit" where
  "validate_static_header rname host name value =
     (if name = [] then
        Inl (InvalidRule (Fmt ''rule {:?}: route {:?}: static response header name is empty'' [rname, host]))
      else if \<not> list_all is_token_byte name then
        Inl (InvalidRule (Fmt ''rule {:?}: route {:?}: static response header name {:?} contains characters not allowed in an HTTP field name'' [rname, host, name]))
      else if reserved_static_header name then
        Inl (InvalidRule (Fmt ''rule {:?}: route {:?}: static response header {:?} is reserved'' [rname, host, name]))
      else if \<not> list_all is_field_value_byte value then
        Inl (InvalidRule (Fmt ''rule {:?}: route {:?}: static response header {:?} has an invalid value (must be visible ASCII, no CR / LF)'' [rname, host, name]))
      else Inr ())"

definition validate_http_route :: "'u url_lib \<Rightarrow> string \<Rightarrow> 'u http_route \<Rightarrow> error + unit" where
  "validate_http_route U rname route =
     (if hostname route = [] then
        Inl (InvalidRule (Fmt ''rule {:?}: route hostname is empty'' [rname]))
      else if \<not> is_valid_dns_hostname (hostname route) then
        Inl (InvalidRule (Fmt ''rule {:?}: route hostname {:?} is not a valid DNS name'' [rname, hostname route]))
      else if url_scheme U (route_target route) \<noteq> ''http'' then
        Inl (InvalidRule (Fmt ''rule {:?}: route {:?}: target URL scheme must be 'http' (got {:?})''
               [rname, hostname route, url_scheme U (route_target route)]))
      else if url_host_str U (route_target route) = None then
        Inl (InvalidRule (Fmt ''rule {:?}: route {:?}: target URL is missing a host'' [rname, hostname route]))
      else if url_port_or_known_default U (route_target route) = None then
        Inl (InvalidRule (Fmt ''rule {:?}: route {:?}: target URL has no port and no known default for its scheme'' [rname, hostname route]))
      else
        try_each (\<lambda>(name, value). validate_static_header rname (hostname route) name value)
          (headers route))"

section \<open>Targets (\<open>target.rs\<close>)\<close>

definition target_parse :: "string \<Rightarrow> message + target" where
  "target_parse s =
     (case parse_socket_addr s of
        Some addr \<Rightarrow>
          if sa_port addr = 0 then Inl (Fmt ''target {s:?}: port must be non-zero'' [s])
          else Inr (Static addr)
      | None \<Rightarrow>
          rbind (ok_or (Fmt ''target {s:?}: expected host:port'' [s]) (rsplit_once (CHR '':'') s))
            (\<lambda>(host, port_str).
          if host = [] then Inl (Fmt ''target {s:?}: empty host'' [s])
          else
            rbind (ok_or (Fmt ''target {s:?}: port {port_str:?} is not a u16'' [s, port_str])
                     (parse_u16 port_str)) (\<lambda>port.
            if port = 0 then Inl (Fmt ''target {s:?}: port must be non-zero'' [s])
            else if \<not> is_valid_dns_hostname host then
              Inl (Fmt ''target {s:?}: host {host:?} is not a valid IP literal or DNS name'' [s, host])
            else Inr (Dns host port))))"

primrec target_get_port :: "target \<Rightarrow> u16" where
  "target_get_port (Static addr) = sa_port addr"
| "target_get_port (Dns host port) = port"

primrec show_target :: "target \<Rightarrow> string" where
  "show_target (Static addr) = show_socket_addr addr"
| "show_target (Dns host port) = host @ '':'' @ show_nat (unat port)"

section \<open>Rules (\<open>rule_def.rs\<close>)\<close>

definition validate_l4 :: "rule \<Rightarrow> error + unit" where
  "validate_l4 r =
     rbind (case (target_port r, Rules.rule.target r) of
              (Some _, Some _) \<Rightarrow>
                Inl (InvalidRule (Fmt ''rule {:?}: set exactly one of target_port (relay) or target (terminal); not both'' [rule_name r]))
            | (None, None) \<Rightarrow>
                Inl (InvalidRule (Fmt ''rule {:?}: must set exactly one of target_port (relay) or target (terminal)'' [rule_name r]))
            | (Some p, None) \<Rightarrow>
                if p = 0 then Inl (InvalidRule (Fmt ''rule {:?}: target_port must be non-zero'' [rule_name r]))
                else Inr ()
            | (None, Some s) \<Rightarrow>
                rbind (map_err (\<lambda>detail. case detail of Fmt t args \<Rightarrow>
                         InvalidRule (Fmt (''rule {:?}: '' @ t) (rule_name r # args))) (target_parse s))
                  (\<lambda>_. Inr ()))
       (\<lambda>_.
     if Rules.rule.target r \<noteq> None \<and> proxy_protocol r \<noteq> None then
       Inl (InvalidRule (Fmt ''rule {:?}: proxy_protocol is invalid on terminal rules'' [rule_name r]))
     else case protocol r of
       Tcp \<Rightarrow>
         if idle_timeout r \<noteq> None
         then Inl (InvalidRule (Fmt ''rule {:?}: idle_timeout is only valid for udp rules'' [rule_name r]))
         else Inr ()
     | Udp \<Rightarrow>
         if proxy_protocol r = Some V1
         then Inl (InvalidRule (Fmt ''rule {:?}: proxy_protocol = v1 is invalid on udp rules'' [rule_name r]))
         else Inr ()
     | Https \<Rightarrow> Inr ())"

definition rule_validate :: "rule \<Rightarrow> error + unit" where
  "rule_validate r =
     (if rule_name r = [] then Inl (InvalidRule (Fmt ''rule name is empty'' []))
      else if list_ex (\<lambda>c. is_whitespace c \<or> is_control c) (utf8_chars (rule_name r)) then
        Inl (InvalidRule (Fmt ''rule name {:?} contains whitespace or control characters'' [rule_name r]))
      else if sa_port (listen r) = 0 then
        Inl (InvalidRule (Fmt ''rule {:?}: listen port must be non-zero'' [rule_name r]))
      else case protocol r of
        Tcp \<Rightarrow> validate_l4 r
      | Udp \<Rightarrow> validate_l4 r
      | Https \<Rightarrow>
          Inl (InvalidRule (Fmt ''rule {:?}: protocol = https is not valid on `[[rule]]`'' [rule_name r])))"

definition resolved_idle_timeout :: "rule \<Rightarrow> nat" where
  "resolved_idle_timeout r = (case idle_timeout r of None \<Rightarrow> DEFAULT_UDP_IDLE_TIMEOUT | Some d \<Rightarrow> d)"

definition with_bind_override :: "ip_addr option \<Rightarrow> rule \<Rightarrow> rule" where
  "with_bind_override bind_ip r =
     (case bind_ip of
        None \<Rightarrow> r
      | Some ip \<Rightarrow>
          let cur_ip = sa_ip (listen r);
              is_wildcard = is_unspecified cur_ip;
              same_family = (is_v4 cur_ip = is_v4 ip)
          in if \<not> is_wildcard \<or> \<not> same_family then r
             else r\<lparr>listen := sa_new ip (sa_port (listen r))\<rparr>)"

section \<open>Rule files and rule sets (\<open>file.rs\<close>, \<open>set.rs\<close>)\<close>

record 'u rule_file =
  file_rule :: "rule list"
  file_route :: "'u http_route list"

record 'u rule_set =
  rules :: "rule list"
  routes :: "'u http_route list"

definition validate_each :: "'u url_lib \<Rightarrow> 'u rule_file \<Rightarrow> error + unit" where
  "validate_each U f =
     rbind (try_each rule_validate (file_rule f)) (\<lambda>_.
     try_each (validate_http_route U ''<route>'') (file_route f))"

text \<open>The three duplicate checks, each a loop over the list with the set or map seen so far.\<close>

fun check_names :: "string set \<Rightarrow> rule list \<Rightarrow> error + unit" where
  "check_names seen [] = Inr ()"
| "check_names seen (r # rs) =
     (if rule_name r \<in> seen
      then Inl (InvalidRule (Fmt ''duplicate rule name {:?} across rule files'' [rule_name r]))
      else check_names (insert (rule_name r) seen) rs)"

definition listen_clash :: "rule \<Rightarrow> (string \<times> protocol) list \<Rightarrow> error + unit" where
  "listen_clash r existing =
     try_each (\<lambda>(other_name, other_proto).
       if protocol r = other_proto
       then Inl (InvalidRule (Fmt ''duplicate listen address {} for protocol {} (rules {:?} and {:?})''
              [show_socket_addr (listen r), protocol_as_str (protocol r), rule_name r, other_name]))
       else Inr ()) existing"

fun check_listens :: "(socket_addr \<rightharpoonup> (string \<times> protocol) list) \<Rightarrow> rule list \<Rightarrow> error + unit" where
  "check_listens listens [] = Inr ()"
| "check_listens listens (r # rs) =
     rbind (case listens (listen r) of
              None \<Rightarrow> Inr ()
            | Some existing \<Rightarrow> listen_clash r existing) (\<lambda>_.
     let existing = (case listens (listen r) of None \<Rightarrow> [] | Some e \<Rightarrow> e) in
     check_listens (listens(listen r \<mapsto> existing @ [(rule_name r, protocol r)])) rs)"

fun check_hosts :: "string set \<Rightarrow> 'u http_route list \<Rightarrow> error + unit" where
  "check_hosts seen [] = Inr ()"
| "check_hosts seen (r # rs) =
     (let lc = to_ascii_lowercase (hostname r) in
      if lc \<in> seen
      then Inl (InvalidRule (Fmt ''duplicate HTTPS route hostname {:?} across rule files'' [hostname r]))
      else check_hosts (insert lc seen) rs)"

definition from_parts_unchecked_individuals ::
  "rule list \<Rightarrow> 'u http_route list \<Rightarrow> error + 'u rule_set" where
  "from_parts_unchecked_individuals rs rts =
     rbind (check_names {} rs) (\<lambda>_.
     rbind (check_listens Map.empty rs) (\<lambda>_.
     rbind (check_hosts {} rts) (\<lambda>_. Inr \<lparr>rules = rs, routes = rts\<rparr>)))"

fun collect_files ::
  "'u url_lib \<Rightarrow> 'u rule_file list \<Rightarrow> rule list \<Rightarrow> 'u http_route list \<Rightarrow> error + (rule list \<times> 'u http_route list)" where
  "collect_files U [] rs rts = Inr (rs, rts)"
| "collect_files U (f # fs) rs rts =
     rbind (validate_each U f) (\<lambda>_. collect_files U fs (rs @ file_rule f) (rts @ file_route f))"

definition from_files :: "'u url_lib \<Rightarrow> 'u rule_file list \<Rightarrow> error + 'u rule_set" where
  "from_files U fs =
     rbind (collect_files U fs [] []) (\<lambda>(rs, rts). from_parts_unchecked_individuals rs rts)"

definition from_rules :: "rule list \<Rightarrow> error + 'u rule_set" where
  "from_rules rs = rbind (try_each rule_validate rs) (\<lambda>_. from_parts_unchecked_individuals rs [])"

definition from_parts :: "'u url_lib \<Rightarrow> rule list \<Rightarrow> 'u http_route list \<Rightarrow> error + 'u rule_set" where
  "from_parts U rs rts =
     rbind (try_each rule_validate rs) (\<lambda>_.
     rbind (try_each (validate_http_route U ''<route>'') rts) (\<lambda>_.
     from_parts_unchecked_individuals rs rts))"

definition find_rule :: "'u rule_set \<Rightarrow> string \<Rightarrow> rule option" where
  "find_rule s name = find (\<lambda>r. rule_name r = name) (rules s)"

record rule_diff =
  added :: "rule list"
  removed :: "rule list"
  changed :: "(rule \<times> rule) list"
  unchanged :: "string list"
  routes_changed :: bool

definition diff_default :: rule_diff where
  "diff_default = \<lparr>added = [], removed = [], changed = [], unchanged = [], routes_changed = False\<rparr>"

fun diff_loop :: "rule list \<Rightarrow> (string, rule) btree \<Rightarrow> rule_diff \<Rightarrow> (string, rule) btree \<times> rule_diff" where
  "diff_loop [] old_by_name d = (old_by_name, d)"
| "diff_loop (n # ns) old_by_name d =
     (let old_by_name' = bt_remove (rule_name n) old_by_name in
      case bt_get old_by_name (rule_name n) of
        Some old \<Rightarrow>
          if old = n then diff_loop ns old_by_name' (d\<lparr>unchanged := unchanged d @ [rule_name n]\<rparr>)
          else diff_loop ns old_by_name' (d\<lparr>changed := changed d @ [(old, n)]\<rparr>)
      | None \<Rightarrow> diff_loop ns old_by_name' (d\<lparr>added := added d @ [n]\<rparr>))"

text \<open>
  The hash map of \<open>diff\<close> is keyed by the name of its values, and its leftovers are sorted by
  name after an iteration in unspecified order; the ordered map gives the same result.
\<close>

definition by_name :: "rule list \<Rightarrow> (string, rule) btree" where
  "by_name rs = fold (\<lambda>r. bt_insert (rule_name r) r) rs bt_empty"

definition rule_set_diff :: "'u rule_set \<Rightarrow> 'u rule_set \<Rightarrow> rule_diff" where
  "rule_set_diff self new =
     (case diff_loop (rules new) (by_name (rules self)) diff_default of (old_by_name, d) \<Rightarrow>
        d\<lparr>removed := sort_key rule_name (removed d @ bt_values old_by_name),
          routes_changed := (routes self \<noteq> routes new)\<rparr>)"

definition as_initial_diff :: "'u rule_set \<Rightarrow> rule_diff" where
  "as_initial_diff s = diff_default\<lparr>added := rules s, routes_changed := (routes s \<noteq> [])\<rparr>"

definition is_noop :: "rule_diff \<Rightarrow> bool" where
  "is_noop d \<longleftrightarrow> added d = [] \<and> removed d = [] \<and> changed d = [] \<and> \<not> routes_changed d"

definition touched :: "rule_diff \<Rightarrow> nat" where
  "touched d = length (added d) + length (removed d) + length (changed d)"

section \<open>What validation accepts\<close>

text \<open>The configuration rules of the \<open>Rule\<close> type, stated field by field.\<close>

definition rule_ok :: "rule \<Rightarrow> bool" where
  "rule_ok r \<longleftrightarrow>
     rule_name r \<noteq> [] \<and> (\<forall>c\<in>set (utf8_chars (rule_name r)). \<not> is_whitespace c \<and> \<not> is_control c)
     \<and> sa_port (listen r) \<noteq> 0 \<and> protocol r \<noteq> Https
     \<and> (target_port r = None \<longleftrightarrow> Rules.rule.target r \<noteq> None) \<and> target_port r \<noteq> Some 0
     \<and> (\<forall>s. Rules.rule.target r = Some s \<longrightarrow> is_ok (target_parse s))
     \<and> (proxy_protocol r \<noteq> None \<longrightarrow> target_port r \<noteq> None)
     \<and> (proxy_protocol r = Some V1 \<longrightarrow> protocol r = Tcp)
     \<and> (idle_timeout r \<noteq> None \<longrightarrow> protocol r = Udp)"

lemma rule_validate_ok: "rule_validate r = Inr () \<longleftrightarrow> rule_ok r"
proof (cases "target_port r"; cases "Rules.rule.target r")
  fix p assume p: "target_port r = Some p" "Rules.rule.target r = None"
  then show ?thesis
    by (cases "protocol r")
       (auto simp: rule_validate_def validate_l4_def rule_ok_def list_ex_iff)
next
  fix s assume s: "target_port r = None" "Rules.rule.target r = Some s"
  then show ?thesis
    by (cases "protocol r"; cases "target_parse s")
       (auto simp: rule_validate_def validate_l4_def rule_ok_def list_ex_iff)
qed (cases "protocol r"; simp add: rule_validate_def validate_l4_def rule_ok_def)+

lemma check_names_ok:
  "check_names seen rs = Inr () \<longleftrightarrow> distinct (map rule_name rs) \<and> seen \<inter> rule_name ` set rs = {}"
  by (induction rs arbitrary: seen) auto

lemma listen_clash_ok: "listen_clash r es = Inr () \<longleftrightarrow> (\<forall>n. (n, protocol r) \<notin> set es)"
  by (auto simp: listen_clash_def split: if_splits)

definition claims :: "(socket_addr \<rightharpoonup> (string \<times> protocol) list) \<Rightarrow> (socket_addr \<times> protocol) set" where
  "claims m = {(a, p). \<exists>es n. m a = Some es \<and> (n, p) \<in> set es}"

lemma claims_upd:
  "claims (m(a \<mapsto> (case m a of None \<Rightarrow> [] | Some e \<Rightarrow> e) @ [(n, p)])) = insert (a, p) (claims m)"
  by (cases "m a") (fastforce simp: claims_def split: if_splits)+

lemma check_listens_ok:
  "check_listens m rs = Inr () \<longleftrightarrow>
     distinct (map (\<lambda>r. (listen r, protocol r)) rs)
     \<and> claims m \<inter> (\<lambda>r. (listen r, protocol r)) ` set rs = {}"
proof (induction rs arbitrary: m)
  case Nil
  show ?case by simp
next
  case (Cons r rs)
  let ?here = "(case m (listen r) of None \<Rightarrow> Inr () | Some e \<Rightarrow> listen_clash r e)"
  let ?m' = "m(listen r \<mapsto> (case m (listen r) of None \<Rightarrow> [] | Some e \<Rightarrow> e) @ [(rule_name r, protocol r)])"
  have "check_listens m (r # rs) = Inr () \<longleftrightarrow> ?here = Inr () \<and> check_listens ?m' rs = Inr ()"
    by (cases ?here) (simp_all add: Let_def)
  moreover have "?here = Inr () \<longleftrightarrow> (listen r, protocol r) \<notin> claims m"
    by (auto simp: claims_def listen_clash_ok split: option.split)
  moreover have "check_listens ?m' rs = Inr () \<longleftrightarrow> distinct (map (\<lambda>r. (listen r, protocol r)) rs)
      \<and> insert (listen r, protocol r) (claims m) \<inter> (\<lambda>r. (listen r, protocol r)) ` set rs = {}"
    by (simp only: Cons.IH claims_upd)
  ultimately show ?case by auto
qed

lemma check_hosts_ok:
  "check_hosts seen rs = Inr () \<longleftrightarrow>
     distinct (map (\<lambda>r. to_ascii_lowercase (hostname r)) rs)
     \<and> seen \<inter> (\<lambda>r. to_ascii_lowercase (hostname r)) ` set rs = {}"
  by (induction rs arbitrary: seen) (auto simp: Let_def)

definition unique_keys :: "rule list \<Rightarrow> 'u http_route list \<Rightarrow> bool" where
  "unique_keys rs rts \<longleftrightarrow> distinct (map rule_name rs)
     \<and> distinct (map (\<lambda>r. (listen r, protocol r)) rs)
     \<and> distinct (map (\<lambda>r. to_ascii_lowercase (hostname r)) rts)"

lemma from_parts_unchecked_ok:
  "from_parts_unchecked_individuals rs rts = Inr s \<longleftrightarrow>
     unique_keys rs rts \<and> s = \<lparr>rules = rs, routes = rts\<rparr>"
  by (auto simp: from_parts_unchecked_individuals_def check_names_ok check_listens_ok check_hosts_ok
      unique_keys_def claims_def)

lemma collect_files_ok:
  "collect_files U fs rs rts = Inr (rs', rts') \<longleftrightarrow>
     (\<forall>f\<in>set fs. validate_each U f = Inr ()) \<and> rs' = rs @ concat (map file_rule fs)
     \<and> rts' = rts @ concat (map file_route fs)"
  by (induction fs arbitrary: rs rts) auto

section \<open>The diff in closed form\<close>

lemma diff_loop_eq:
  assumes "distinct (map rule_name ns)"
  shows "diff_loop ns m d =
     (filter (\<lambda>(k, _). k \<notin> rule_name ` set ns) m,
      d\<lparr>added := added d @ filter (\<lambda>n. bt_get m (rule_name n) = None) ns,
        changed := changed d @ map (\<lambda>n. (the (bt_get m (rule_name n)), n))
          (filter (\<lambda>n. bt_get m (rule_name n) \<noteq> None \<and> bt_get m (rule_name n) \<noteq> Some n) ns),
        unchanged := unchanged d @ map rule_name (filter (\<lambda>n. bt_get m (rule_name n) = Some n) ns)\<rparr>)"
  using assms
proof (induction ns arbitrary: m d)
  case Nil
  show ?case by (simp add: filter_True)
next
  case (Cons n ns)
  let ?m = "bt_remove (rule_name n) m"
  have get: "bt_get ?m (rule_name x) = bt_get m (rule_name x)" if "x \<in> set ns" for x
    using Cons.prems that by (auto intro: rev_image_eqI)
  have rest: "filter (\<lambda>(k, _). k \<notin> rule_name ` set ns) ?m = filter (\<lambda>(k, _). k \<notin> rule_name ` set (n # ns)) m"
    by (simp add: bt_remove_def case_prod_unfold)
  have flt: "filter (\<lambda>x. P (bt_get ?m (rule_name x)) x) ns = filter (\<lambda>x. P (bt_get m (rule_name x)) x) ns" for P
    using get by (intro filter_cong) auto
  have mp: "map (\<lambda>x. (the (bt_get ?m (rule_name x)), x)) (filter Q ns)
      = map (\<lambda>x. (the (bt_get m (rule_name x)), x)) (filter Q ns)" for Q
    using get by (intro map_cong) auto
  note IH = Cons.IH [of ?m, unfolded rest mp
      flt [of "\<lambda>o' x. o' = None"] flt [of "\<lambda>o' x. o' = Some x"] flt [of "\<lambda>o' x. o' \<noteq> None \<and> o' \<noteq> Some x"]]
  show ?case
    using Cons.prems by (cases "bt_get m (rule_name n)") (simp_all add: IH Let_def)
qed

lemma by_name_props:
  assumes "distinct (map rule_name rs)"
  shows "bt_wf (by_name rs) \<and> mset (by_name rs) = mset (map (\<lambda>r. (rule_name r, r)) rs)"
proof -
  have "bt_wf (fold (\<lambda>r. bt_insert (rule_name r) r) rs m) \<and>
      mset (fold (\<lambda>r. bt_insert (rule_name r) r) rs m) = mset m + mset (map (\<lambda>r. (rule_name r, r)) rs)"
    if "bt_wf m" "distinct (map rule_name rs)" "rule_name ` set rs \<inter> fst ` set m = {}" for m
    using that
  proof (induction rs arbitrary: m)
    case Nil
    then show ?case by simp
  next
    case (Cons r rs)
    from Cons.prems have "rule_name r \<notin> fst ` set m" by auto
    moreover from this have "mset (bt_insert (rule_name r) r m) = add_mset (rule_name r, r) (mset m)"
      by (rule mset_bt_insert_fresh)
    ultimately show ?case
      using Cons.IH [of "bt_insert (rule_name r) r m"] Cons.prems by auto
  qed
  from this [of bt_empty] assms show ?thesis by (simp add: by_name_def bt_empty_def)
qed

lemma by_name_get:
  assumes "distinct (map rule_name rs)"
  shows "bt_get (by_name rs) k = Some r \<longleftrightarrow> r \<in> set rs \<and> rule_name r = k"
proof -
  have "set (by_name rs) = (\<lambda>r. (rule_name r, r)) ` set rs"
    using by_name_props [OF assms] by (metis set_map set_mset_mset)
  with by_name_props [OF assms] show ?thesis by (auto simp: bt_get_in_set)
qed

lemma by_name_get_None:
  assumes "distinct (map rule_name rs)"
  shows "bt_get (by_name rs) k = None \<longleftrightarrow> k \<notin> rule_name ` set rs"
proof (cases "bt_get (by_name rs) k")
  case None
  with by_name_get [OF assms, of k] show ?thesis by auto
next
  case (Some r)
  with by_name_get [OF assms, of k r] have "r \<in> set rs" "rule_name r = k" by blast+
  with Some show ?thesis by auto
qed

lemma diff_closed:
  assumes o: "distinct (map rule_name (rules old))" and n: "distinct (map rule_name (rules new))"
  defines "d \<equiv> rule_set_diff old new"
  shows "added d = filter (\<lambda>r. rule_name r \<notin> rule_name ` set (rules old)) (rules new)"
    and "mset (removed d) = mset (filter (\<lambda>r. rule_name r \<notin> rule_name ` set (rules new)) (rules old))"
    and "sorted (map rule_name (removed d))"
    and "set (changed d) = {(a, b). a \<in> set (rules old) \<and> b \<in> set (rules new) \<and> rule_name a = rule_name b \<and> a \<noteq> b}"
    and "map snd (changed d) = filter (\<lambda>r. rule_name r \<in> rule_name ` set (rules old) \<and> r \<notin> set (rules old)) (rules new)"
    and "unchanged d = map rule_name (filter (\<lambda>r. r \<in> set (rules old)) (rules new))"
    and "routes_changed d \<longleftrightarrow> routes old \<noteq> routes new"
proof -
  let ?m = "by_name (rules old)"
  note d = d_def [unfolded rule_set_diff_def diff_loop_eq [OF n] prod.case]
  have get: "bt_get ?m (rule_name r) = Some r \<longleftrightarrow> r \<in> set (rules old)" for r
    by (simp add: by_name_get [OF o])
  show "added d = filter (\<lambda>r. rule_name r \<notin> rule_name ` set (rules old)) (rules new)"
    by (simp add: d diff_default_def by_name_get_None [OF o])
  show "sorted (map rule_name (removed d))" by (simp add: d)
  have "mset (filter (\<lambda>(k, _). k \<notin> rule_name ` set (rules new)) ?m) =
      filter_mset (\<lambda>p. fst p \<notin> rule_name ` set (rules new)) (mset (map (\<lambda>r. (rule_name r, r)) (rules old)))"
    using by_name_props [OF o] by (simp add: case_prod_unfold)
  then have "mset (map snd (filter (\<lambda>(k, _). k \<notin> rule_name ` set (rules new)) ?m)) =
      image_mset snd (filter_mset (\<lambda>p. fst p \<notin> rule_name ` set (rules new)) (mset (map (\<lambda>r. (rule_name r, r)) (rules old))))"
    by simp
  also have "\<dots> = mset (filter (\<lambda>r. rule_name r \<notin> rule_name ` set (rules new)) (rules old))"
    by (simp only: mset_filter [symmetric] mset_map [symmetric] filter_map comp_def map_map
        fst_conv snd_conv map_ident)
  finally show "mset (removed d) = mset (filter (\<lambda>r. rule_name r \<notin> rule_name ` set (rules new)) (rules old))"
    by (simp add: d diff_default_def bt_values_def)
  show "map snd (changed d) = filter (\<lambda>r. rule_name r \<in> rule_name ` set (rules old) \<and> r \<notin> set (rules old)) (rules new)"
    using by_name_get_None [OF o] by (simp add: d diff_default_def get comp_def)
  show "unchanged d = map rule_name (filter (\<lambda>r. r \<in> set (rules old)) (rules new))"
    by (simp add: d diff_default_def get)
  show "routes_changed d \<longleftrightarrow> routes old \<noteq> routes new" by (simp add: d)
  show "set (changed d) = {(a, b). a \<in> set (rules old) \<and> b \<in> set (rules new) \<and> rule_name a = rule_name b \<and> a \<noteq> b}"
    (is "_ = ?C")
  proof (intro set_eqI iffI)
    fix p assume "p \<in> set (changed d)"
    then obtain b a where "p = (a, b)" "b \<in> set (rules new)" "bt_get ?m (rule_name b) = Some a" "a \<noteq> b"
      by (auto simp: d diff_default_def)
    then show "p \<in> ?C" by (simp add: by_name_get [OF o])
  next
    fix p assume "p \<in> ?C"
    then obtain a b where p: "p = (a, b)" "b \<in> set (rules new)" "a \<noteq> b"
      "bt_get ?m (rule_name b) = Some a"
      by (auto simp: by_name_get [OF o])
    then show "p \<in> set (changed d)" by (auto simp: d diff_default_def intro!: image_eqI [of _ _ b])
  qed
qed

lemma mset_filter3:
  assumes "\<forall>x\<in>set xs. (A x \<and> \<not> B x \<and> \<not> C x) \<or> (\<not> A x \<and> B x \<and> \<not> C x) \<or> (\<not> A x \<and> \<not> B x \<and> C x)"
  shows "mset xs = mset (filter A xs) + mset (filter B xs) + mset (filter C xs)"
  using assms by (induction xs) auto

lemma mset_eq_distinct: "distinct xs \<Longrightarrow> distinct ys \<Longrightarrow> set xs = set ys \<Longrightarrow> mset xs = mset ys"
  by (simp add: set_eq_iff_mset_eq_distinct)

lemma distinct_map_inj: "distinct (map f xs) \<Longrightarrow> distinct xs \<and> inj_on f (set xs)"
  by (simp add: distinct_map)

lemma diff_kept:
  assumes o: "distinct (map rule_name (rules old))" and n: "distinct (map rule_name (rules new))"
  shows "filter (\<lambda>r. rule_name r \<in> set (unchanged (rule_set_diff old new))) (rules old)
    = filter (\<lambda>r. r \<in> set (rules new)) (rules old)"
proof (rule filter_cong [OF refl])
  fix r assume r: "r \<in> set (rules old)"
  have inj: "inj_on rule_name (set (rules old))" using distinct_map_inj [OF o] by blast
  have "rule_name r \<in> set (unchanged (rule_set_diff old new)) \<longleftrightarrow>
      (\<exists>x. x \<in> set (rules new) \<and> x \<in> set (rules old) \<and> rule_name r = rule_name x)"
    by (simp add: diff_closed(6) [OF o n] image_iff Bex_def)
  then show "(rule_name r \<in> set (unchanged (rule_set_diff old new))) = (r \<in> set (rules new))"
    using inj r by (auto dest: inj_onD)
qed

lemma diff_changed_fst:
  assumes o: "distinct (map rule_name (rules old))" and n: "distinct (map rule_name (rules new))"
  shows "mset (map fst (changed (rule_set_diff old new))) =
    mset (filter (\<lambda>r. rule_name r \<in> rule_name ` set (rules new) \<and> r \<notin> set (rules new)) (rules old))"
proof (rule mset_eq_distinct)
  let ?c = "changed (rule_set_diff old new)"
  have injn: "inj_on rule_name (set (rules new))" and dn: "distinct (rules new)"
    using distinct_map_inj [OF n] by blast+
  have "distinct (map snd ?c)" unfolding diff_closed(5) [OF o n] by (rule distinct_filter [OF dn])
  then have "distinct ?c" using distinct_map_inj by blast
  moreover have "inj_on fst (set ?c)"
    unfolding diff_closed(4) [OF o n] by (rule inj_onI) (use injn in \<open>auto dest: inj_onD\<close>)
  ultimately show "distinct (map fst ?c)" by (simp add: distinct_map)
  show "distinct (filter (\<lambda>r. rule_name r \<in> rule_name ` set (rules new) \<and> r \<notin> set (rules new)) (rules old))"
    using distinct_map_inj [OF o] by simp
  have uniq: "b = a" if "a \<in> set (rules new)" "b \<in> set (rules new)" "rule_name a = rule_name b" for a b
    using inj_onD [OF injn that(3)] that by simp
  show "set (map fst ?c) =
      set (filter (\<lambda>r. rule_name r \<in> rule_name ` set (rules new) \<and> r \<notin> set (rules new)) (rules old))"
    unfolding set_map diff_closed(4) [OF o n] using uniq
    by (auto simp: image_iff) metis
qed

lemma edit_script:
  assumes o: "distinct (map rule_name (rules old))" and n: "distinct (map rule_name (rules new))"
  defines "d \<equiv> rule_set_diff old new"
  defines "kept \<equiv> filter (\<lambda>r. rule_name r \<in> set (unchanged d)) (rules old)"
  shows "mset (rules old) = mset (removed d) + mset (map fst (changed d)) + mset kept"
    and "mset (rules new) = mset (added d) + mset (map snd (changed d)) + mset kept"
proof -
  have kept: "kept = filter (\<lambda>r. r \<in> set (rules new)) (rules old)"
    unfolding kept_def d_def by (rule diff_kept [OF o n])
  have do: "distinct (rules old)" and dn: "distinct (rules new)"
    using distinct_map_inj [OF o] distinct_map_inj [OF n] by blast+
  show "mset (rules old) = mset (removed d) + mset (map fst (changed d)) + mset kept"
    unfolding kept d_def diff_closed(2) [OF o n] diff_changed_fst [OF o n]
    by (rule mset_filter3) auto
  have "mset kept = mset (filter (\<lambda>r. r \<in> set (rules old)) (rules new))"
    unfolding kept by (rule mset_eq_distinct) (use do dn in auto)
  then show "mset (rules new) = mset (added d) + mset (map snd (changed d)) + mset kept"
    unfolding d_def diff_closed(1) [OF o n] diff_closed(5) [OF o n]
    by (simp only:) (rule mset_filter3, auto)
qed

section \<open>Hostnames and targets\<close>

lemma target_parse_sound:
  assumes "target_parse s = Inr t"
  shows "target_get_port t \<noteq> 0 \<and>
    (case t of Static addr \<Rightarrow> parse_socket_addr s = Some addr
     | Dns host port \<Rightarrow> parse_socket_addr s = None \<and> is_valid_dns_hostname host \<and>
         (\<exists>ps. s = host @ CHR '':'' # ps \<and> parse_u16 ps = Some port))"
proof (cases "parse_socket_addr s")
  case (Some addr)
  with assms show ?thesis by (auto simp: target_parse_def split: if_splits)
next
  case None
  with assms obtain host ps port where sp: "rsplit_once (CHR '':'') s = Some (host, ps)"
    and p: "parse_u16 ps = Some port" "port \<noteq> 0" "is_valid_dns_hostname host" and t: "t = Dns host port"
    by (auto simp: target_parse_def split: if_splits prod.splits)
  from rsplit_once_SomeD [OF sp] p t None show ?thesis by auto
qed

lemmas target_parse_eval =
  target_parse_def net_eval rsplit_once_def is_valid_dns_hostname_def strip_suffix_dot_def
  ldh_label_def ascii_alnum_def ascii_digit_def ascii_upper_def ascii_lower_def

lemma split_on_join: "set s \<subseteq> insert c (\<Union> (set ` set (split_on c s)))"
proof (induction s)
  case Nil
  show ?case by simp
next
  case (Cons x xs)
  then show ?case by (cases "split_on c xs") auto
qed

lemma hostname_chars:
  assumes "is_valid_dns_hostname s" and "c \<in> set s"
  shows "ascii_alnum c \<or> c = CHR ''-'' \<or> c = CHR ''.''"
proof -
  let ?t = "strip_suffix_dot s"
  have lbl: "list_all ldh_label (split_on (CHR ''.'') ?t)"
    using assms(1) by (simp add: is_valid_dns_hostname_def Let_def split: if_splits)
  have "c \<in> set ?t \<or> c = CHR ''.''"
  proof (cases "s \<noteq> [] \<and> last s = CHR ''.''")
    case True
    then have "s = butlast s @ [CHR ''.'']" by (metis append_butlast_last_id)
    with assms(2) True have "c \<in> set (butlast s) \<or> c = CHR ''.''"
      by (metis in_set_conv_decomp rotate1.simps(2) set_ConsD set_rotate1)
    with True show ?thesis by (simp add: strip_suffix_dot_def)
  next
    case False
    with assms(2) show ?thesis by (auto simp: strip_suffix_dot_def)
  qed
  moreover have "ascii_alnum c \<or> c = CHR ''-''" if "c \<in> set p" "p \<in> set (split_on (CHR ''.'') ?t)" for p
    using lbl that by (auto simp: list_all_iff ldh_label_def split: if_splits)
  ultimately show ?thesis using split_on_join [of ?t "CHR ''.''"] by blast
qed

definition header_safe :: "string \<Rightarrow> string \<Rightarrow> bool" where
  "header_safe name value \<longleftrightarrow> name \<noteq> [] \<and> to_ascii_lowercase name \<notin> set RESERVED_HEADERS
     \<and> (\<forall>c\<in>set name. 33 \<le> (of_char c :: nat) \<and> (of_char c :: nat) < 127 \<and> c \<noteq> CHR '':'')
     \<and> (\<forall>c\<in>set value. of_char c = (9::nat) \<or> 32 \<le> (of_char c :: nat) \<and> (of_char c :: nat) < 127)"

lemma is_token_byte_range:
  assumes "is_token_byte c"
  shows "33 \<le> (of_char c :: nat) \<and> (of_char c :: nat) < 127 \<and> c \<noteq> CHR '':''"
  using assms
  by (auto simp: is_token_byte_def ascii_alnum_def ascii_digit_def ascii_upper_def ascii_lower_def)

lemma validate_static_header_safe: "validate_static_header r h n v = Inr () \<Longrightarrow> header_safe n v"
  by (auto simp: validate_static_header_def header_safe_def list_all_iff list_ex_iff is_field_value_byte_def
      reserved_static_header_def Let_def is_token_byte_range split: if_splits)

lemma validate_http_route_ok:
  assumes "validate_http_route U rn rt = Inr ()"
  shows "is_valid_dns_hostname (hostname rt)" and "url_scheme U (route_target rt) = ''http''"
    and "url_host_str U (route_target rt) \<noteq> None"
    and "\<forall>(n, v)\<in>set (headers rt). header_safe n v"
  using assms validate_static_header_safe
  by (auto simp: validate_http_route_def split: if_splits)

section \<open>Properties\<close>

text \<open>
  \<open>Rule::validate\<close> accepts exactly the rules the configuration language allows: a
  printable name, a listen port, TCP or UDP, exactly one of relay port and terminal
  target, a target that parses, PROXY headers only on relay rules (v1 on TCP only), and
  an idle timeout only on UDP.
\<close>

theorem rule_validate_exact: "rule_validate r = Inr () \<longleftrightarrow> rule_ok r"
  by (rule rule_validate_ok)

text \<open>
  C31: loading rule files succeeds exactly when every rule and route is valid by itself and,
  over all files together, rule names, (listen address, protocol) pairs and case-folded
  hostnames are unique; the set then holds the rules and routes in file order.
\<close>

theorem from_files_exact:
  "from_files U fs = Inr s \<longleftrightarrow>
     list_all rule_ok (concat (map file_rule fs))
     \<and> list_all (\<lambda>rt. validate_http_route U ''<route>'' rt = Inr ()) (concat (map file_route fs))
     \<and> unique_keys (concat (map file_rule fs)) (concat (map file_route fs))
     \<and> s = \<lparr>rules = concat (map file_rule fs), routes = concat (map file_route fs)\<rparr>"
proof -
  have "validate_each U f = Inr () \<longleftrightarrow> (\<forall>r\<in>set (file_rule f). rule_ok r) \<and>
      (\<forall>rt\<in>set (file_route f). validate_http_route U ''<route>'' rt = Inr ())" for f
    by (simp add: validate_each_def rule_validate_ok)
  then show ?thesis
    by (auto simp: from_files_def collect_files_ok from_parts_unchecked_ok list_all_iff)
qed

text \<open>
  C32: the reload diff is an exact edit script. For rule sets with unique names, the old rules
  are the removed ones, the old halves of the changed ones and those kept under an
  unchanged name; the new rules are the added ones, the new halves of the changed ones
  and the same kept rules. Added are exactly the new rules whose name is new, in the new
  set's order; removed are exactly the old rules whose name is gone, sorted by name. Changed
  are exactly the pairs of an old and a new rule of one name that differ, and unchanged are
  the names of the rules that stand in both sets. The routes are reported changed exactly
  when the two route lists differ.
\<close>

theorem diff_is_edit_script:
  assumes "distinct (map rule_name (rules old))" and "distinct (map rule_name (rules new))"
  shows "let d = rule_set_diff old new;
             kept = filter (\<lambda>r. rule_name r \<in> set (unchanged d)) (rules old)
    in mset (rules old) = mset (removed d) + mset (map fst (changed d)) + mset kept
     \<and> mset (rules new) = mset (added d) + mset (map snd (changed d)) + mset kept
     \<and> added d = filter (\<lambda>r. rule_name r \<notin> rule_name ` set (rules old)) (rules new)
     \<and> mset (removed d) = mset (filter (\<lambda>r. rule_name r \<notin> rule_name ` set (rules new)) (rules old))
     \<and> sorted (map rule_name (removed d))
     \<and> set (changed d) =
         {(a, b). a \<in> set (rules old) \<and> b \<in> set (rules new) \<and> rule_name a = rule_name b \<and> a \<noteq> b}
     \<and> unchanged d = map rule_name (filter (\<lambda>r. r \<in> set (rules old)) (rules new))
     \<and> (routes_changed d \<longleftrightarrow> routes old \<noteq> routes new)"
  unfolding Let_def
  by (intro conjI edit_script [OF assms] diff_closed [OF assms])

definition plain_rule :: "string \<Rightarrow> u16 \<Rightarrow> u16 \<Rightarrow> rule" where
  "plain_rule n p t = \<lparr>rule_name = n, listen = SockV4 0 p, protocol = Tcp, target_port = Some t,
     target = None, idle_timeout = None, proxy_protocol = None\<rparr>"

theorem diff_is_edit_script_witness:
  "let old = \<lparr>rules = [plain_rule ''a'' 1 1, plain_rule ''b'' 2 2], routes = [] :: unit http_route list\<rparr>;
       new = \<lparr>rules = [plain_rule ''b'' 2 9, plain_rule ''c'' 3 3], routes = []\<rparr>;
       d = rule_set_diff old new;
       kept = filter (\<lambda>r. rule_name r \<in> set (unchanged d)) (rules old)
    in mset (rules old) = mset (removed d) + mset (map fst (changed d)) + mset kept
     \<and> mset (rules new) = mset (added d) + mset (map snd (changed d)) + mset kept
     \<and> added d = filter (\<lambda>r. rule_name r \<notin> rule_name ` set (rules old)) (rules new)
     \<and> mset (removed d) = mset (filter (\<lambda>r. rule_name r \<notin> rule_name ` set (rules new)) (rules old))
     \<and> sorted (map rule_name (removed d))
     \<and> set (changed d) =
         {(a, b). a \<in> set (rules old) \<and> b \<in> set (rules new) \<and> rule_name a = rule_name b \<and> a \<noteq> b}
     \<and> unchanged d = map rule_name (filter (\<lambda>r. r \<in> set (rules old)) (rules new))
     \<and> (routes_changed d \<longleftrightarrow> routes old \<noteq> routes new)"
  unfolding Let_def by (rule diff_is_edit_script [unfolded Let_def]) (simp_all add: plain_rule_def)

text \<open>
  a reload is a no-op exactly when both sets hold the same rules, in any order, and the
  same routes.
\<close>

theorem diff_noop_iff:
  assumes "distinct (map rule_name (rules old))" and "distinct (map rule_name (rules new))"
  shows "is_noop (rule_set_diff old new) \<longleftrightarrow>
    mset (rules old) = mset (rules new) \<and> routes old = routes new"
proof
  assume "is_noop (rule_set_diff old new)"
  with edit_script [OF assms] diff_closed(7) [OF assms]
  show "mset (rules old) = mset (rules new) \<and> routes old = routes new"
    by (simp add: is_noop_def)
next
  assume eq: "mset (rules old) = mset (rules new) \<and> routes old = routes new"
  then have s: "set (rules old) = set (rules new)" by (metis set_mset_mset)
  then have "map snd (changed (rule_set_diff old new)) = []"
    by (simp add: diff_closed(5) [OF assms] filter_empty_conv)
  moreover have "added (rule_set_diff old new) = []"
    using s by (simp add: diff_closed(1) [OF assms] filter_empty_conv)
  moreover have "mset (removed (rule_set_diff old new)) = {#}"
    unfolding diff_closed(2) [OF assms] using s by (simp only: mset_zero_iff filter_empty_conv) simp
  ultimately show "is_noop (rule_set_diff old new)"
    using eq by (simp add: is_noop_def diff_closed(7) [OF assms])
qed

theorem diff_noop_iff_witness:
  "is_noop (rule_set_diff
     \<lparr>rules = [plain_rule ''a'' 1 1, plain_rule ''b'' 2 2], routes = [] :: unit http_route list\<rparr>
     \<lparr>rules = [plain_rule ''b'' 2 2, plain_rule ''a'' 1 1], routes = []\<rparr>)"
  by (subst diff_noop_iff) (simp_all add: plain_rule_def add_mset_commute)

text \<open>
  a validated route carries no header that could break out of the response head: names
  are non-empty printable tokens outside the reserved list in any letter case, values are
  printable ASCII or tabs (so no CR or LF); the hostname has only letters, digits,
  hyphens and dots, and the backend URL is plain \<open>http\<close> with a host.
\<close>

theorem validated_route_safe:
  assumes "validate_http_route U rname route = Inr ()"
  shows "(\<forall>(n, v)\<in>set (headers route). header_safe n v)
    \<and> (\<forall>c\<in>set (hostname route). ascii_alnum c \<or> c = CHR ''-'' \<or> c = CHR ''.'')
    \<and> url_scheme U (route_target route) = ''http'' \<and> url_host_str U (route_target route) \<noteq> None"
  using validate_http_route_ok [OF assms] hostname_chars by blast

definition plain_url :: "unit url_lib" where
  "plain_url = \<lparr>url_scheme = (\<lambda>_. ''http''), url_host_str = (\<lambda>_. Some ''h''),
     url_port_or_known_default = (\<lambda>_. Some 80)\<rparr>"

definition plain_route :: "string \<Rightarrow> unit http_route" where
  "plain_route h = \<lparr>hostname = h, route_target = (), hsts = None, headers = [(''X-Frame'', ''deny'')]\<rparr>"

theorem validated_route_safe_witness:
  "header_safe ''X-Frame'' ''deny'' \<and> url_host_str plain_url (route_target (plain_route ''app.lan'')) \<noteq> None"
proof -
  have "validate_http_route plain_url ''<route>'' (plain_route ''app.lan'') = Inr ()"
    by code_simp
  from validated_route_safe [OF this] show ?thesis by (simp add: plain_route_def)
qed

text \<open>
  an accepted target has a non-zero port, and is either the socket address its text
  denotes or a valid DNS name followed by a colon and a port number.
\<close>

theorem target_parse_meaning:
  assumes "target_parse s = Inr t"
  shows "target_get_port t \<noteq> 0 \<and>
    (case t of Static addr \<Rightarrow> parse_socket_addr s = Some addr
     | Dns host port \<Rightarrow> parse_socket_addr s = None \<and> is_valid_dns_hostname host \<and>
         (\<exists>ps. s = host @ CHR '':'' # ps \<and> parse_u16 ps = Some port))"
  by (rule target_parse_sound [OF assms])

theorem target_parse_meaning_witness:
  "target_parse ''printer.lan:9100'' = Inr (Dns ''printer.lan'' 9100) \<and>
   is_valid_dns_hostname ''printer.lan''"
proof -
  have "target_parse ''printer.lan:9100'' = Inr (Dns ''printer.lan'' 9100)"
    by (simp add: target_parse_eval)
  with target_parse_meaning [OF this] show ?thesis by simp
qed

text \<open>
  an IPv4 literal with a signed port is not a socket address to the standard library but
  is accepted as a DNS name, so the documented rule that an IP literal is never
  re-resolved does not hold for it.
\<close>

theorem signed_port_makes_ip_literal_dns:
  "target_parse ''192.0.2.10:22'' = Inr (Static (SockV4 0xC000020A 22)) \<and>
   target_parse ''192.0.2.10:+22'' = Inr (Dns ''192.0.2.10'' 22)"
  by (simp add: target_parse_eval)

text \<open>
  the server-wide bind address replaces only a wildcard listen address of its own family;
  port and every other field are kept, and a second application changes nothing more.
\<close>

theorem bind_override_exact:
  "with_bind_override (Some ip) r =
     (if is_unspecified (sa_ip (listen r)) \<and> is_v4 (sa_ip (listen r)) = is_v4 ip
      then r\<lparr>listen := sa_new ip (sa_port (listen r))\<rparr> else r)
   \<and> sa_port (listen (with_bind_override b r)) = sa_port (listen r)
   \<and> with_bind_override b (with_bind_override b r) = with_bind_override b r"
  by (cases b) (auto simp: with_bind_override_def Let_def)

end
