(* ===== verification/Nat_Mapper.thy ===== *)
theory Nat_Mapper
  imports Nat_Wire Rules "HOL-Library.AList"
begin

text \<open>
  The NAT mapper (\<open>nat/mapper.rs\<close>): which listeners are to be mapped, the request/response
  exchange with the gateway, the mapping table with its renewals, epoch resets, backoff and the
  release pass, and the event loop of the task. The outside world is a record of inputs: the
  outcome of the n-th datagram sent, of the n-th socket bind, the random nonces, the clock
  (milliseconds) and the iteration order of hash tables. The last error is kept as a value; its
  text form, logging and metrics have no counterpart.
\<close>

section \<open>Targets\<close>

datatype nat_traversal_mode = ModeOff | ModePcp | ModeNatPmp | ModeAuto

datatype mapping_origin = FromRule string | AcceptListen | HttpsRedirect ip_addr | Http3 string

primrec as_token :: "mapping_origin \<Rightarrow> string" where
  "as_token (FromRule name) = ''rule:'' @ name"
| "as_token AcceptListen = ''accept''"
| "as_token (HttpsRedirect ip) = ''redirect:'' @ show_ip ip"
| "as_token (Http3 name) = ''http3:'' @ name"

record mapping_target =
  mt_protocol :: map_protocol
  mt_internal_port :: u16
  mt_internal_addr :: u32
  mt_origin :: mapping_origin

record https_target =
  ht_listen :: socket_addr
  ht_http3 :: bool

datatype skip_reason = Loopback | LinkLocal | PublicInternal | SkipIpv6

datatype filter_decision = Keep u32 | Skip skip_reason

definition is_rfc1918_or_cgnat :: "u32 \<Rightarrow> bool" where
  "is_rfc1918_or_cgnat v4 =
     (let a = be_bytes 4 v4 ! 0; b = be_bytes 4 v4 ! 1 in
      a = 10 \<or> a = 172 \<and> 16 \<le> b \<and> b \<le> 31 \<or> a = 192 \<and> b = 168 \<or>
      a = 100 \<and> 64 \<le> b \<and> b \<le> 127 \<or> a = 198 \<and> 18 \<le> b \<and> b \<le> 19)"

definition v4_is_loopback :: "u32 \<Rightarrow> bool" where
  "v4_is_loopback v4 \<longleftrightarrow> be_bytes 4 v4 ! 0 = 127"

definition v4_is_link_local :: "u32 \<Rightarrow> bool" where
  "v4_is_link_local v4 \<longleftrightarrow> be_bytes 4 v4 ! 0 = 169 \<and> be_bytes 4 v4 ! 1 = 254"

primrec filter_bind_ip :: "ip_addr \<Rightarrow> filter_decision" where
  "filter_bind_ip (V6 _) = Skip SkipIpv6"
| "filter_bind_ip (V4 v4) =
     (if v4_is_loopback v4 then Skip Loopback
      else if v4_is_link_local v4 then Skip LinkLocal
      else if v4 = 0 \<or> is_rfc1918_or_cgnat v4 then Keep v4
      else Skip PublicInternal)"

definition resolve_internal :: "u32 \<Rightarrow> u32 \<Rightarrow> u32" where
  "resolve_internal local_source v4 = (if v4 = 0 then local_source else v4)"

type_synonym enumeration = "mapping_target list \<times> (string \<times> skip_reason) list"

text \<open>
  The accumulated targets are the \<open>HashSet\<close> (a list without repetitions), the second component
  the skipped listeners in order. A rule with protocol \<open>https\<close> does not survive validation and
  contributes nothing.
\<close>

definition enumerate_rule :: "u32 \<Rightarrow> enumeration \<Rightarrow> rule \<Rightarrow> enumeration" where
  "enumerate_rule local_source acc r =
     (case filter_bind_ip (sa_ip (listen r)) of
        Skip reason \<Rightarrow> (fst acc, snd acc @ [(as_token (FromRule (rule_name r)), reason)])
      | Keep v4 \<Rightarrow>
          let mk = (\<lambda>p. \<lparr>mt_protocol = p, mt_internal_port = sa_port (listen r),
                         mt_internal_addr = resolve_internal local_source v4, mt_origin = FromRule (rule_name r)\<rparr>)
          in case protocol r of
               Tcp \<Rightarrow> (List.insert (mk MapTcp) (fst acc), snd acc)
             | Udp \<Rightarrow> (List.insert (mk MapUdp) (fst acc), snd acc)
             | Https \<Rightarrow> acc)"

definition enumerate_https :: "u32 \<Rightarrow> https_target option \<Rightarrow> enumeration \<Rightarrow> enumeration \<times> u32 list" where
  "enumerate_https local_source https acc =
     (case https of
        None \<Rightarrow> (acc, [])
      | Some h \<Rightarrow>
          (case filter_bind_ip (sa_ip (ht_listen h)) of
             Skip reason \<Rightarrow> ((fst acc, snd acc @ [(as_token (FromRule ''https''), reason)]), [])
           | Keep v4 \<Rightarrow>
               let mk = (\<lambda>p orig. \<lparr>mt_protocol = p, mt_internal_port = sa_port (ht_listen h),
                                 mt_internal_addr = resolve_internal local_source v4, mt_origin = orig\<rparr>);
                   ts = List.insert (mk MapTcp (FromRule ''https'')) (fst acc);
                   ts' = (if ht_http3 h then List.insert (mk MapUdp (Http3 ''https'')) ts else ts)
               in ((ts', snd acc), [v4])))"

definition enumerate_redirect :: "u32 \<Rightarrow> enumeration \<Rightarrow> u32 \<Rightarrow> enumeration" where
  "enumerate_redirect local_source acc v4 =
     (case filter_bind_ip (V4 v4) of
        Skip reason \<Rightarrow> (fst acc, snd acc @ [(as_token (HttpsRedirect (V4 v4)), reason)])
      | Keep _ \<Rightarrow>
          (List.insert \<lparr>mt_protocol = MapTcp, mt_internal_port = 80,
                        mt_internal_addr = resolve_internal local_source v4,
                        mt_origin = HttpsRedirect (V4 v4)\<rparr> (fst acc), snd acc))"

definition enumerate_accept :: "u32 \<Rightarrow> socket_addr option \<Rightarrow> enumeration \<Rightarrow> enumeration" where
  "enumerate_accept local_source accept_listen acc =
     (case accept_listen of
        None \<Rightarrow> acc
      | Some addr \<Rightarrow>
          (case sa_ip addr of
             V6 _ \<Rightarrow> (fst acc, snd acc @ [(as_token AcceptListen, SkipIpv6)])
           | V4 v4 \<Rightarrow>
               (case filter_bind_ip (V4 v4) of
                  Skip reason \<Rightarrow> (fst acc, snd acc @ [(as_token AcceptListen, reason)])
                | Keep _ \<Rightarrow>
                    (List.insert \<lparr>mt_protocol = MapUdp, mt_internal_port = sa_port addr,
                                  mt_internal_addr = resolve_internal local_source v4,
                                  mt_origin = AcceptListen\<rparr> (fst acc), snd acc))))"

definition enumerate_targets ::
  "rule list \<Rightarrow> socket_addr option \<Rightarrow> https_target option \<Rightarrow> u32 \<Rightarrow> enumeration" where
  "enumerate_targets rs accept_listen https local_source =
     (let acc1 = foldl (enumerate_rule local_source) ([], []) rs;
          (acc2, redirect_ips) = enumerate_https local_source https acc1;
          acc3 = foldl (enumerate_redirect local_source) acc2 redirect_ips
      in enumerate_accept local_source accept_listen acc3)"

definition compute_targets ::
  "rule list \<Rightarrow> socket_addr option \<Rightarrow> https_target option \<Rightarrow> u32 \<Rightarrow> mapping_target list" where
  "compute_targets rs accept_listen https local_source =
     fst (enumerate_targets rs accept_listen https local_source)"

section \<open>The outside world\<close>

datatype exchange = SendFailed | NoReply | RecvFailed | Reply nat bytes

type_synonym mapping_key = "map_protocol \<times> u16"

record nat_io =
  io_now :: nat
  io_sends :: nat
  io_sent :: "bytes list"
  io_link :: "nat \<Rightarrow> bytes \<Rightarrow> exchange"
  io_binds :: nat
  io_bind_ok :: "nat \<Rightarrow> bool"
  io_draws :: nat
  io_nonce :: "nat \<Rightarrow> bytes"
  io_order :: "mapping_target list \<Rightarrow> mapping_target list"
  io_key_order :: "mapping_key list \<Rightarrow> mapping_key list"

text \<open>One \<open>socket.send\<close>, with what the following wait for a reply will see.\<close>

definition io_send :: "bytes \<Rightarrow> nat_io \<Rightarrow> exchange \<times> nat_io" where
  "io_send buf io =
     (let x = io_link io (io_sends io) buf;
          io' = io\<lparr>io_sends := Suc (io_sends io)\<rparr>
      in (x, if x = SendFailed then io' else io'\<lparr>io_sent := io_sent io @ [buf]\<rparr>))"

definition io_wait :: "nat \<Rightarrow> nat_io \<Rightarrow> nat_io" where
  "io_wait ms io = io\<lparr>io_now := io_now io + ms\<rparr>"

definition draw_nonce :: "nat_io \<Rightarrow> bytes \<times> nat_io" where
  "draw_nonce io = (io_nonce io (io_draws io), io\<lparr>io_draws := Suc (io_draws io)\<rparr>)"

section \<open>Gateway RPC\<close>

definition RPC_INITIAL_TIMEOUT :: nat where "RPC_INITIAL_TIMEOUT = 2000"
definition RPC_MAX_RETRIES :: nat where "RPC_MAX_RETRIES = 3"
definition RPC_RECV_BUF :: nat where "RPC_RECV_BUF = 1500"
definition REQUESTED_LIFETIME_SECS :: u32 where "REQUESTED_LIFETIME_SECS = 7200"

datatype rpc_error =
    NoSocket
  | RpcTimeout nat
  | RpcPcp pcp_result_code
  | RpcNatPmp nat_pmp_result_code
  | RpcWire wire_error
  | RpcIo

primrec rpc_is_transient :: "rpc_error \<Rightarrow> bool" where
  "rpc_is_transient (RpcPcp code) = pcp_is_transient code"
| "rpc_is_transient (RpcNatPmp code) = natpmp_is_transient code"
| "rpc_is_transient (RpcTimeout _) = True"
| "rpc_is_transient RpcIo = True"
| "rpc_is_transient NoSocket = True"
| "rpc_is_transient (RpcWire _) = False"

definition rpc_should_fall_back :: "rpc_error \<Rightarrow> bool" where
  "rpc_should_fall_back e =
     (case e of RpcPcp code \<Rightarrow> pcp_should_fall_back code | RpcTimeout _ \<Rightarrow> True | _ \<Rightarrow> False)"

text \<open>
  The retry loops; the first argument counts the attempts left. A PCP response with a foreign
  nonce uses up an attempt without doubling the timeout.
\<close>

fun pcp_attempts :: "nat \<Rightarrow> nat \<Rightarrow> pcp_map_request \<Rightarrow> nat_io \<Rightarrow> (rpc_error + pcp_map_response) \<times> nat_io" where
  "pcp_attempts 0 rt req io = (Inl (RpcTimeout RPC_MAX_RETRIES), io)"
| "pcp_attempts (Suc k) rt req io =
     (case io_send (pcp_encode_map_request req) io of
        (SendFailed, io') \<Rightarrow> (Inl RpcIo, io')
      | (RecvFailed, io') \<Rightarrow> (Inl RpcIo, io')
      | (NoReply, io') \<Rightarrow>
          if k = 0 then (Inl (RpcTimeout RPC_MAX_RETRIES), io_wait rt io')
          else pcp_attempts k (rt * 2) req (io_wait rt io')
      | (Reply d buf, io') \<Rightarrow>
          (case pcp_decode_map_response (take RPC_RECV_BUF buf) of
             Inl e \<Rightarrow> (Inl (RpcWire e), io_wait d io')
           | Inr parsed \<Rightarrow>
               if pr_nonce parsed \<noteq> pq_nonce req then pcp_attempts k rt req (io_wait d io')
               else (Inr parsed, io_wait d io')))"

definition pcp_rpc :: "pcp_map_request \<Rightarrow> nat_io \<Rightarrow> (rpc_error + pcp_map_response) \<times> nat_io" where
  "pcp_rpc req io = pcp_attempts RPC_MAX_RETRIES RPC_INITIAL_TIMEOUT req io"

fun natpmp_attempts ::
  "nat \<Rightarrow> nat \<Rightarrow> natpmp_map_request \<Rightarrow> nat_io \<Rightarrow> (rpc_error + natpmp_map_response) \<times> nat_io" where
  "natpmp_attempts 0 rt req io = (Inl (RpcTimeout RPC_MAX_RETRIES), io)"
| "natpmp_attempts (Suc k) rt req io =
     (case io_send (natpmp_encode_map_request req) io of
        (SendFailed, io') \<Rightarrow> (Inl RpcIo, io')
      | (RecvFailed, io') \<Rightarrow> (Inl RpcIo, io')
      | (NoReply, io') \<Rightarrow>
          if k = 0 then (Inl (RpcTimeout RPC_MAX_RETRIES), io_wait rt io')
          else natpmp_attempts k (rt * 2) req (io_wait rt io')
      | (Reply d buf, io') \<Rightarrow>
          (map_err RpcWire (natpmp_decode_map_response (take RPC_RECV_BUF buf)), io_wait d io'))"

definition natpmp_rpc :: "natpmp_map_request \<Rightarrow> nat_io \<Rightarrow> (rpc_error + natpmp_map_response) \<times> nat_io" where
  "natpmp_rpc req io = natpmp_attempts RPC_MAX_RETRIES RPC_INITIAL_TIMEOUT req io"

datatype nat_protocol = Pcp | NatPmp

record map_ack =
  ma_external_port :: u16
  ma_external_addr :: "u32 option"
  ma_assigned_lifetime_secs :: u32

definition pcp_request_for :: "u32 \<Rightarrow> mapping_target \<Rightarrow> bytes \<Rightarrow> pcp_map_request" where
  "pcp_request_for lifetime t nonce =
     \<lparr>pq_lifetime_secs = lifetime, pq_client_addr = mt_internal_addr t, pq_nonce = nonce,
      pq_protocol = mt_protocol t, pq_internal_port = mt_internal_port t,
      pq_suggested_external_port = mt_internal_port t, pq_suggested_external_addr = 0\<rparr>"

definition natpmp_request_for :: "u32 \<Rightarrow> u16 \<Rightarrow> mapping_target \<Rightarrow> natpmp_map_request" where
  "natpmp_request_for lifetime suggested t =
     \<lparr>nq_protocol = mt_protocol t, nq_internal_port = mt_internal_port t,
      nq_suggested_external_port = suggested, nq_lifetime_secs = lifetime\<rparr>"

definition try_map_via ::
  "bool \<Rightarrow> nat_protocol \<Rightarrow> mapping_target \<Rightarrow> bytes \<Rightarrow> nat_io \<Rightarrow> (rpc_error + map_ack \<times> u32) \<times> nat_io" where
  "try_map_via socket proto t nonce io =
     (if \<not> socket then (Inl NoSocket, io)
      else case proto of
        Pcp \<Rightarrow>
          (let (r, io') = pcp_rpc (pcp_request_for REQUESTED_LIFETIME_SECS t nonce) io in
           (rbind r (\<lambda>resp.
              if pr_result_code resp \<noteq> PcpSuccess then Inl (RpcPcp (pr_result_code resp))
              else if pr_nonce resp \<noteq> nonce then Inl (RpcWire NonceMismatch)
              else Inr (\<lparr>ma_external_port = pr_assigned_external_port resp,
                         ma_external_addr = Some (pr_assigned_external_addr resp),
                         ma_assigned_lifetime_secs = pr_assigned_lifetime resp\<rparr>, pr_epoch_time resp)), io'))
      | NatPmp \<Rightarrow>
          (let (r, io') = natpmp_rpc (natpmp_request_for REQUESTED_LIFETIME_SECS (mt_internal_port t) t) io in
           (rbind r (\<lambda>resp.
              if nr_result_code resp \<noteq> PmpSuccess then Inl (RpcNatPmp (nr_result_code resp))
              else Inr (\<lparr>ma_external_port = nr_assigned_external_port resp,
                         ma_external_addr = None,
                         ma_assigned_lifetime_secs = nr_assigned_lifetime resp\<rparr>,
                        nr_seconds_since_epoch resp)), io')))"

definition send_unmap :: "nat_protocol \<Rightarrow> mapping_target \<Rightarrow> bytes \<Rightarrow> nat_io \<Rightarrow> nat_io" where
  "send_unmap proto t nonce io =
     (case proto of
        Pcp \<Rightarrow> snd (io_send (pcp_encode_map_request (pcp_request_for 0 t nonce)) io)
      | NatPmp \<Rightarrow> snd (io_send (natpmp_encode_map_request (natpmp_request_for 0 0 t)) io))"

section \<open>The reconciler\<close>

definition DEFAULT_SHUTDOWN_RELEASE_TIMEOUT :: nat where "DEFAULT_SHUTDOWN_RELEASE_TIMEOUT = 3000"
definition ERROR_THRESHOLD_TO_BACKOFF :: nat where "ERROR_THRESHOLD_TO_BACKOFF = 3"
definition BACKOFF_SCHEDULE :: "nat list" where "BACKOFF_SCHEDULE = [30000, 60000, 300000, 900000]"

record active_mapping =
  am_target :: mapping_target
  am_external_port :: u16
  am_external_addr :: "u32 option"
  am_assigned_lifetime :: nat
  am_renew_at :: nat
  am_last_renewed :: nat
  am_protocol_used :: nat_protocol
  am_pcp_nonce :: "bytes option"

datatype nat_state = Disabled | Discovering | Active | Backoff

datatype mapper_error = SocketError | ExchangeError rpc_error

record nat_snapshot =
  ns_mode :: nat_traversal_mode
  ns_state :: nat_state
  ns_gateway :: "u32 option"
  ns_external_ip :: "u32 option"
  ns_protocol :: "nat_protocol option"
  ns_active_mappings :: "active_mapping list"
  ns_last_error :: "mapper_error option"

record 'u reconciler =
  rc_mode :: nat_traversal_mode
  rc_gateway :: gateway
  rc_accept_listen :: "socket_addr option"
  rc_https_listen :: socket_addr
  rc_https_http3 :: bool
  rc_rule_set :: "'u rule_set"
  rc_snapshot :: nat_snapshot
  rc_mappings :: "(mapping_key \<times> active_mapping) list"
  rc_nonces :: "(mapping_key \<times> bytes) list"
  rc_state :: nat_state
  rc_current_protocol :: "nat_protocol option"
  rc_last_epoch :: "u32 option"
  rc_external_ip :: "u32 option"
  rc_consecutive_errors :: nat
  rc_seen_skipped :: "(string \<times> skip_reason) list"
  rc_backoff_attempt :: nat
  rc_last_error :: "mapper_error option"
  rc_rpc_socket :: bool
  rc_shutdown_release_timeout :: nat

type_synonym 'u world = "nat_io \<times> 'u reconciler"

definition reconciler_new ::
  "nat_traversal_mode \<Rightarrow> gateway \<Rightarrow> socket_addr option \<Rightarrow> socket_addr \<Rightarrow> bool \<Rightarrow> 'u rule_set \<Rightarrow> nat_snapshot \<Rightarrow> nat
     \<Rightarrow> 'u reconciler" where
  "reconciler_new md gw accept_listen https_listen https_http3 rs snap release_timeout =
     \<lparr>rc_mode = md, rc_gateway = gw, rc_accept_listen = accept_listen,
      rc_https_listen = https_listen, rc_https_http3 = https_http3, rc_rule_set = rs,
      rc_snapshot = snap, rc_mappings = [], rc_nonces = [], rc_state = Discovering,
      rc_current_protocol =
        (case md of ModePcp \<Rightarrow> Some Pcp | ModeAuto \<Rightarrow> Some Pcp | ModeNatPmp \<Rightarrow> Some NatPmp | ModeOff \<Rightarrow> None),
      rc_last_epoch = None, rc_external_ip = None, rc_consecutive_errors = 0,
      rc_seen_skipped = [], rc_backoff_attempt = 0, rc_last_error = None, rc_rpc_socket = False,
      rc_shutdown_release_timeout = release_timeout\<rparr>"

definition target_key :: "mapping_target \<Rightarrow> mapping_key" where
  "target_key t = (mt_protocol t, mt_internal_port t)"

definition transition_backoff :: "mapper_error \<Rightarrow> 'u reconciler \<Rightarrow> 'u reconciler" where
  "transition_backoff why rc = rc\<lparr>rc_state := Backoff, rc_last_error := Some why\<rparr>"

definition publish_snapshot :: "'u reconciler \<Rightarrow> 'u reconciler" where
  "publish_snapshot rc = rc\<lparr>rc_snapshot :=
     \<lparr>ns_mode = rc_mode rc, ns_state = rc_state rc, ns_gateway = Some (gw_addr (rc_gateway rc)),
      ns_external_ip = rc_external_ip rc, ns_protocol = rc_current_protocol rc,
      ns_active_mappings = map snd (rc_mappings rc), ns_last_error = rc_last_error rc\<rparr>\<rparr>"

definition ensure_rpc_socket :: "'u world \<Rightarrow> bool \<times> 'u world" where
  "ensure_rpc_socket w =
     (let (io, rc) = w in
      if rc_rpc_socket rc then (True, w)
      else let ok = io_bind_ok io (io_binds io) in
        (ok, io\<lparr>io_binds := Suc (io_binds io)\<rparr>, rc\<lparr>rc_rpc_socket := ok\<rparr>))"

text \<open>\<open>self.nonces.entry(key).or_insert_with(random)\<close>\<close>

definition nonce_for :: "mapping_key \<Rightarrow> 'u world \<Rightarrow> bytes \<times> 'u world" where
  "nonce_for k w =
     (let (io, rc) = w in
      case map_of (rc_nonces rc) k of
        Some n \<Rightarrow> (n, w)
      | None \<Rightarrow>
          (let (n, io') = draw_nonce io in (n, io', rc\<lparr>rc_nonces := AList.update k n (rc_nonces rc)\<rparr>)))"

definition new_mapping :: "nat_protocol \<Rightarrow> mapping_target \<Rightarrow> bytes \<Rightarrow> map_ack \<Rightarrow> nat \<Rightarrow> active_mapping" where
  "new_mapping proto t nonce ack now =
     (let assigned = unat (ma_assigned_lifetime_secs ack) * 1000 in
      \<lparr>am_target = t, am_external_port = ma_external_port ack,
       am_external_addr = ma_external_addr ack, am_assigned_lifetime = assigned,
       am_renew_at = now + assigned div 2, am_last_renewed = now, am_protocol_used = proto,
       am_pcp_nonce = (if proto = Pcp then Some nonce else None)\<rparr>)"

definition send_map_request_inline :: "mapping_target \<Rightarrow> 'u world \<Rightarrow> 'u world" where
  "send_map_request_inline t w =
     (let k = target_key t;
          (nonce, io, rc) = nonce_for k w;
          proto = (case rc_current_protocol rc of Some p \<Rightarrow> p | None \<Rightarrow> Pcp);
          (r, io') = try_map_via (rc_rpc_socket rc) proto t nonce io
      in case r of
           Inr (ack, _) \<Rightarrow>
             (io', rc\<lparr>rc_mappings := AList.update k (new_mapping proto t nonce ack (io_now io')) (rc_mappings rc)\<rparr>)
         | Inl _ \<Rightarrow> (io', rc))"

text \<open>
  The targets of the table in the iteration order of the hash map. \<open>new_epoch + 16\<close> is an
  addition of \<open>u32\<close> values: the release profile compiles it without overflow checks.
\<close>

definition table_targets :: "'u world \<Rightarrow> mapping_target list" where
  "table_targets w =
     (let (io, rc) = w in
      List.map_filter (\<lambda>k. map_option am_target (map_of (rc_mappings rc) k))
        (io_key_order io (map fst (rc_mappings rc))))"

definition note_epoch :: "u32 \<Rightarrow> 'u world \<Rightarrow> 'u world" where
  "note_epoch new_epoch w =
     (let (io, rc) = w; reset = rc\<lparr>rc_last_epoch := Some new_epoch\<rparr> in
      case rc_last_epoch rc of
        Some prev \<Rightarrow>
          if new_epoch + 16 < prev
          then fold send_map_request_inline (table_targets w) (io, reset\<lparr>rc_mappings := [], rc_nonces := []\<rparr>)
          else (io, reset)
      | None \<Rightarrow> (io, reset))"

definition protocols_to_try :: "'u reconciler \<Rightarrow> nat_protocol list" where
  "protocols_to_try rc =
     (case rc_mode rc of
        ModePcp \<Rightarrow> [Pcp]
      | ModeNatPmp \<Rightarrow> [NatPmp]
      | ModeAuto \<Rightarrow> if rc_current_protocol rc = Some NatPmp then [NatPmp] else [Pcp, NatPmp]
      | ModeOff \<Rightarrow> [])"

text \<open>What follows a successful exchange, from \<open>note_epoch\<close> to the return.\<close>

definition establish :: "nat_protocol \<Rightarrow> mapping_target \<Rightarrow> bytes \<Rightarrow> map_ack \<Rightarrow> u32 \<Rightarrow> 'u world \<Rightarrow> 'u world" where
  "establish proto t nonce ack epoch w =
     (let (io, rc) = note_epoch epoch w in
      (io, rc\<lparr>rc_current_protocol := Some proto,
              rc_mappings := AList.update (target_key t) (new_mapping proto t nonce ack (io_now io)) (rc_mappings rc),
              rc_external_ip := (case ma_external_addr ack of Some ext \<Rightarrow> Some ext | None \<Rightarrow> rc_external_ip rc),
              rc_state := Active, rc_consecutive_errors := 0, rc_backoff_attempt := 0,
              rc_last_error := None\<rparr>))"

text \<open>What follows when every attempted protocol failed; \<open>u32::saturating_add\<close>.\<close>

definition map_failed :: "mapping_key \<Rightarrow> rpc_error \<Rightarrow> 'u reconciler \<Rightarrow> 'u reconciler" where
  "map_failed k err rc =
     (let rc1 = rc\<lparr>rc_last_error := Some (ExchangeError err),
                   rc_consecutive_errors := min (rc_consecutive_errors rc + 1) (2 ^ 32 - 1)\<rparr>;
          rc2 = (if \<not> rpc_is_transient err then rc1\<lparr>rc_mappings := AList.delete k (rc_mappings rc1)\<rparr> else rc1)
      in if ERROR_THRESHOLD_TO_BACKOFF \<le> rc_consecutive_errors rc2
         then transition_backoff (ExchangeError err) rc2 else rc2)"

fun map_attempts :: "nat_protocol list \<Rightarrow> mapping_target \<Rightarrow> bytes \<Rightarrow> rpc_error option \<Rightarrow> 'u world \<Rightarrow> 'u world" where
  "map_attempts [] t nonce last_err (io, rc) =
     (case last_err of None \<Rightarrow> (io, rc) | Some err \<Rightarrow> (io, map_failed (target_key t) err rc))"
| "map_attempts (proto # ps) t nonce last_err (io, rc) =
     (case try_map_via (rc_rpc_socket rc) proto t nonce io of
        (Inr (ack, epoch), io') \<Rightarrow> establish proto t nonce ack epoch (io', rc)
      | (Inl err, io') \<Rightarrow>
          if rc_mode rc = ModeAuto \<and> proto = Pcp \<and> rpc_should_fall_back err
          then map_attempts ps t nonce (Some err) (io', rc)
          else (io', map_failed (target_key t) err rc))"

definition send_map_request :: "mapping_target \<Rightarrow> 'u world \<Rightarrow> 'u world" where
  "send_map_request t w =
     (let (nonce, w') = nonce_for (target_key t) w
      in map_attempts (protocols_to_try (snd w')) t nonce None w')"

definition release_one :: "active_mapping \<Rightarrow> 'u world \<Rightarrow> 'u world" where
  "release_one m w =
     (let (io, rc) = w; t = am_target m; k = target_key t;
          nonce = (case am_pcp_nonce m of
                     Some n \<Rightarrow> n
                   | None \<Rightarrow> (case map_of (rc_nonces rc) k of Some n \<Rightarrow> n | None \<Rightarrow> replicate PCP_NONCE_LEN 0));
          io' = (if rc_rpc_socket rc then send_unmap (am_protocol_used m) t nonce io else io)
      in (io', rc\<lparr>rc_nonces := AList.delete k (rc_nonces rc)\<rparr>))"

definition wanted_https :: "'u reconciler \<Rightarrow> https_target option" where
  "wanted_https rc =
     (if routes (rc_rule_set rc) = [] then None
      else Some \<lparr>ht_listen = rc_https_listen rc, ht_http3 = rc_https_http3 rc\<rparr>)"

definition wanted :: "'u reconciler \<Rightarrow> enumeration" where
  "wanted rc =
     enumerate_targets (rules (rc_rule_set rc)) (rc_accept_listen rc) (wanted_https rc)
       (gw_local_source (rc_gateway rc))"

text \<open>\<open>desired_by_key.entry(key).or_insert(t)\<close> over the targets in iteration order.\<close>

definition desired_by_key :: "mapping_target list \<Rightarrow> (mapping_key \<times> mapping_target) list" where
  "desired_by_key ts =
     foldl (\<lambda>m t. if map_of m (target_key t) = None then m @ [(target_key t, t)] else m) [] ts"

definition drop_key :: "mapping_key \<Rightarrow> 'u world \<Rightarrow> 'u world" where
  "drop_key k w =
     (case map_of (rc_mappings (snd w)) k of
        None \<Rightarrow> w
      | Some m \<Rightarrow> release_one m (fst w, (snd w)\<lparr>rc_mappings := AList.delete k (rc_mappings (snd w))\<rparr>))"

type_synonym desired = "(mapping_key \<times> mapping_target) list"

definition drop_unwanted :: "desired \<Rightarrow> 'u world \<Rightarrow> 'u world" where
  "drop_unwanted desired w =
     fold drop_key (filter (\<lambda>k. map_of desired k = None) (io_key_order (fst w) (map fst (rc_mappings (snd w))))) w"

definition add_missing :: "desired \<Rightarrow> 'u world \<Rightarrow> 'u world" where
  "add_missing desired w =
     fold send_map_request
       (List.map_filter (map_of desired)
          (filter (\<lambda>k. map_of (rc_mappings (snd w)) k = None) (io_key_order (fst w) (map fst desired)))) w"

definition note_skipped :: "(string \<times> skip_reason) list \<Rightarrow> 'u reconciler \<Rightarrow> 'u reconciler" where
  "note_skipped skipped rc = rc\<lparr>rc_seen_skipped := fold List.insert skipped (rc_seen_skipped rc)\<rparr>"

definition wanted_by_key :: "'u world \<Rightarrow> desired" where
  "wanted_by_key w = desired_by_key (io_order (fst w) (fst (wanted (snd w))))"

definition reconcile_with_socket :: "'u world \<Rightarrow> 'u world" where
  "reconcile_with_socket w =
     apsnd publish_snapshot
       (add_missing (wanted_by_key w)
         (drop_unwanted (wanted_by_key w) (apsnd (note_skipped (snd (wanted (snd w)))) w)))"

definition reconcile_targets :: "'u world \<Rightarrow> 'u world" where
  "reconcile_targets w =
     (case ensure_rpc_socket w of
        (True, w') \<Rightarrow> reconcile_with_socket w'
      | (False, io, rc) \<Rightarrow> (io, publish_snapshot (transition_backoff SocketError rc)))"

definition renew_key :: "mapping_key \<Rightarrow> 'u world \<Rightarrow> 'u world" where
  "renew_key k w =
     (case map_of (rc_mappings (snd w)) k of
        None \<Rightarrow> w
      | Some m \<Rightarrow> send_map_request (am_target m) w)"

definition refresh_due_mappings :: "'u world \<Rightarrow> 'u world" where
  "refresh_due_mappings w =
     (let (io, rc) = w;
          due = filter (\<lambda>k. case map_of (rc_mappings rc) k of Some m \<Rightarrow> am_renew_at m \<le> io_now io | None \<Rightarrow> False)
                  (io_key_order io (map fst (rc_mappings rc)));
          (io', rc') = fold renew_key due w
      in (io', publish_snapshot rc'))"

definition backoff_probe :: "'u world \<Rightarrow> 'u world" where
  "backoff_probe w =
     (let (io, rc) = w;
          saved = table_targets w;
          rc1 = rc\<lparr>rc_mappings := [], rc_nonces := [], rc_consecutive_errors := 0, rc_state := Discovering\<rparr>;
          (io', rc') = reconcile_targets (fold send_map_request saved (io, rc1))
      in (io', rc'\<lparr>rc_backoff_attempt :=
            (if rc_state rc' \<noteq> Backoff then 0
             else min (rc_backoff_attempt rc' + 1) (length BACKOFF_SCHEDULE - 1))\<rparr>))"

definition release_shot :: "active_mapping \<Rightarrow> nat_io \<Rightarrow> nat_io" where
  "release_shot m =
     send_unmap (am_protocol_used m) (am_target m)
       (case am_pcp_nonce m of Some n \<Rightarrow> n | None \<Rightarrow> replicate PCP_NONCE_LEN 0)"

definition release_all :: "'u world \<Rightarrow> 'u world" where
  "release_all w =
     (let (io, rc) = w; ms = map snd (rc_mappings rc) in
      if ms = [] \<or> \<not> rc_rpc_socket rc then w
      else (fold release_shot ms io, rc\<lparr>rc_mappings := [], rc_nonces := []\<rparr>))"

definition compute_next_tick :: "nat \<Rightarrow> 'u reconciler \<Rightarrow> nat" where
  "compute_next_tick now rc =
     (case rc_state rc of
        Discovering \<Rightarrow> now + 2000
      | Active \<Rightarrow>
          (case map (am_renew_at \<circ> snd) (rc_mappings rc) of
             [] \<Rightarrow> now + 60000
           | x # xs \<Rightarrow> fold min xs x)
      | Backoff \<Rightarrow>
          now + (if rc_backoff_attempt rc < length BACKOFF_SCHEDULE
                 then BACKOFF_SCHEDULE ! rc_backoff_attempt rc else last BACKOFF_SCHEDULE)
      | Disabled \<Rightarrow> now + 3600000)"

section \<open>The task\<close>

text \<open>
  One turn of the event loop: either the rule-set watch changes \<open>d\<close> milliseconds after the turn
  began, or the timer computed at its start fires. The loop ends with the release pass, on
  shutdown or when the watch closes.
\<close>

datatype 'u mapper_event = RulesChanged nat "'u rule_set" | Tick

definition on_tick :: "'u world \<Rightarrow> 'u world" where
  "on_tick w =
     (case rc_state (snd w) of
        Discovering \<Rightarrow> reconcile_targets w
      | Active \<Rightarrow> refresh_due_mappings w
      | Backoff \<Rightarrow> backoff_probe w
      | Disabled \<Rightarrow> w)"

fun mapper_step :: "'u world \<Rightarrow> 'u mapper_event \<Rightarrow> 'u world" where
  "mapper_step (io, rc) (RulesChanged d rs) = reconcile_targets (io_wait d io, rc\<lparr>rc_rule_set := rs\<rparr>)"
| "mapper_step (io, rc) Tick = on_tick (io\<lparr>io_now := max (io_now io) (compute_next_tick (io_now io) rc)\<rparr>, rc)"

definition mapper_start :: "'u world \<Rightarrow> 'u world" where
  "mapper_start w =
     (let (ok, io, rc) = ensure_rpc_socket w
      in reconcile_targets (io, if ok then rc else transition_backoff SocketError rc))"

definition mapper_run :: "'u world \<Rightarrow> 'u mapper_event list \<Rightarrow> 'u world" where
  "mapper_run w es = run mapper_step (mapper_start w) es"

datatype mapper_spawn_error = MapperDisabled | Discovery discovery_error

record 'u nat_mapper_params =
  np_mode :: nat_traversal_mode
  np_accept_listen :: "socket_addr option"
  np_rule_set :: "'u rule_set"
  np_https_listen :: socket_addr
  np_https_http3 :: bool
  np_gateway_override :: "gateway option"
  np_shutdown_release_timeout :: "nat option"

definition mapper_spawn :: "'u nat_mapper_params \<Rightarrow> discovery_error + gateway \<Rightarrow> mapper_spawn_error + 'u reconciler" where
  "mapper_spawn p discovered =
     (if np_mode p = ModeOff then Inl MapperDisabled
      else rbind (case np_gateway_override p of
                    Some g \<Rightarrow> Inr g
                  | None \<Rightarrow> map_err Discovery discovered) (\<lambda>gw.
        Inr (reconciler_new (np_mode p) gw (np_accept_listen p) (np_https_listen p) (np_https_http3 p)
               (np_rule_set p)
               \<lparr>ns_mode = np_mode p, ns_state = Discovering, ns_gateway = Some (gw_addr gw),
                ns_external_ip = None, ns_protocol = None, ns_active_mappings = [],
                ns_last_error = None\<rparr>
               (case np_shutdown_release_timeout p of
                  Some t \<Rightarrow> t | None \<Rightarrow> DEFAULT_SHUTDOWN_RELEASE_TIMEOUT))))"

section \<open>The invariant of the mapper\<close>

text \<open>The datagrams the mapper may send on behalf of a target: map and release requests.\<close>

definition request_of :: "mapping_target \<Rightarrow> bytes \<Rightarrow> bool" where
  "request_of t b \<longleftrightarrow>
     (\<exists>lifetime\<in>{REQUESTED_LIFETIME_SECS, 0}. \<exists>nonce.
        b = pcp_encode_map_request (pcp_request_for lifetime t nonce)) \<or>
     b = natpmp_encode_map_request (natpmp_request_for REQUESTED_LIFETIME_SECS (mt_internal_port t) t) \<or>
     b = natpmp_encode_map_request (natpmp_request_for 0 0 t)"

definition fair_io :: "nat_io \<Rightarrow> bool" where
  "fair_io io \<longleftrightarrow>
     (\<forall>ts. mset (io_order io ts) = mset ts) \<and> (\<forall>ks. mset (io_key_order io ks) = mset ks) \<and>
     (\<forall>n. length (io_nonce io n) = PCP_NONCE_LEN)"

definition same_inputs :: "nat_io \<Rightarrow> nat_io \<Rightarrow> bool" where
  "same_inputs io io' \<longleftrightarrow>
     io_link io' = io_link io \<and> io_bind_ok io' = io_bind_ok io \<and> io_nonce io' = io_nonce io \<and>
     io_order io' = io_order io \<and> io_key_order io' = io_key_order io"

definition io_grows :: "mapping_target set \<Rightarrow> nat_io \<Rightarrow> nat_io \<Rightarrow> bool" where
  "io_grows A io io' \<longleftrightarrow>
     same_inputs io io' \<and>
     (\<exists>bs. io_sent io' = io_sent io @ bs \<and> (\<forall>b\<in>set bs. \<exists>t\<in>A. request_of t b))"

lemma io_grows_refl [simp]: "io_grows A io io"
  by (simp add: io_grows_def same_inputs_def)

lemma io_grows_trans: "io_grows A io1 io2 \<Longrightarrow> io_grows A io2 io3 \<Longrightarrow> io_grows A io1 io3"
  unfolding io_grows_def same_inputs_def by force

lemma io_grows_clock [simp]:
  "io_grows A io (io_wait d io') \<longleftrightarrow> io_grows A io io'"
  "io_grows A io (io'\<lparr>io_now := n\<rparr>) \<longleftrightarrow> io_grows A io io'"
  "io_grows A io (io'\<lparr>io_binds := n\<rparr>) \<longleftrightarrow> io_grows A io io'"
  "io_grows A io (io'\<lparr>io_draws := n\<rparr>) \<longleftrightarrow> io_grows A io io'"
  by (simp_all add: io_grows_def io_wait_def same_inputs_def)

lemma fair_io_grows: "io_grows A io io' \<Longrightarrow> fair_io io' \<longleftrightarrow> fair_io io"
  by (simp add: io_grows_def same_inputs_def fair_io_def)

lemma io_send_grows:
  assumes "request_of t b" "t \<in> A"
  shows "io_grows A io (snd (io_send b io))"
  using assms by (auto simp: io_send_def Let_def io_grows_def same_inputs_def)

lemma request_of_intros:
  "request_of t (pcp_encode_map_request (pcp_request_for REQUESTED_LIFETIME_SECS t nonce))"
  "request_of t (pcp_encode_map_request (pcp_request_for 0 t nonce))"
  "request_of t (natpmp_encode_map_request (natpmp_request_for REQUESTED_LIFETIME_SECS (mt_internal_port t) t))"
  "request_of t (natpmp_encode_map_request (natpmp_request_for 0 0 t))"
  by (auto simp: request_of_def)

lemma pcp_attempts_grows:
  assumes "request_of t (pcp_encode_map_request req)" "t \<in> A"
  shows "io_grows A io (snd (pcp_attempts k rt req io))"
proof (induction k arbitrary: rt io)
  case (Suc k)
  obtain x io' where x: "io_send (pcp_encode_map_request req) io = (x, io')" by fastforce
  with io_send_grows [OF assms, of io] have g: "io_grows A io io'" by simp
  have rec: "io_grows A io (snd (pcp_attempts k rt' req (io_wait d io')))" for rt' d
    by (rule io_grows_trans [OF _ Suc.IH]) (simp add: g)
  show ?case using g rec by (simp add: x split: exchange.splits sum.splits)
qed simp

lemma natpmp_attempts_grows:
  assumes "request_of t (natpmp_encode_map_request req)" "t \<in> A"
  shows "io_grows A io (snd (natpmp_attempts k rt req io))"
proof (induction k arbitrary: rt io)
  case (Suc k)
  obtain x io' where x: "io_send (natpmp_encode_map_request req) io = (x, io')" by fastforce
  with io_send_grows [OF assms, of io] have g: "io_grows A io io'" by simp
  have rec: "io_grows A io (snd (natpmp_attempts k rt' req (io_wait d io')))" for rt' d
    by (rule io_grows_trans [OF _ Suc.IH]) (simp add: g)
  show ?case using g rec by (simp add: x split: exchange.splits)
qed simp

lemma try_map_via_grows: "t \<in> A \<Longrightarrow> io_grows A io (snd (try_map_via sock proto t nonce io))"
  by (auto simp: try_map_via_def pcp_rpc_def natpmp_rpc_def case_prod_beta split: nat_protocol.splits
      intro: pcp_attempts_grows [OF request_of_intros(1)] natpmp_attempts_grows [OF request_of_intros(3)])

lemma send_unmap_grows: "t \<in> A \<Longrightarrow> io_grows A io (send_unmap proto t nonce io)"
  by (cases proto) (simp_all add: send_unmap_def io_send_grows [OF request_of_intros(2)] io_send_grows [OF request_of_intros(4)])

text \<open>
  What holds of the task state after every turn: the table is keyed by its own targets, which
  all belong to \<open>A\<close>; renewal is due at half the lifetime; nonces are kept exactly for PCP; the
  protocol in use fits the configured mode; three consecutive errors mean backoff.
\<close>

fun entry_ok :: "mapping_target set \<Rightarrow> mapping_key \<times> active_mapping \<Rightarrow> bool" where
  "entry_ok A (k, m) \<longleftrightarrow>
     am_target m \<in> A \<and> k = target_key (am_target m) \<and>
     am_renew_at m = am_last_renewed m + am_assigned_lifetime m div 2 \<and>
     (am_pcp_nonce m \<noteq> None \<longleftrightarrow> am_protocol_used m = Pcp)"

definition protocol_fits :: "nat_traversal_mode \<Rightarrow> nat_protocol option \<Rightarrow> bool" where
  "protocol_fits md cur =
     (case md of
        ModePcp \<Rightarrow> cur = Some Pcp
      | ModeNatPmp \<Rightarrow> cur = Some NatPmp
      | ModeAuto \<Rightarrow> cur \<noteq> None
      | ModeOff \<Rightarrow> False)"

definition targets_for :: "'u reconciler \<Rightarrow> 'u rule_set \<Rightarrow> mapping_target list" where
  "targets_for rc rs = fst (wanted (rc\<lparr>rc_rule_set := rs\<rparr>))"

definition rc_inv :: "mapping_target set \<Rightarrow> ('u rule_set \<Rightarrow> mapping_target list) \<Rightarrow> 'u reconciler \<Rightarrow> bool" where
  "rc_inv A F rc \<longleftrightarrow>
     distinct (map fst (rc_mappings rc)) \<and> (\<forall>e\<in>set (rc_mappings rc). entry_ok A e) \<and>
     (\<forall>e\<in>set (rc_nonces rc). length (snd e) = PCP_NONCE_LEN) \<and>
     protocol_fits (rc_mode rc) (rc_current_protocol rc) \<and>
     rc_state rc \<noteq> Disabled \<and>
     (ERROR_THRESHOLD_TO_BACKOFF \<le> rc_consecutive_errors rc \<longrightarrow> rc_state rc = Backoff) \<and>
     rc_backoff_attempt rc < length BACKOFF_SCHEDULE \<and>
     targets_for rc = F \<and> set (F (rc_rule_set rc)) \<subseteq> A"

definition ok_world :: "mapping_target set \<Rightarrow> ('u rule_set \<Rightarrow> mapping_target list) \<Rightarrow> nat_io \<Rightarrow> 'u world \<Rightarrow> bool" where
  "ok_world A F io0 w \<longleftrightarrow> io_grows A io0 (fst w) \<and> rc_inv A F (snd w)"

lemma in_update: "e \<in> set (AList.update k v al) \<Longrightarrow> e = (k, v) \<or> e \<in> set al"
  by (induction al) (auto split: if_splits)

lemma in_delete: "e \<in> set (AList.delete k al) \<Longrightarrow> e \<in> set al"
  by (simp add: AList.delete_eq)

lemma targets_for_cong [simp]:
  "targets_for (rc\<lparr>rc_mappings := a\<rparr>) = targets_for rc" "targets_for (rc\<lparr>rc_nonces := b\<rparr>) = targets_for rc"
  "targets_for (rc\<lparr>rc_state := c\<rparr>) = targets_for rc" "targets_for (rc\<lparr>rc_current_protocol := d\<rparr>) = targets_for rc"
  "targets_for (rc\<lparr>rc_last_epoch := e\<rparr>) = targets_for rc" "targets_for (rc\<lparr>rc_external_ip := f\<rparr>) = targets_for rc"
  "targets_for (rc\<lparr>rc_consecutive_errors := g\<rparr>) = targets_for rc" "targets_for (rc\<lparr>rc_seen_skipped := h\<rparr>) = targets_for rc"
  "targets_for (rc\<lparr>rc_backoff_attempt := i\<rparr>) = targets_for rc" "targets_for (rc\<lparr>rc_last_error := j\<rparr>) = targets_for rc"
  "targets_for (rc\<lparr>rc_rpc_socket := k\<rparr>) = targets_for rc" "targets_for (rc\<lparr>rc_snapshot := l\<rparr>) = targets_for rc"
  by (simp_all add: targets_for_def wanted_def fun_eq_iff wanted_https_def)

lemma wanted_targets_for: "targets_for rc (rc_rule_set rc) = fst (wanted rc)"
  by (simp add: targets_for_def)

lemma new_mapping_ok: "t \<in> A \<Longrightarrow> entry_ok A (target_key t, new_mapping proto t nonce ack now)"
  by (simp add: new_mapping_def Let_def)

lemma rc_inv_insert:
  assumes "rc_inv A F rc" "t \<in> A"
  shows "rc_inv A F (rc\<lparr>rc_mappings := AList.update (target_key t) (new_mapping proto t nonce ack now) (rc_mappings rc)\<rparr>)"
  using assms new_mapping_ok [of t A]
  by (auto simp: rc_inv_def distinct_update dest!: in_update simp del: entry_ok.simps)

lemma nonce_for_ok:
  assumes "ok_world A F io0 w" "fair_io io0"
  shows "ok_world A F io0 (snd (nonce_for k w)) \<and> length (fst (nonce_for k w)) = PCP_NONCE_LEN"
proof -
  have "fair_io (fst w)" using assms fair_io_grows ok_world_def by metis
  then show ?thesis
    using assms(1)
    by (auto simp: nonce_for_def ok_world_def draw_nonce_def rc_inv_def fair_io_def
        case_prod_beta split: option.splits dest!: in_update map_of_SomeD)
qed

lemma send_map_request_inline_ok:
  assumes "ok_world A F io0 w" "fair_io io0" "t \<in> A"
  shows "ok_world A F io0 (send_map_request_inline t w)"
proof -
  obtain nonce io rc where n: "nonce_for (target_key t) w = (nonce, io, rc)" by (metis prod_cases3)
  have ok: "io_grows A io0 io" "rc_inv A F rc"
    using nonce_for_ok [OF assms(1,2), of "target_key t"] by (simp_all add: n ok_world_def)
  let ?p = "case rc_current_protocol rc of Some p \<Rightarrow> p | None \<Rightarrow> Pcp"
  obtain r io' where r: "try_map_via (rc_rpc_socket rc) ?p t nonce io = (r, io')" by fastforce
  with try_map_via_grows [OF assms(3), of io "rc_rpc_socket rc" ?p nonce]
  have "io_grows A io0 io'" by (metis io_grows_trans ok(1) snd_conv)
  then show ?thesis
    using ok(2) rc_inv_insert [OF ok(2) assms(3)]
    by (auto simp: send_map_request_inline_def n r ok_world_def Let_def split: sum.splits)
qed

lemma fold_ok_world:
  assumes "\<And>x w. x \<in> set xs \<Longrightarrow> ok_world A F io0 w \<Longrightarrow> ok_world A F io0 (f x w)" "ok_world A F io0 w"
  shows "ok_world A F io0 (fold f xs w)"
  using assms by (induction xs arbitrary: w) auto

lemma table_targets_in: "rc_inv A F (snd w) \<Longrightarrow> set (table_targets w) \<subseteq> A"
  by (fastforce simp: table_targets_def map_filter_def case_prod_beta rc_inv_def dest!: map_of_SomeD)

lemma ok_world_pair [simp]: "ok_world A F io0 (io, rc) \<longleftrightarrow> io_grows A io0 io \<and> rc_inv A F rc"
  by (simp add: ok_world_def)

lemma note_epoch_ok:
  assumes "ok_world A F io0 w" "fair_io io0"
  shows "ok_world A F io0 (note_epoch e w)"
proof -
  obtain io rc where w: "w = (io, rc)" by fastforce
  have ts: "set (table_targets w) \<subseteq> A" using assms(1) table_targets_in ok_world_def by blast
  have "ok_world A F io0 (io, rc\<lparr>rc_last_epoch := Some e, rc_mappings := [], rc_nonces := []\<rparr>)"
    and "ok_world A F io0 (io, rc\<lparr>rc_last_epoch := Some e\<rparr>)"
    using assms(1) by (simp_all add: w rc_inv_def)
  moreover from this(1) have
    "ok_world A F io0 (fold send_map_request_inline (table_targets w)
       (io, rc\<lparr>rc_last_epoch := Some e, rc_mappings := [], rc_nonces := []\<rparr>))"
    using ts assms(2) by (blast intro: fold_ok_world send_map_request_inline_ok)
  ultimately show ?thesis
    by (simp add: note_epoch_def w Let_def del: ok_world_pair split: option.splits)
qed

lemma inline_mode: "rc_mode (snd (send_map_request_inline t w)) = rc_mode (snd w)"
  by (auto simp: send_map_request_inline_def nonce_for_def draw_nonce_def Let_def case_prod_beta
      split: sum.splits option.splits)

lemma fold_inline_mode: "rc_mode (snd (fold send_map_request_inline ts w)) = rc_mode (snd w)"
  by (induction ts arbitrary: w) (simp_all add: inline_mode)

lemma note_epoch_mode: "rc_mode (snd (note_epoch e w)) = rc_mode (snd w)"
  by (simp add: note_epoch_def case_prod_beta Let_def fold_inline_mode split: option.splits)

lemma establish_ok:
  assumes "ok_world A F io0 w" "fair_io io0" "t \<in> A" "protocol_fits (rc_mode (snd w)) (Some proto)"
  shows "ok_world A F io0 (establish proto t nonce ack e w)"
proof -
  obtain io rc where w': "note_epoch e w = (io, rc)" by fastforce
  with note_epoch_ok [OF assms(1,2), of e] have g: "io_grows A io0 io" "rc_inv A F rc"
    by (simp_all add: ok_world_def)
  moreover have "protocol_fits (rc_mode rc) (Some proto)"
    using assms(4) note_epoch_mode [of e w] by (simp add: w')
  ultimately show ?thesis
    using rc_inv_insert [OF g(2) assms(3), of proto nonce ack "io_now io"]
    by (auto simp: establish_def w' ok_world_def rc_inv_def ERROR_THRESHOLD_TO_BACKOFF_def BACKOFF_SCHEDULE_def
        split: option.splits)
qed

lemma map_failed_ok: "rc_inv A F rc \<Longrightarrow> rc_inv A F (map_failed k err rc)"
  by (auto simp: rc_inv_def map_failed_def transition_backoff_def Let_def distinct_delete
      dest!: in_delete)

lemma map_attempts_ok:
  assumes "ok_world A F io0 w" "fair_io io0" "t \<in> A"
    and "\<forall>p\<in>set ps. protocol_fits (rc_mode (snd w)) (Some p)"
  shows "ok_world A F io0 (map_attempts ps t nonce err w)"
  using assms
proof (induction ps t nonce err w rule: map_attempts.induct)
  case (1 t nonce err io rc)
  then show ?case by (auto simp: ok_world_def map_failed_ok split: option.splits)
next
  case (2 proto ps t nonce err io rc)
  obtain r io' where r: "try_map_via (rc_rpc_socket rc) proto t nonce io = (r, io')" by fastforce
  have g: "io_grows A io0 io'" and rc: "rc_inv A F rc"
    using try_map_via_grows [OF 2(4), of io "rc_rpc_socket rc" proto nonce] 2(2)
    by (auto simp: r ok_world_def intro: io_grows_trans)
  show ?case
  proof (cases r)
    case (Inr x)
    then show ?thesis using 2(3-5) g rc r
      by (cases x) (simp add: establish_ok)
  next
    case (Inl e)
    have "ok_world A F io0 (map_attempts ps t nonce (Some e) (io', rc))"
      if "rc_mode rc = ModeAuto \<and> proto = Pcp \<and> rpc_should_fall_back e"
      using 2(1) [OF r [symmetric] Inl that] 2(3-5) g rc by (simp add: ok_world_def)
    then show ?thesis using r Inl g map_failed_ok [OF rc] by (simp add: ok_world_def)
  qed
qed

lemma protocols_to_try_fit:
  "protocol_fits (rc_mode rc) (rc_current_protocol rc) \<Longrightarrow> p \<in> set (protocols_to_try rc) \<Longrightarrow>
     protocol_fits (rc_mode rc) (Some p)"
  by (auto simp: protocols_to_try_def protocol_fits_def split: nat_traversal_mode.splits if_splits)

lemma send_map_request_ok:
  assumes "ok_world A F io0 w" "fair_io io0" "t \<in> A"
  shows "ok_world A F io0 (send_map_request t w)"
proof -
  have ok: "ok_world A F io0 (snd (nonce_for (target_key t) w))"
    using nonce_for_ok [OF assms(1,2)] by simp
  then have "\<forall>p\<in>set (protocols_to_try (snd (snd (nonce_for (target_key t) w)))).
    protocol_fits (rc_mode (snd (snd (nonce_for (target_key t) w)))) (Some p)"
    by (auto simp: ok_world_def rc_inv_def intro: protocols_to_try_fit)
  with map_attempts_ok [OF ok assms(2,3)] show ?thesis
    by (simp add: send_map_request_def case_prod_beta Let_def)
qed

lemma release_one_ok:
  assumes "ok_world A F io0 w" "am_target m \<in> A"
  shows "ok_world A F io0 (release_one m w)"
proof -
  have "rc_inv A F ((snd w)\<lparr>rc_nonces := AList.delete k (rc_nonces (snd w))\<rparr>)" for k
    using assms(1) by (auto simp: ok_world_def rc_inv_def dest!: in_delete)
  moreover have "io_grows A io0 (send_unmap p (am_target m) n (fst w))" for p n
    using assms send_unmap_grows by (metis io_grows_trans ok_world_def)
  ultimately show ?thesis using assms(1)
    by (simp add: release_one_def case_prod_beta Let_def) (simp add: ok_world_def)
qed

lemma drop_key_ok: "ok_world A F io0 w \<Longrightarrow> ok_world A F io0 (drop_key k w)"
proof (cases "map_of (rc_mappings (snd w)) k")
  case (Some m)
  assume ok: "ok_world A F io0 w"
  have "entry_ok A (k, m)" using ok map_of_SomeD [OF Some] by (auto simp: ok_world_def rc_inv_def)
  moreover have "ok_world A F io0 (fst w, (snd w)\<lparr>rc_mappings := AList.delete k (rc_mappings (snd w))\<rparr>)"
    using ok by (auto simp: ok_world_def rc_inv_def distinct_delete dest!: in_delete)
  ultimately show ?thesis using Some by (simp add: drop_key_def release_one_ok)
qed (simp add: drop_key_def)

lemma publish_ok [simp]: "rc_inv A F (publish_snapshot rc) \<longleftrightarrow> rc_inv A F rc"
  by (simp add: publish_snapshot_def rc_inv_def)

lemma backoff_ok: "rc_inv A F rc \<Longrightarrow> rc_inv A F (transition_backoff e rc)"
  by (simp add: transition_backoff_def rc_inv_def)

lemma ensure_rpc_socket_ok:
  "ok_world A F io0 w \<Longrightarrow> ok_world A F io0 (snd (ensure_rpc_socket w))"
  by (auto simp: ensure_rpc_socket_def case_prod_beta Let_def ok_world_def rc_inv_def)

lemma foldl_first_in:
  "set (map snd (foldl (\<lambda>m t. if map_of m (target_key t) = None then m @ [(target_key t, t)] else m) m ts))
     \<subseteq> set (map snd m) \<union> set ts"
proof (induction ts arbitrary: m)
  case (Cons t ts)
  show ?case using Cons [of "if map_of m (target_key t) = None then m @ [(target_key t, t)] else m"]
    by (auto split: if_splits)
qed simp

lemma desired_in: "map_of (desired_by_key ts) k = Some t \<Longrightarrow> t \<in> set ts"
  using foldl_first_in [of "[]" ts] by (force simp: desired_by_key_def dest: map_of_SomeD)

lemma publish_world: "ok_world A F io0 w \<Longrightarrow> ok_world A F io0 (apsnd publish_snapshot w)"
  by (simp add: ok_world_def)

lemma wanted_by_key_in:
  assumes "ok_world A F io0 w" "fair_io io0" "map_of (wanted_by_key w) k = Some t"
  shows "t \<in> A"
proof -
  have "fair_io (fst w)" using assms fair_io_grows ok_world_def by metis
  then have "set (io_order (fst w) (fst (wanted (snd w)))) = set (fst (wanted (snd w)))"
    by (metis fair_io_def set_mset_mset)
  moreover have "set (fst (wanted (snd w))) \<subseteq> A"
    using assms(1) wanted_targets_for by (metis ok_world_def rc_inv_def)
  ultimately show ?thesis using desired_in [OF assms(3) [unfolded wanted_by_key_def]] by blast
qed

lemma drop_unwanted_ok: "ok_world A F io0 w \<Longrightarrow> ok_world A F io0 (drop_unwanted d w)"
  unfolding drop_unwanted_def by (rule fold_ok_world) (simp_all add: drop_key_ok)

lemma add_missing_ok:
  assumes "ok_world A F io0 w" "fair_io io0" "\<And>k t. map_of d k = Some t \<Longrightarrow> t \<in> A"
  shows "ok_world A F io0 (add_missing d w)"
  unfolding add_missing_def using assms
  by (intro fold_ok_world send_map_request_ok) (auto simp: map_filter_def)

lemma reconcile_with_socket_ok:
  assumes "ok_world A F io0 w" "fair_io io0"
  shows "ok_world A F io0 (reconcile_with_socket w)"
proof -
  have "ok_world A F io0 (apsnd (note_skipped (snd (wanted (snd w)))) w)"
    using assms(1) by (simp add: ok_world_def rc_inv_def note_skipped_def)
  then show ?thesis
    unfolding reconcile_with_socket_def
    by (intro publish_world add_missing_ok drop_unwanted_ok assms(2) wanted_by_key_in [OF assms])
qed

lemma reconcile_targets_ok:
  assumes "ok_world A F io0 w" "fair_io io0"
  shows "ok_world A F io0 (reconcile_targets w)"
  using ensure_rpc_socket_ok [OF assms(1)]
  by (auto simp: reconcile_targets_def backoff_ok reconcile_with_socket_ok [OF _ assms(2)]
      split: prod.splits bool.splits)

lemma renew_key_ok:
  assumes "ok_world A F io0 w" "fair_io io0"
  shows "ok_world A F io0 (renew_key k w)"
proof (cases "map_of (rc_mappings (snd w)) k")
  case (Some m)
  then have "am_target m \<in> A" using assms(1) by (force simp: ok_world_def rc_inv_def dest: map_of_SomeD)
  with Some assms show ?thesis by (simp add: renew_key_def send_map_request_ok)
qed (use assms in \<open>simp add: renew_key_def\<close>)

lemma refresh_due_mappings_ok:
  assumes "ok_world A F io0 w" "fair_io io0"
  shows "ok_world A F io0 (refresh_due_mappings w)"
proof -
  have "ok_world A F io0 (fold renew_key ks w)" for ks
    using assms by (intro fold_ok_world renew_key_ok)
  then show ?thesis
    by (simp add: refresh_due_mappings_def case_prod_beta Let_def del: ok_world_pair) (simp add: ok_world_def)
qed

lemma backoff_probe_ok:
  assumes "ok_world A F io0 w" "fair_io io0"
  shows "ok_world A F io0 (backoff_probe w)"
proof -
  obtain io rc where w: "w = (io, rc)" by fastforce
  let ?w1 = "(io, rc\<lparr>rc_mappings := [], rc_nonces := [], rc_consecutive_errors := 0, rc_state := Discovering\<rparr>)"
  have "ok_world A F io0 ?w1"
    using assms(1) by (simp add: w rc_inv_def ERROR_THRESHOLD_TO_BACKOFF_def)
  moreover have "set (table_targets w) \<subseteq> A" using assms(1) table_targets_in ok_world_def by blast
  ultimately have "ok_world A F io0 (fold send_map_request (table_targets w) ?w1)"
    using assms(2) by (blast intro: fold_ok_world send_map_request_ok)
  then have "ok_world A F io0 (reconcile_targets (fold send_map_request (table_targets w) ?w1))"
    by (rule reconcile_targets_ok [OF _ assms(2)])
  then show ?thesis
    by (auto simp: backoff_probe_def w case_prod_beta Let_def ok_world_def rc_inv_def BACKOFF_SCHEDULE_def)
qed

lemma release_all_ok:
  assumes "ok_world A F io0 w"
  shows "ok_world A F io0 (release_all w)"
proof -
  have "io_grows A io0 (fold release_shot ms io)"
    if "\<forall>m\<in>set ms. am_target m \<in> A" "io_grows A io0 io" for ms io
    using that
  proof (induction ms arbitrary: io)
    case (Cons m ms)
    have "io_grows A io (release_shot m io)"
      using Cons.prems by (simp add: release_shot_def send_unmap_grows)
    then have "io_grows A io0 (release_shot m io)" using Cons.prems(2) io_grows_trans by blast
    then show ?case using Cons by simp
  qed simp
  moreover have "\<forall>m\<in>set (map snd (rc_mappings (snd w))). am_target m \<in> A"
    using assms by (auto simp: ok_world_def rc_inv_def)
  ultimately show ?thesis
    using assms by (auto simp: release_all_def case_prod_beta Let_def ok_world_def rc_inv_def)
qed

fun seen_rules :: "'u mapper_event list \<Rightarrow> 'u rule_set list" where
  "seen_rules [] = []"
| "seen_rules (RulesChanged _ rs # es) = rs # seen_rules es"
| "seen_rules (Tick # es) = seen_rules es"

lemma mapper_step_ok:
  assumes "ok_world A F io0 w" "fair_io io0" "set (seen_rules [e]) \<subseteq> {rs. set (F rs) \<subseteq> A}"
  shows "ok_world A F io0 (mapper_step w e)"
proof (cases e)
  case (RulesChanged d rs)
  obtain io rc where w: "w = (io, rc)" by fastforce
  have "targets_for (rc\<lparr>rc_rule_set := rs\<rparr>) = targets_for rc"
    by (simp add: targets_for_def fun_eq_iff)
  then have "ok_world A F io0 (io_wait d io, rc\<lparr>rc_rule_set := rs\<rparr>)"
    using assms(1,3) by (simp add: w rc_inv_def RulesChanged)
  then show ?thesis by (simp add: w RulesChanged reconcile_targets_ok [OF _ assms(2)])
next
  case Tick
  obtain io rc where w: "w = (io, rc)" by fastforce
  have "ok_world A F io0 (io\<lparr>io_now := max (io_now io) (compute_next_tick (io_now io) rc)\<rparr>, rc)"
    using assms(1) by (simp add: w)
  from reconcile_targets_ok [OF this assms(2)] refresh_due_mappings_ok [OF this assms(2)]
    backoff_probe_ok [OF this assms(2)] this
  show ?thesis by (simp add: w Tick on_tick_def del: ok_world_pair split: nat_state.splits)
qed

lemma mapper_run_ok:
  assumes "ok_world A F io0 w" "fair_io io0" "set (seen_rules es) \<subseteq> {rs. set (F rs) \<subseteq> A}"
  shows "ok_world A F io0 (mapper_run w es)"
proof -
  obtain ok io rc where e: "ensure_rpc_socket w = (ok, io, rc)" by (metis prod_cases3)
  have "ok_world A F io0 (io, if ok then rc else transition_backoff SocketError rc)"
    using ensure_rpc_socket_ok [OF assms(1)] by (simp add: e backoff_ok)
  then have start: "ok_world A F io0 (mapper_start w)"
    by (simp add: mapper_start_def e reconcile_targets_ok [OF _ assms(2)] del: ok_world_pair)
  have "ok_world A F io0 (run mapper_step w' es)"
    if "ok_world A F io0 w'" "set (seen_rules es) \<subseteq> {rs. set (F rs) \<subseteq> A}" for w' es
    using that
  proof (induction es arbitrary: w')
    case (Cons e es)
    have "set (seen_rules [e]) \<union> set (seen_rules es) = set (seen_rules (e # es))" by (cases e) auto
    with Cons.prems(2) have "set (seen_rules [e]) \<subseteq> {rs. set (F rs) \<subseteq> A}"
      and es: "set (seen_rules es) \<subseteq> {rs. set (F rs) \<subseteq> A}" by blast+
    then have "ok_world A F io0 (mapper_step w' e)"
      using mapper_step_ok [OF Cons.prems(1) assms(2)] by blast
    from Cons.IH [OF this es] show ?case by simp
  qed simp
  with start assms(3) show ?thesis unfolding mapper_run_def by blast
qed

lemma mapper_spawn_ok:
  assumes "mapper_spawn p disc = Inr rc" "io_sent io = []"
    "set (targets_for rc (np_rule_set p)) \<subseteq> A"
  shows "ok_world A (targets_for rc) io (io, rc)"
proof -
  have "rc_rule_set rc = np_rule_set p" "rc_mappings rc = []" "rc_nonces rc = []" "rc_state rc = Discovering"
    "rc_consecutive_errors rc = 0" "rc_backoff_attempt rc = 0" "protocol_fits (rc_mode rc) (rc_current_protocol rc)"
    using assms(1)
    by (auto simp: mapper_spawn_def reconciler_new_def protocol_fits_def split: if_splits nat_traversal_mode.splits)
  with assms(3) show ?thesis
    by (simp add: rc_inv_def ERROR_THRESHOLD_TO_BACKOFF_def BACKOFF_SCHEDULE_def)
qed

text \<open>
  Every target comes from a configured IPv4 listener: it has the listener's port, or port 80 for the
  redirect beside the HTTPS listener, and the listener's address when that is a private one. For a
  listener on the unspecified address it has the source address that discovery reports, as it is.
\<close>

definition listeners :: "'u reconciler \<Rightarrow> 'u rule_set \<Rightarrow> socket_addr set" where
  "listeners rc rs =
     listen ` set (rules rs) \<union> (if routes rs = [] then {} else {rc_https_listen rc}) \<union> set_option (rc_accept_listen rc)"

definition target_of :: "u32 \<Rightarrow> socket_addr \<Rightarrow> mapping_target \<Rightarrow> bool" where
  "target_of local_source sa t \<longleftrightarrow>
     (\<exists>v4. sa_ip sa = V4 v4 \<and>
        (mt_internal_port t = sa_port sa \<or>
         mt_origin t = HttpsRedirect (V4 v4) \<and> mt_protocol t = MapTcp \<and> mt_internal_port t = 80) \<and>
        (v4 = 0 \<and> mt_internal_addr t = local_source \<or> is_rfc1918_or_cgnat v4 \<and> mt_internal_addr t = v4))"

definition from_listeners :: "u32 \<Rightarrow> socket_addr set \<Rightarrow> enumeration \<Rightarrow> bool" where
  "from_listeners src L acc \<longleftrightarrow> (\<forall>t\<in>set (fst acc). \<exists>sa\<in>L. target_of src sa t)"

lemma filter_bind_ip_Keep:
  "filter_bind_ip ip = Keep v4 \<longleftrightarrow>
     ip = V4 v4 \<and> \<not> v4_is_loopback v4 \<and> \<not> v4_is_link_local v4 \<and> (v4 = 0 \<or> is_rfc1918_or_cgnat v4)"
  by (cases ip) (auto split: if_splits)

lemma target_ofI:
  assumes "filter_bind_ip (sa_ip sa) = Keep v4" "mt_internal_addr t = resolve_internal src v4"
    "mt_internal_port t = sa_port sa \<or>
     mt_origin t = HttpsRedirect (V4 v4) \<and> mt_protocol t = MapTcp \<and> mt_internal_port t = 80"
  shows "target_of src sa t"
  using assms by (auto simp: target_of_def filter_bind_ip_Keep resolve_internal_def)

lemma enumerate_rule_from:
  assumes "from_listeners src L acc" "listen r \<in> L"
  shows "from_listeners src L (enumerate_rule src acc r)"
  using assms
  by (auto simp: from_listeners_def enumerate_rule_def Let_def split: filter_decision.splits protocol.splits
      intro!: bexI [of _ "listen r"] target_ofI)

lemma foldl_rule_from:
  "from_listeners src L acc \<Longrightarrow> listen ` set rs \<subseteq> L \<Longrightarrow> from_listeners src L (foldl (enumerate_rule src) acc rs)"
  by (induction rs arbitrary: acc) (simp_all add: enumerate_rule_from)

lemma enumerate_https_from:
  assumes "from_listeners src L acc" "ht_listen ` set_option h \<subseteq> L"
  shows "from_listeners src L (foldl (enumerate_redirect src) (fst (enumerate_https src h acc)) (snd (enumerate_https src h acc)))"
proof (cases h)
  case (Some t)
  then have l: "ht_listen t \<in> L" using assms(2) by simp
  show ?thesis
  proof (cases "filter_bind_ip (sa_ip (ht_listen t))")
    case (Keep v4)
    then have "filter_bind_ip (V4 v4) = Keep v4" by (simp add: filter_bind_ip_Keep)
    with Keep Some l assms(1) show ?thesis
      by (auto simp: from_listeners_def enumerate_https_def enumerate_redirect_def Let_def
          intro!: bexI [OF target_ofI l])
  qed (use Some assms(1) in \<open>simp add: from_listeners_def enumerate_https_def\<close>)
qed (use assms(1) in \<open>simp add: enumerate_https_def\<close>)

lemma enumerate_accept_from:
  assumes "from_listeners src L acc" "set_option a \<subseteq> L"
  shows "from_listeners src L (enumerate_accept src a acc)"
proof (cases a)
  case (Some sa)
  show ?thesis
  proof (cases "filter_bind_ip (sa_ip sa)")
    case (Keep v4)
    with Some assms show ?thesis
      by (auto simp: from_listeners_def enumerate_accept_def filter_bind_ip_Keep resolve_internal_def target_of_def
          split: ip_addr.splits filter_decision.splits if_splits intro!: bexI [of _ sa])
  qed (use Some assms(1) in \<open>auto simp: from_listeners_def enumerate_accept_def split: ip_addr.splits\<close>)
qed (use assms(1) in \<open>simp add: enumerate_accept_def\<close>)

lemma targets_for_listeners:
  assumes "t \<in> set (targets_for rc rs)"
  shows "\<exists>sa\<in>listeners rc rs. target_of (gw_local_source (rc_gateway rc)) sa t"
proof -
  let ?src = "gw_local_source (rc_gateway rc)" and ?L = "listeners rc rs"
  have "from_listeners ?src ?L (foldl (enumerate_rule ?src) ([], []) (rules rs))"
    by (rule foldl_rule_from) (auto simp: from_listeners_def listeners_def)
  note h = enumerate_https_from [OF this, of "wanted_https (rc\<lparr>rc_rule_set := rs\<rparr>)"]
  have "from_listeners ?src ?L (wanted (rc\<lparr>rc_rule_set := rs\<rparr>))"
    unfolding wanted_def enumerate_targets_def Let_def case_prod_beta
    using enumerate_accept_from [OF h, of "rc_accept_listen rc"]
    by (simp add: listeners_def wanted_https_def)
  with assms show ?thesis by (simp add: from_listeners_def targets_for_def)
qed

section \<open>A cooperative gateway\<close>

definition map_request_bytes :: "nat_protocol \<Rightarrow> mapping_target \<Rightarrow> bytes \<Rightarrow> bytes" where
  "map_request_bytes p t nonce =
     (case p of
        Pcp \<Rightarrow> pcp_encode_map_request (pcp_request_for REQUESTED_LIFETIME_SECS t nonce)
      | NatPmp \<Rightarrow> natpmp_encode_map_request (natpmp_request_for REQUESTED_LIFETIME_SECS (mt_internal_port t) t))"

definition granted :: "nat_protocol \<Rightarrow> bytes \<Rightarrow> bytes \<Rightarrow> bool" where
  "granted p nonce buf \<longleftrightarrow>
     (case p of
        Pcp \<Rightarrow> \<exists>r. pcp_decode_map_response buf = Inr r \<and> pr_result_code r = PcpSuccess \<and> pr_nonce r = nonce
      | NatPmp \<Rightarrow> \<exists>r. natpmp_decode_map_response buf = Inr r \<and> nr_result_code r = PmpSuccess)"

definition grants :: "nat_protocol \<Rightarrow> nat_io \<Rightarrow> bool" where
  "grants p io \<longleftrightarrow>
     (\<forall>n t nonce. length nonce = PCP_NONCE_LEN \<longrightarrow>
        (\<exists>d buf. io_link io n (map_request_bytes p t nonce) = Reply d buf \<and> length buf \<le> RPC_RECV_BUF \<and>
           granted p nonce buf))"

lemma retries_Suc: "RPC_MAX_RETRIES = Suc (Suc (Suc 0))"
  by (simp add: RPC_MAX_RETRIES_def)

lemma granted_exchange:
  assumes "grants p io" "length nonce = PCP_NONCE_LEN"
  shows "\<exists>ack e io'. try_map_via True p t nonce io = (Inr (ack, e), io')"
proof -
  obtain d buf where l: "io_link io (io_sends io) (map_request_bytes p t nonce) = Reply d buf"
    and b: "length buf \<le> RPC_RECV_BUF" "granted p nonce buf"
    using assms unfolding grants_def by blast
  have "take RPC_RECV_BUF buf = buf" using b(1) by simp
  with l b(2) show ?thesis
    by (cases p)
      (auto simp: try_map_via_def pcp_rpc_def natpmp_rpc_def retries_Suc io_send_def map_request_bytes_def
        granted_def pcp_request_for_def Let_def)
qed

definition mkeys :: "'u reconciler \<Rightarrow> mapping_key set" where
  "mkeys rc = fst ` set (rc_mappings rc)"

lemma mkeys_simps [simp]:
  "mkeys (rc\<lparr>rc_mappings := AList.update k v al\<rparr>) = insert k (fst ` set al)"
  "mkeys (rc\<lparr>rc_mappings := []\<rparr>) = {}"
  "mkeys (rc\<lparr>rc_mappings := AList.delete k al\<rparr>) = fst ` set al - {k}"
  by (auto simp: mkeys_def dom_update AList.delete_eq)

definition live ::
  "nat_protocol \<Rightarrow> mapping_target set \<Rightarrow> ('u rule_set \<Rightarrow> mapping_target list) \<Rightarrow> nat_io \<Rightarrow> 'u world \<Rightarrow> bool" where
  "live p A F io0 w \<longleftrightarrow>
     ok_world A F io0 w \<and> rc_rpc_socket (snd w) \<and> rc_current_protocol (snd w) = Some p"

lemma grants_grows: "io_grows A io0 io \<Longrightarrow> grants p io \<longleftrightarrow> grants p io0"
  by (simp add: io_grows_def same_inputs_def grants_def)

lemma nonce_for_frame:
  "rc_rpc_socket (snd (snd (nonce_for k w))) = rc_rpc_socket (snd w)"
  "rc_current_protocol (snd (snd (nonce_for k w))) = rc_current_protocol (snd w)"
  "rc_mappings (snd (snd (nonce_for k w))) = rc_mappings (snd w)"
  "rc_mode (snd (snd (nonce_for k w))) = rc_mode (snd w)"
  by (auto simp: nonce_for_def draw_nonce_def case_prod_beta split: option.splits)

lemma inline_live:
  assumes "live p A F io0 w" "fair_io io0" "grants p io0" "t \<in> A"
  shows "live p A F io0 (send_map_request_inline t w) \<and>
    mkeys (snd (send_map_request_inline t w)) = insert (target_key t) (mkeys (snd w))"
proof -
  have ok: "ok_world A F io0 w" using assms(1) by (simp add: live_def)
  obtain nonce io rc where n: "nonce_for (target_key t) w = (nonce, io, rc)" by (metis prod_cases3)
  have len: "length nonce = PCP_NONCE_LEN" and g: "io_grows A io0 io"
    using nonce_for_ok [OF ok assms(2), of "target_key t"] by (simp_all add: n)
  have fr: "rc_rpc_socket rc" "rc_current_protocol rc = Some p" "rc_mappings rc = rc_mappings (snd w)"
    using nonce_for_frame [of "target_key t" w] assms(1) by (simp_all add: n live_def)
  obtain ack e io' where x: "try_map_via True p t nonce io = (Inr (ack, e), io')"
    using granted_exchange [OF _ len] assms(3) grants_grows [OF g] by blast
  show ?thesis
    using send_map_request_inline_ok [OF ok assms(2,4)] fr
    by (auto simp: live_def send_map_request_inline_def n x Let_def mkeys_def dom_update)
qed

lemma fold_inline_live:
  assumes "live p A F io0 w" "fair_io io0" "grants p io0" "set ts \<subseteq> A"
  shows "live p A F io0 (fold send_map_request_inline ts w) \<and>
    mkeys (snd (fold send_map_request_inline ts w)) = target_key ` set ts \<union> mkeys (snd w)"
  using assms(1,4)
proof (induction ts arbitrary: w)
  case (Cons t ts)
  from Cons.prems have t: "t \<in> A" by simp
  note i = inline_live [OF Cons.prems(1) assms(2,3) t]
  show ?case using Cons.IH [of "send_map_request_inline t w"] i Cons.prems(2) by auto
qed simp

lemma table_targets_keys:
  assumes "rc_inv A F (snd w)" "fair_io (fst w)"
  shows "target_key ` set (table_targets w) = mkeys (snd w)"
proof -
  have o: "set (io_key_order (fst w) ks) = set ks" for ks
    using assms(2) by (metis fair_io_def set_mset_mset)
  have "target_key (am_target m) = k" if "map_of (rc_mappings (snd w)) k = Some m" for k m
    using assms(1) map_of_SomeD [OF that] by (auto simp: rc_inv_def)
  moreover have "k \<in> mkeys (snd w) \<longleftrightarrow> (\<exists>m. map_of (rc_mappings (snd w)) k = Some m)" for k
    by (metis dom_map_of_conv_image_fst domIff mkeys_def not_None_eq)
  ultimately show ?thesis
    by (force simp: table_targets_def map_filter_def case_prod_beta o image_iff mkeys_def [symmetric])
qed

lemma ok_fair: "ok_world A F io0 w \<Longrightarrow> fair_io io0 \<Longrightarrow> fair_io (fst w)"
  using fair_io_grows ok_world_def by metis

lemma note_epoch_live:
  assumes "live p A F io0 w" "fair_io io0" "grants p io0"
  shows "live p A F io0 (note_epoch e w) \<and> mkeys (snd (note_epoch e w)) = mkeys (snd w)"
proof -
  obtain io rc where w: "w = (io, rc)" by fastforce
  let ?w1 = "(io, rc\<lparr>rc_last_epoch := Some e, rc_mappings := [], rc_nonces := []\<rparr>)"
  have ok: "ok_world A F io0 w" using assms(1) by (simp add: live_def)
  have "live p A F io0 ?w1" using assms(1) by (auto simp: live_def w rc_inv_def)
  moreover have "set (table_targets w) \<subseteq> A" using ok table_targets_in ok_world_def by blast
  moreover have "target_key ` set (table_targets w) = mkeys rc"
    using table_targets_keys [of A F w] ok ok_fair [OF ok assms(2)] by (simp add: w)
  ultimately have "live p A F io0 (fold send_map_request_inline (table_targets w) ?w1)"
    "mkeys (snd (fold send_map_request_inline (table_targets w) ?w1)) = mkeys rc"
    using fold_inline_live [of p A F io0 ?w1 "table_targets w"] assms(2,3) by (simp_all add: mkeys_def)
  moreover have "live p A F io0 (io, rc\<lparr>rc_last_epoch := Some e\<rparr>)"
    using assms(1) by (auto simp: live_def w rc_inv_def)
  ultimately show ?thesis
    by (auto simp: note_epoch_def w Let_def mkeys_def split: option.splits)
qed

lemma send_map_request_live:
  assumes "live p A F io0 w" "fair_io io0" "grants p io0" "t \<in> A"
  shows "live p A F io0 (send_map_request t w) \<and> rc_state (snd (send_map_request t w)) = Active \<and>
    mkeys (snd (send_map_request t w)) = insert (target_key t) (mkeys (snd w))"
proof -
  have ok: "ok_world A F io0 w" using assms(1) by (simp add: live_def)
  obtain nonce io rc where n: "nonce_for (target_key t) w = (nonce, io, rc)" by (metis prod_cases3)
  have len: "length nonce = PCP_NONCE_LEN" and ok': "ok_world A F io0 (io, rc)"
    using nonce_for_ok [OF ok assms(2), of "target_key t"] by (simp_all add: n)
  have fr: "rc_rpc_socket rc" "rc_current_protocol rc = Some p" "rc_mappings rc = rc_mappings (snd w)"
    using nonce_for_frame [of "target_key t" w] assms(1) by (simp_all add: n live_def)
  obtain ps where ps: "protocols_to_try rc = p # ps"
    using ok' fr(2)
    by (cases p) (auto simp: rc_inv_def protocols_to_try_def protocol_fits_def split: nat_traversal_mode.splits)
  obtain ack e io' where x: "try_map_via True p t nonce io = (Inr (ack, e), io')"
    using granted_exchange [OF _ len] assms(3) grants_grows ok' by fastforce
  have eq: "send_map_request t w = establish p t nonce ack e (io', rc)"
    by (simp add: send_map_request_def n ps x fr)
  have "io_grows A io0 io'"
    using try_map_via_grows [OF assms(4), of io True p nonce] ok' by (auto simp: x intro: io_grows_trans)
  then have "live p A F io0 (io', rc)" using ok' fr by (simp add: live_def)
  note ep = note_epoch_live [OF this assms(2,3), of e]
  have "live p A F io0 (send_map_request t w)"
    using send_map_request_ok [OF ok assms(2,4)] ep by (auto simp: live_def eq establish_def case_prod_beta Let_def)
  moreover have "mkeys (snd (establish p t nonce ack e (io', rc))) = insert (target_key t) (mkeys rc)"
    using ep by (auto simp: establish_def case_prod_beta Let_def mkeys_def dom_update)
  ultimately show ?thesis
    using fr(3) by (simp add: eq mkeys_def) (simp add: establish_def case_prod_beta Let_def)
qed

lemma fold_send_live:
  assumes "live p A F io0 w" "fair_io io0" "grants p io0" "set ts \<subseteq> A"
  shows "live p A F io0 (fold send_map_request ts w) \<and>
    rc_state (snd (fold send_map_request ts w)) = (if ts = [] then rc_state (snd w) else Active) \<and>
    mkeys (snd (fold send_map_request ts w)) = target_key ` set ts \<union> mkeys (snd w)"
  using assms(1,4)
proof (induction ts arbitrary: w)
  case (Cons t ts)
  from Cons.prems have t: "t \<in> A" by simp
  note i = send_map_request_live [OF Cons.prems(1) assms(2,3) t]
  show ?case using Cons.IH [of "send_map_request t w"] i Cons.prems(2) by auto
qed simp

lemma release_one_frame:
  "rc_rpc_socket (snd (release_one m w)) = rc_rpc_socket (snd w)"
  "rc_current_protocol (snd (release_one m w)) = rc_current_protocol (snd w)"
  "rc_state (snd (release_one m w)) = rc_state (snd w)"
  "mkeys (snd (release_one m w)) = mkeys (snd w)"
  by (simp_all add: release_one_def case_prod_beta Let_def mkeys_def)

lemma delete_keys: "fst ` set (AList.delete k al) = fst ` set al - {k}"
  by (induction al) auto

lemma drop_key_live:
  assumes "live p A F io0 w"
  shows "live p A F io0 (drop_key k w) \<and> rc_state (snd (drop_key k w)) = rc_state (snd w) \<and>
    mkeys (snd (drop_key k w)) = mkeys (snd w) - {k}"
proof (cases "map_of (rc_mappings (snd w)) k")
  case None
  then have "k \<notin> mkeys (snd w)" by (simp add: mkeys_def map_of_eq_None_iff)
  with None assms show ?thesis by (simp add: drop_key_def)
next
  case (Some m)
  then show ?thesis
    using assms drop_key_ok [of A F io0 w k]
    by (simp add: live_def drop_key_def release_one_frame) (simp add: mkeys_def)
qed

lemma fold_drop_live:
  assumes "live p A F io0 w"
  shows "live p A F io0 (fold drop_key ks w) \<and> rc_state (snd (fold drop_key ks w)) = rc_state (snd w) \<and>
    mkeys (snd (fold drop_key ks w)) = mkeys (snd w) - set ks"
  using assms
proof (induction ks arbitrary: w)
  case (Cons k ks)
  note d = drop_key_live [OF Cons.prems, of k]
  show ?case using Cons.IH [of "drop_key k w"] d by auto
qed simp

lemma desired_keys: "fst ` set (desired_by_key ts) = target_key ` set ts"
proof -
  have "fst ` set (foldl (\<lambda>m t. if map_of m (target_key t) = None then m @ [(target_key t, t)] else m) m ts) =
    fst ` set m \<union> target_key ` set ts" for m
  proof (induction ts arbitrary: m)
    case (Cons t ts)
    have "map_of m (target_key t) = None \<longleftrightarrow> target_key t \<notin> fst ` set m"
      by (simp add: map_of_eq_None_iff)
    then have "fst ` set (if map_of m (target_key t) = None then m @ [(target_key t, t)] else m) =
      insert (target_key t) (fst ` set m)"
      by (simp add: insert_absorb)
    with Cons [of "if map_of m (target_key t) = None then m @ [(target_key t, t)] else m"] show ?case by simp
  qed simp
  from this [of "[]"] show ?thesis by (simp add: desired_by_key_def)
qed

lemma desired_target_key: "map_of (desired_by_key ts) k = Some t \<Longrightarrow> target_key t = k"
proof -
  have "\<forall>(k, t)\<in>set (foldl (\<lambda>m t. if map_of m (target_key t) = None then m @ [(target_key t, t)] else m) m ts). target_key t = k"
    if "\<forall>(k, t)\<in>set m. target_key t = k" for m
    using that
  proof (induction ts arbitrary: m)
    case (Cons t ts)
    then have "\<forall>(k, t)\<in>set (if map_of m (target_key t) = None then m @ [(target_key t, t)] else m). target_key t = k"
      by auto
    from Cons.IH [OF this] show ?case by simp
  qed simp
  from this [of "[]"] show "map_of (desired_by_key ts) k = Some t \<Longrightarrow> target_key t = k"
    by (auto simp: desired_by_key_def dest: map_of_SomeD)
qed

lemma publish_frame [simp]:
  "mkeys (publish_snapshot rc) = mkeys rc" "rc_rpc_socket (publish_snapshot rc) = rc_rpc_socket rc"
  "rc_current_protocol (publish_snapshot rc) = rc_current_protocol rc"
  "rc_state (publish_snapshot rc) = rc_state rc" "rc_rule_set (publish_snapshot rc) = rc_rule_set rc"
  "targets_for (publish_snapshot rc) = targets_for rc"
  by (simp_all add: publish_snapshot_def mkeys_def)

lemma live_same:
  "live p A F io0 w \<Longrightarrow> targets_for (snd w) = F"
  "live p A F io0 w \<Longrightarrow> set (F (rc_rule_set (snd w))) \<subseteq> A"
  by (auto simp: live_def ok_world_def rc_inv_def)

lemma send_map_request_rules: "rc_rule_set (snd (send_map_request t w)) = rc_rule_set (snd w)"
proof -
  have inline: "rc_rule_set (snd (send_map_request_inline t w)) = rc_rule_set (snd w)" for t and w :: "'a world"
    by (auto simp: send_map_request_inline_def nonce_for_def draw_nonce_def Let_def case_prod_beta
        split: sum.splits option.splits)
  have "rc_rule_set (snd (fold send_map_request_inline ts w)) = rc_rule_set (snd w)" for ts and w :: "'a world"
    by (induction ts arbitrary: w) (simp_all add: inline)
  then have "rc_rule_set (snd (note_epoch e w)) = rc_rule_set (snd w)" for e and w :: "'a world"
    by (simp add: note_epoch_def case_prod_beta Let_def split: option.splits)
  then have "rc_rule_set (snd (establish p t n ack e w)) = rc_rule_set (snd w)" for p t n ack e and w :: "'a world"
    by (simp add: establish_def case_prod_beta Let_def)
  then have "rc_rule_set (snd (map_attempts ps t n err w)) = rc_rule_set (snd w)" for ps t n err and w :: "'a world"
    by (induction ps t n err w rule: map_attempts.induct)
      (auto simp: map_failed_def transition_backoff_def Let_def split: option.splits prod.splits sum.splits)
  moreover have "rc_rule_set (snd (snd (nonce_for k w))) = rc_rule_set (snd w)" for k
    by (auto simp: nonce_for_def draw_nonce_def case_prod_beta split: option.splits)
  ultimately show ?thesis by (simp add: send_map_request_def case_prod_beta Let_def)
qed

lemma fold_send_rules: "rc_rule_set (snd (fold send_map_request ts w)) = rc_rule_set (snd w)"
  by (induction ts arbitrary: w) (simp_all add: send_map_request_rules)

lemma fold_drop_rules: "rc_rule_set (snd (fold drop_key ks w)) = rc_rule_set (snd w)"
proof -
  have "rc_rule_set (snd (drop_key k w)) = rc_rule_set (snd w)" for k and w :: "'a world"
    by (auto simp: drop_key_def release_one_def case_prod_beta Let_def split: option.splits)
  then show ?thesis by (induction ks arbitrary: w) simp_all
qed

lemma in_map_filter: "y \<in> set (List.map_filter f xs) \<longleftrightarrow> (\<exists>x\<in>set xs. f x = Some y)"
  by (force simp: map_filter_def)

lemma missing_keys:
  assumes "\<And>k t. map_of d k = Some t \<Longrightarrow> target_key t = k" "set ks = fst ` set d"
  shows "target_key ` set (List.map_filter (map_of d) (filter (\<lambda>k. map_of m k = None) ks)) = fst ` set d - fst ` set m"
proof (intro set_eqI iffI)
  fix k assume "k \<in> target_key ` set (List.map_filter (map_of d) (filter (\<lambda>k. map_of m k = None) ks))"
  then obtain t k' where "k = target_key t" "k' \<in> set ks" "map_of m k' = None" "map_of d k' = Some t"
    by (auto simp: in_map_filter)
  with assms show "k \<in> fst ` set d - fst ` set m" by (simp add: map_of_eq_None_iff)
next
  fix k assume k: "k \<in> fst ` set d - fst ` set m"
  then obtain t where t: "map_of d k = Some t"
    by (metis DiffD1 dom_map_of_conv_image_fst domIff not_None_eq)
  with k assms have "t \<in> set (List.map_filter (map_of d) (filter (\<lambda>k. map_of m k = None) ks))"
    by (auto simp: in_map_filter map_of_eq_None_iff)
  with assms(1) [OF t] show "k \<in> target_key ` set (List.map_filter (map_of d) (filter (\<lambda>k. map_of m k = None) ks))"
    by blast
qed

lemma reconcile_with_socket_live:
  assumes l: "live p A F io0 w" and io: "fair_io io0" "grants p io0"
  shows "live p A F io0 (reconcile_with_socket w) \<and>
    mkeys (snd (reconcile_with_socket w)) = target_key ` set (F (rc_rule_set (snd w))) \<and>
    rc_rule_set (snd (reconcile_with_socket w)) = rc_rule_set (snd w) \<and>
    rc_state (snd (reconcile_with_socket w)) \<in> {rc_state (snd w), Active}"
proof -
  define d where "d = wanted_by_key w"
  define w1 where "w1 = apsnd (note_skipped (snd (wanted (snd w)))) w"
  define w2 where "w2 = drop_unwanted d w1"
  define w3 where "w3 = add_missing d w2"
  have ok: "ok_world A F io0 w" using l by (simp add: live_def)
  have ord: "set (io_key_order (fst w') ks) = set ks" if "live p A F io0 w'" for w' :: "'a world" and ks
    using that ok_fair [OF _ io(1)] by (metis live_def fair_io_def set_mset_mset)
  have "set (io_order (fst w) (fst (wanted (snd w)))) = set (fst (wanted (snd w)))"
    using ok_fair [OF ok io(1)] by (metis fair_io_def set_mset_mset)
  then have dk: "fst ` set d = target_key ` set (F (rc_rule_set (snd w)))"
    using live_same(1) [OF l] wanted_targets_for [of "snd w"] by (simp add: d_def wanted_by_key_def desired_keys)
  have l1: "live p A F io0 w1" and k1: "mkeys (snd w1) = mkeys (snd w)" and s1: "rc_state (snd w1) = rc_state (snd w)"
    and r1: "rc_rule_set (snd w1) = rc_rule_set (snd w)"
    using l by (auto simp: w1_def live_def ok_world_def rc_inv_def note_skipped_def mkeys_def)
  have l2: "live p A F io0 w2" and s2: "rc_state (snd w2) = rc_state (snd w)"
    and k2: "mkeys (snd w2) = mkeys (snd w) \<inter> fst ` set d"
    unfolding w2_def drop_unwanted_def
    using fold_drop_live [OF l1] ord [OF l1] k1 s1
    by (auto simp: map_of_eq_None_iff mkeys_def)
  let ?add = "List.map_filter (map_of d)
    (filter (\<lambda>k. map_of (rc_mappings (snd w2)) k = None) (io_key_order (fst w2) (map fst d)))"
  have "\<And>k t. map_of d k = Some t \<Longrightarrow> t \<in> A" unfolding d_def by (rule wanted_by_key_in [OF ok io(1)])
  then have sub: "set ?add \<subseteq> A" by (auto simp: map_filter_def)
  have key: "map_of d k = Some t \<Longrightarrow> target_key t = k" for k t
    unfolding d_def wanted_by_key_def by (rule desired_target_key)
  have "target_key ` set ?add = fst ` set d - mkeys (snd w2)"
    unfolding mkeys_def by (rule missing_keys [OF key]) (simp_all add: ord [OF l2])
  then have l3: "live p A F io0 w3" and k3: "mkeys (snd w3) = fst ` set d"
    and s3: "rc_state (snd w3) \<in> {rc_state (snd w), Active}"
    unfolding w3_def add_missing_def using fold_send_live [OF l2 io sub] k2 s2 by auto
  have r3: "rc_rule_set (snd w3) = rc_rule_set (snd w)"
    by (simp add: w3_def w2_def add_missing_def drop_unwanted_def fold_send_rules fold_drop_rules r1)
  have "reconcile_with_socket w = apsnd publish_snapshot w3"
    by (simp add: reconcile_with_socket_def w3_def w2_def w1_def d_def)
  then show ?thesis using l3 k3 s3 r3 dk by (auto simp: live_def ok_world_def)
qed

text \<open>The table mirrors the current rule set.\<close>

definition synced ::
  "nat_protocol \<Rightarrow> mapping_target set \<Rightarrow> ('u rule_set \<Rightarrow> mapping_target list) \<Rightarrow> nat_io \<Rightarrow> 'u world \<Rightarrow> bool" where
  "synced p A F io0 w \<longleftrightarrow>
     live p A F io0 w \<and> mkeys (snd w) = target_key ` set (F (rc_rule_set (snd w))) \<and> rc_state (snd w) \<noteq> Backoff"

lemma reconcile_targets_synced:
  assumes "live p A F io0 w" "fair_io io0" "grants p io0" "rc_state (snd w) \<noteq> Backoff"
  shows "synced p A F io0 (reconcile_targets w) \<and> rc_rule_set (snd (reconcile_targets w)) = rc_rule_set (snd w)"
proof -
  have "reconcile_targets w = reconcile_with_socket w"
    using assms(1) by (cases w) (simp add: reconcile_targets_def ensure_rpc_socket_def live_def)
  then show ?thesis
    using reconcile_with_socket_live [OF assms(1-3)] assms(4) by (auto simp: synced_def)
qed

lemma renew_key_synced:
  assumes "synced p A F io0 w" "fair_io io0" "grants p io0"
  shows "synced p A F io0 (renew_key k w) \<and> rc_rule_set (snd (renew_key k w)) = rc_rule_set (snd w)"
proof (cases "map_of (rc_mappings (snd w)) k")
  case (Some m)
  have l: "live p A F io0 w" and inv: "rc_inv A F (snd w)"
    using assms(1) by (simp_all add: synced_def live_def ok_world_def)
  have "am_target m \<in> A" "target_key (am_target m) = k"
    using inv map_of_SomeD [OF Some] by (auto simp: rc_inv_def)
  moreover have "k \<in> mkeys (snd w)" using map_of_SomeD [OF Some] by (force simp: mkeys_def)
  ultimately show ?thesis
    using send_map_request_live [OF l assms(2,3), of "am_target m"] assms(1)
    by (simp add: synced_def renew_key_def Some insert_absorb send_map_request_rules)
qed (use assms in \<open>simp add: renew_key_def\<close>)

lemma refresh_synced:
  assumes "synced p A F io0 w" "fair_io io0" "grants p io0"
  shows "synced p A F io0 (refresh_due_mappings w) \<and>
    rc_rule_set (snd (refresh_due_mappings w)) = rc_rule_set (snd w)"
proof -
  have "synced p A F io0 (fold renew_key ks w) \<and> rc_rule_set (snd (fold renew_key ks w)) = rc_rule_set (snd w)" for ks
    using assms(1)
  proof (induction ks arbitrary: w)
    case (Cons k ks)
    from Cons.IH [of "renew_key k w"] renew_key_synced [OF Cons.prems assms(2,3), of k] show ?case by simp
  qed simp
  then have "synced p A F io0 (apsnd publish_snapshot (fold renew_key ks w)) \<and>
      rc_rule_set (snd (fold renew_key ks w)) = rc_rule_set (snd w)" for ks
    by (simp add: synced_def live_def ok_world_def)
  then show ?thesis by (simp add: refresh_due_mappings_def case_prod_beta Let_def apsnd_def map_prod_def)
qed

lemma mapper_step_synced:
  assumes "synced p A F io0 w" "fair_io io0" "grants p io0" "set (seen_rules [e]) \<subseteq> {rs. set (F rs) \<subseteq> A}"
  shows "synced p A F io0 (mapper_step w e) \<and>
    rc_rule_set (snd (mapper_step w e)) = last (rc_rule_set (snd w) # seen_rules [e])"
proof -
  obtain io rc where w: "w = (io, rc)" by fastforce
  show ?thesis
  proof (cases e)
    case (RulesChanged d rs)
    have "targets_for (rc\<lparr>rc_rule_set := rs\<rparr>) = targets_for rc" by (simp add: targets_for_def fun_eq_iff)
    then have "live p A F io0 (io_wait d io, rc\<lparr>rc_rule_set := rs\<rparr>)"
      using assms(1,4) by (auto simp: synced_def live_def w rc_inv_def RulesChanged)
    from reconcile_targets_synced [OF this assms(2,3)] show ?thesis
      using assms(1) by (simp add: RulesChanged w synced_def)
  next
    case Tick
    let ?w = "(io\<lparr>io_now := max (io_now io) (compute_next_tick (io_now io) rc)\<rparr>, rc)"
    have s: "synced p A F io0 ?w" using assms(1) by (simp add: synced_def live_def w)
    then have l: "live p A F io0 ?w" and nb: "rc_state (snd ?w) \<noteq> Backoff" by (simp_all add: synced_def)
    show ?thesis
      using reconcile_targets_synced [OF l assms(2,3) nb] refresh_synced [OF s assms(2,3)] s nb
      by (simp add: Tick w on_tick_def split: nat_state.splits)
  qed
qed

lemma mapper_start_synced:
  assumes "ok_world A F io0 (io0, rc)" "fair_io io0" "grants p io0" "\<forall>n. io_bind_ok io0 n"
    and "rc_current_protocol rc = Some p" "rc_state rc \<noteq> Backoff"
  shows "synced p A F io0 (mapper_start (io0, rc)) \<and> rc_rule_set (snd (mapper_start (io0, rc))) = rc_rule_set rc"
proof -
  define w where "w = snd (ensure_rpc_socket (io0, rc))"
  have e: "ensure_rpc_socket (io0, rc) = (True, w)" "rc_rpc_socket (snd w)" "rc_current_protocol (snd w) = Some p"
    "rc_rule_set (snd w) = rc_rule_set rc" "rc_state (snd w) = rc_state rc"
    using assms(4,5) by (auto simp: ensure_rpc_socket_def w_def)
  have "live p A F io0 w"
    using ensure_rpc_socket_ok [OF assms(1)] e by (simp add: live_def)
  from reconcile_targets_synced [OF this assms(2,3)] show ?thesis
    using e assms(6) by (simp add: mapper_start_def case_prod_beta)
qed

lemma run_synced:
  assumes "synced p A F io0 w" "fair_io io0" "grants p io0" "set (seen_rules es) \<subseteq> {rs. set (F rs) \<subseteq> A}"
  shows "synced p A F io0 (run mapper_step w es) \<and>
    rc_rule_set (snd (run mapper_step w es)) = last (rc_rule_set (snd w) # seen_rules es)"
  using assms(1,4)
proof (induction es arbitrary: w)
  case (Cons e es)
  have "set (seen_rules [e]) \<subseteq> {rs. set (F rs) \<subseteq> A}" and es: "set (seen_rules es) \<subseteq> {rs. set (F rs) \<subseteq> A}"
    using Cons.prems(2) by (cases e; simp)+
  note st = mapper_step_synced [OF Cons.prems(1) assms(2,3) this(1)]
  show ?case using Cons.IH [OF conjunct1 [OF st] es] st by (cases e) auto
qed simp

section \<open>Properties\<close>

lemma keyed_image_eq:
  assumes "inj_on f A" "T \<subseteq> A" "fst ` set al = f ` T"
    and "\<And>k m. (k, m) \<in> set al \<Longrightarrow> g m \<in> A" "\<And>k m. (k, m) \<in> set al \<Longrightarrow> k = f (g m)"
  shows "(g \<circ> snd) ` set al = T"
proof -
  have "f ` (g \<circ> snd) ` set al = f ` T"
    unfolding assms(3) [symmetric] image_image using assms(5) by (auto intro!: image_cong)
  moreover have "(g \<circ> snd) ` set al \<subseteq> A" using assms(4) by auto
  ultimately show ?thesis using assms(1,2) by (metis inj_on_image_eq_iff)
qed

text \<open>
  C21: the mapper asks the gateway only for what is configured. Whatever the gateway and the
  network answer, in every run every datagram sent, including those of the final release pass, is
  a map or release request for a target that \<open>enumerate_targets\<close> derives from one of the rule sets
  seen so far; every entry of the table is stored under the protocol and port of such a target
  and is renewed at half its lifetime. Every target of a rule set stands for an IPv4 listener
  configured with it: a rule's, the HTTPS one when there are routes, or the accept socket. It has
  that listener's port, or port 80 for the redirect, and its address is the listener's own private
  address or, for a listener on the unspecified address, the source address that discovery
  reported; nothing is checked about that source address.
\<close>

theorem mapper_requests_configured:
  assumes "fair_io io" "io_sent io = []" "mapper_spawn p disc = Inr rc"
    and "mapper_run (io, rc) es = (io', rc')" "release_all (io', rc') = (io'', rc'')"
  shows "(\<forall>b\<in>set (io_sent io''). \<exists>rs\<in>set (np_rule_set p # seen_rules es). \<exists>t\<in>set (targets_for rc rs). request_of t b)
    \<and> (\<forall>(k, m)\<in>set (rc_mappings rc').
         (\<exists>rs\<in>set (np_rule_set p # seen_rules es). am_target m \<in> set (targets_for rc rs)) \<and>
         k = target_key (am_target m) \<and>
         am_renew_at m = am_last_renewed m + am_assigned_lifetime m div 2)
    \<and> (\<forall>rs. \<forall>t\<in>set (targets_for rc rs). \<exists>sa\<in>listeners rc rs. target_of (gw_local_source (rc_gateway rc)) sa t)"
proof -
  define A where "A = (\<Union>rs\<in>set (np_rule_set p # seen_rules es). set (targets_for rc rs))"
  have "ok_world A (targets_for rc) io (io, rc)"
    by (rule mapper_spawn_ok [OF assms(3,2)]) (auto simp: A_def)
  then have ok: "ok_world A (targets_for rc) io (io', rc')"
    using mapper_run_ok [OF _ assms(1), of A "targets_for rc" "(io, rc)" es]
    by (force simp: assms(4) A_def)
  from release_all_ok [OF this] have "\<forall>b\<in>set (io_sent io''). \<exists>t\<in>A. request_of t b"
    using assms(2) by (auto simp: assms(5) io_grows_def)
  moreover have "\<forall>e\<in>set (rc_mappings rc'). entry_ok A e" using ok by (simp add: rc_inv_def)
  moreover have "\<forall>rs. \<forall>t\<in>set (targets_for rc rs). \<exists>sa\<in>listeners rc rs. target_of (gw_local_source (rc_gateway rc)) sa t"
    using targets_for_listeners by blast
  ultimately show ?thesis unfolding A_def by (intro conjI) (blast, force, blast)
qed

text \<open>
  C20: with a gateway that grants every request the table always covers the configuration. In
  every run, whatever the clock, the renewals, the epochs the gateway reports and the iteration
  order of the hash tables, after every turn the mapped protocol-port pairs are exactly those of the
  targets of the latest rule set, and the mapper is not in backoff. If moreover the rule sets seen so
  far never give one protocol-port pair two different targets, the mapped targets, with their
  addresses, are exactly those of the latest rule set. Without that proviso an entry keeps the
  target it was created for: a listener that moves to another address on its port leaves the old
  address in the table (\<open>moved_listener_keeps_mapping\<close>).
\<close>

theorem mapper_mirrors_rules:
  assumes "fair_io io" "mapper_spawn p disc = Inr rc" "\<forall>n. io_bind_ok io n"
    and "rc_current_protocol rc = Some q" "grants q io"
  shows "fst ` set (rc_mappings (snd (mapper_run (io, rc) es))) =
      target_key ` set (targets_for rc (last (np_rule_set p # seen_rules es)))
    \<and> rc_state (snd (mapper_run (io, rc) es)) \<noteq> Backoff
    \<and> (inj_on target_key (\<Union>rs\<in>set (np_rule_set p # seen_rules es). set (targets_for rc rs)) \<longrightarrow>
        (am_target \<circ> snd) ` set (rc_mappings (snd (mapper_run (io, rc) es))) =
          set (targets_for rc (last (np_rule_set p # seen_rules es))))"
proof -
  define A where "A = (\<Union>rs\<in>set (np_rule_set p # seen_rules es). set (targets_for rc rs))"
  let ?rc = "snd (mapper_run (io, rc) es)" and ?T = "set (targets_for rc (last (np_rule_set p # seen_rules es)))"
  have r: "rc_rule_set rc = np_rule_set p" "rc_state rc \<noteq> Backoff"
    using assms(2) by (auto simp: mapper_spawn_def reconciler_new_def split: if_splits)
  have "ok_world A (targets_for rc) (io\<lparr>io_sent := []\<rparr>) (io\<lparr>io_sent := []\<rparr>, rc)"
    by (rule mapper_spawn_ok [OF assms(2)]) (auto simp: A_def)
  then have "ok_world A (targets_for rc) io (io, rc)" by simp
  then have "synced q A (targets_for rc) io (mapper_start (io, rc)) \<and>
      rc_rule_set (snd (mapper_start (io, rc))) = np_rule_set p"
    using mapper_start_synced assms r by metis
  then have s: "synced q A (targets_for rc) io (mapper_run (io, rc) es) \<and>
      rc_rule_set ?rc = last (np_rule_set p # seen_rules es)"
    using run_synced [of q A "targets_for rc" io "mapper_start (io, rc)" es] assms(1,5)
    by (force simp: mapper_run_def A_def)
  then have k: "fst ` set (rc_mappings ?rc) = target_key ` ?T" "rc_state ?rc \<noteq> Backoff"
    by (simp_all add: synced_def mkeys_def)
  from s have e: "am_target m \<in> A" "k = target_key (am_target m)" if "(k, m) \<in> set (rc_mappings ?rc)" for k m
    using that by (auto simp: synced_def live_def ok_world_def rc_inv_def)
  have "last (np_rule_set p # seen_rules es) \<in> set (np_rule_set p # seen_rules es)" by (rule last_in_set) simp
  then have "?T \<subseteq> A" by (auto simp: A_def)
  then have "(am_target \<circ> snd) ` set (rc_mappings ?rc) = ?T" if "inj_on target_key A"
    by (rule keyed_image_eq [OF that _ k(1) e])
  with k show ?thesis by (simp only: A_def) blast
qed

section \<open>A concrete gateway\<close>

text \<open>A NAT-PMP gateway that grants every request for an hour on the requested port.\<close>

definition kind_link :: "nat \<Rightarrow> bytes \<Rightarrow> exchange" where
  "kind_link n buf =
     Reply 5 (natpmp_response_bytes []
       \<lparr>nr_result_code = PmpSuccess, nr_protocol = (if buf ! 1 = 2 then MapTcp else MapUdp),
        nr_seconds_since_epoch = 1000, nr_internal_port = of_be (sub_bytes 4 2 buf),
        nr_assigned_external_port = of_be (sub_bytes 6 2 buf), nr_assigned_lifetime = 3600\<rparr>)"

definition kind_io :: nat_io where
  "kind_io = \<lparr>io_now = 0, io_sends = 0, io_sent = [], io_link = kind_link, io_binds = 0,
     io_bind_ok = (\<lambda>_. True), io_draws = 0, io_nonce = (\<lambda>_. replicate 12 7),
     io_order = (\<lambda>ts. ts), io_key_order = (\<lambda>ks. ks)\<rparr>"

definition home_params :: "unit nat_mapper_params" where
  "home_params = \<lparr>np_mode = ModeNatPmp, np_accept_listen = None,
     np_rule_set = \<lparr>rules = [plain_rule ''web'' 80 8080], routes = []\<rparr>,
     np_https_listen = SockV4 0 443, np_https_http3 = True,
     np_gateway_override = Some \<lparr>gw_addr = 0xC0A80101, gw_local_source = 0xC0A80102, gw_port = GATEWAY_PORT\<rparr>,
     np_shutdown_release_timeout = None\<rparr>"

definition home_mapper :: "unit reconciler" where
  "home_mapper = projr (mapper_spawn home_params (Inl NoDefaultRoute))"

lemma home_spawn: "mapper_spawn home_params (Inl NoDefaultRoute) = Inr home_mapper"
  by (simp add: home_mapper_def mapper_spawn_def home_params_def)

lemma kind_fair: "fair_io kind_io"
  by (simp add: fair_io_def kind_io_def PCP_NONCE_LEN_def)

lemma kind_grants: "grants NatPmp kind_io"
  by (simp add: grants_def kind_io_def kind_link_def granted_def natpmp_decode_response RPC_RECV_BUF_def)
     (simp add: natpmp_response_bytes_def)

lemma home_targets:
  "targets_for home_mapper (np_rule_set home_params) =
     [\<lparr>mt_protocol = MapTcp, mt_internal_port = 80, mt_internal_addr = 0xC0A80102, mt_origin = FromRule ''web''\<rparr>]"
  by (simp add: targets_for_def wanted_def wanted_https_def home_mapper_def mapper_spawn_def home_params_def
      reconciler_new_def enumerate_targets_def enumerate_rule_def enumerate_https_def enumerate_accept_def
      plain_rule_def v4_is_loopback_def v4_is_link_local_def be_bytes_def be_digits_4 resolve_internal_def)

theorem mapper_requests_configured_witness:
  "list_all (request_of (hd (targets_for home_mapper (np_rule_set home_params))))
     (io_sent (fst (release_all (mapper_run (kind_io, home_mapper) [Tick]))))"
proof -
  let ?w = "mapper_run (kind_io, home_mapper) [Tick]"
  have "release_all (fst ?w, snd ?w) = (fst (release_all ?w), snd (release_all ?w))" by simp
  from mapper_requests_configured [OF kind_fair _ home_spawn prod.collapse [symmetric] this]
  show ?thesis by (simp add: kind_io_def home_targets list_all_iff)
qed

theorem mapper_mirrors_rules_witness:
  "fst ` set (rc_mappings (snd (mapper_run (kind_io, home_mapper) [Tick]))) = {(MapTcp, 80)} \<and>
   (am_target \<circ> snd) ` set (rc_mappings (snd (mapper_run (kind_io, home_mapper) [Tick]))) =
     {\<lparr>mt_protocol = MapTcp, mt_internal_port = 80, mt_internal_addr = 0xC0A80102, mt_origin = FromRule ''web''\<rparr>}"
proof -
  have "rc_current_protocol home_mapper = Some NatPmp"
    by (simp add: home_mapper_def mapper_spawn_def home_params_def reconciler_new_def)
  moreover have "\<forall>n. io_bind_ok kind_io n" by (simp add: kind_io_def)
  ultimately show ?thesis
    using mapper_mirrors_rules [OF kind_fair home_spawn _ _ kind_grants, of "[Tick]"]
    by (simp add: home_targets target_key_def)
qed

section \<open>What the mapper does not recover from\<close>

text \<open>
  A rule set that keeps the mapped protocol-port pairs changes nothing: nothing is sent and every
  entry keeps its target, even when the listeners behind the pairs have moved to other addresses.
\<close>

lemma moved_listener_keeps_mapping:
  assumes "fair_io io" "rc_rpc_socket rc" "fst ` set (rc_mappings rc) = target_key ` set (targets_for rc rs)"
  shows "io_sent (fst (mapper_step (io, rc) (RulesChanged d rs))) = io_sent io \<and>
    rc_mappings (snd (mapper_step (io, rc) (RulesChanged d rs))) = rc_mappings rc"
proof -
  let ?w = "(io_wait d io, rc\<lparr>rc_rule_set := rs\<rparr>)"
  have fair: "fair_io (io_wait d io)" using assms(1) by (simp add: fair_io_def io_wait_def)
  then have "set (io_order (io_wait d io) (fst (wanted (snd ?w)))) = set (fst (wanted (snd ?w)))"
    by (metis fair_io_def set_mset_mset)
  then have dk: "fst ` set (wanted_by_key ?w) = fst ` set (rc_mappings rc)"
    using assms(3) by (simp add: wanted_by_key_def desired_keys targets_for_def)
  have ord: "set (io_key_order (io_wait d io) ks) = set ks" for ks using fair by (metis fair_io_def set_mset_mset)
  have "drop_unwanted (wanted_by_key ?w) (apsnd (note_skipped sk) ?w) = apsnd (note_skipped sk) ?w" for sk
  proof -
    have "filter (\<lambda>k. map_of (wanted_by_key ?w) k = None) (io_key_order (io_wait d io) (map fst (rc_mappings rc))) = []"
      using dk ord by (auto simp: filter_empty_conv map_of_eq_None_iff)
    then show ?thesis by (simp add: drop_unwanted_def note_skipped_def)
  qed
  moreover have "add_missing (wanted_by_key ?w) (apsnd (note_skipped sk) ?w) = apsnd (note_skipped sk) ?w" for sk
  proof -
    have "filter (\<lambda>k. map_of (rc_mappings rc) k = None) (io_key_order (io_wait d io) (map fst (wanted_by_key ?w))) = []"
      using dk ord by (auto simp: filter_empty_conv map_of_eq_None_iff)
    then show ?thesis by (simp add: add_missing_def note_skipped_def map_filter_def)
  qed
  ultimately have "reconcile_with_socket ?w = apsnd publish_snapshot (apsnd (note_skipped (snd (wanted (snd ?w)))) ?w)"
    by (simp add: reconcile_with_socket_def)
  then show ?thesis
    using assms(2) by (simp add: reconcile_targets_def ensure_rpc_socket_def publish_snapshot_def note_skipped_def io_wait_def)
qed

text \<open>
  A NAT-PMP answer is not compared with the request: whatever well-formed response arrives first,
  for instance a late answer about another port, is taken as the answer.
\<close>

lemma natpmp_answer_not_matched:
  assumes "io_link io (io_sends io) (natpmp_encode_map_request req) = Reply d (natpmp_response_bytes [] resp)"
  shows "fst (natpmp_rpc req io) = Inr resp"
proof -
  have "take RPC_RECV_BUF (natpmp_response_bytes [] resp) = natpmp_response_bytes [] resp"
    by (simp add: natpmp_response_bytes_def RPC_RECV_BUF_def)
  then show ?thesis
    using assms by (simp add: natpmp_rpc_def retries_Suc io_send_def natpmp_decode_response)
qed

text \<open>
  Near the end of the 32-bit range the tolerance of 16 seconds wraps around, so that a gateway
  clock that moves forward is taken for a restart and every mapping is dropped and requested anew.
\<close>

lemma epoch_wraps_to_reset:
  assumes "rc_last_epoch rc = Some prev" "prev \<le> e" "15 < prev" "0xFFFFFFF0 \<le> e"
  shows "note_epoch e (io, rc) =
    fold send_map_request_inline (table_targets (io, rc))
      (io, rc\<lparr>rc_last_epoch := Some e, rc_mappings := [], rc_nonces := []\<rparr>)"
proof -
  have "unat (e + 16) = (unat e + 16) mod 2 ^ 32" by (simp add: unat_word_ariths)
  moreover have "unat (0xFFFFFFF0 :: u32) \<le> unat e" using assms(4) by (simp add: word_le_nat_alt)
  then have "4294967280 \<le> unat e" by simp
  moreover have "unat e < 2 ^ 32" using unsigned_less [of e] by simp
  ultimately have "unat (e + 16) \<le> 15" by (auto simp: mod_if)
  moreover have "unat (15 :: u32) < unat prev" using assms(3) by (simp add: word_less_nat_alt)
  ultimately have "e + 16 < prev" by (simp add: word_less_nat_alt)
  then show ?thesis using assms(1) by (simp add: note_epoch_def)
qed

definition silent :: "nat_io \<Rightarrow> bool" where
  "silent io \<longleftrightarrow> (\<forall>n b. io_link io n b = NoReply)"

lemma io_send_silent:
  "silent io \<Longrightarrow> fst (io_send b io) = NoReply" "silent io \<Longrightarrow> silent (io_wait d (snd (io_send b io)))"
  by (simp_all add: silent_def io_send_def io_wait_def Let_def)

lemma silent_pcp: "silent io \<Longrightarrow> fst (pcp_attempts k rt q io) = Inl (RpcTimeout RPC_MAX_RETRIES)"
proof (induction k arbitrary: rt io)
  case (Suc k)
  obtain io' where s: "io_send (pcp_encode_map_request q) io = (NoReply, io')"
    using io_send_silent(1) [OF Suc.prems] by (metis prod.collapse)
  then have "silent (io_wait rt io')" using io_send_silent(2) [OF Suc.prems] by (metis snd_conv)
  with Suc.IH s show ?case by simp
qed simp

lemma silent_natpmp: "silent io \<Longrightarrow> fst (natpmp_attempts k rt q io) = Inl (RpcTimeout RPC_MAX_RETRIES)"
proof (induction k arbitrary: rt io)
  case (Suc k)
  obtain io' where s: "io_send (natpmp_encode_map_request q) io = (NoReply, io')"
    using io_send_silent(1) [OF Suc.prems] by (metis prod.collapse)
  then have "silent (io_wait rt io')" using io_send_silent(2) [OF Suc.prems] by (metis snd_conv)
  with Suc.IH s show ?case by simp
qed simp

lemma silent_exchange:
  assumes "silent io"
  shows "\<exists>e io'. try_map_via sock p t n io = (Inl e, io') \<and> rpc_is_transient e \<and> silent io'"
proof -
  obtain r io' where r: "try_map_via sock p t n io = (r, io')" by fastforce
  have "io_grows UNIV io io'" using try_map_via_grows [of t UNIV io sock p n] by (simp add: r)
  then have "silent io'" using assms by (simp add: silent_def io_grows_def same_inputs_def)
  moreover have "\<exists>e. r = Inl e \<and> rpc_is_transient e"
    using r silent_pcp [OF assms] silent_natpmp [OF assms]
    by (auto simp: try_map_via_def pcp_rpc_def natpmp_rpc_def case_prod_beta Let_def split: if_splits nat_protocol.splits)
  ultimately show ?thesis using r by auto
qed

lemma map_failed_keeps: "rpc_is_transient e \<Longrightarrow> rc_mappings (map_failed k e rc) = rc_mappings rc"
  by (simp add: map_failed_def transition_backoff_def Let_def)

lemma silent_map_attempts:
  assumes "silent (fst w)" "\<And>e. err = Some e \<Longrightarrow> rpc_is_transient e"
  shows "silent (fst (map_attempts ps t n err w)) \<and> rc_mappings (snd (map_attempts ps t n err w)) = rc_mappings (snd w)"
  using assms
proof (induction ps arbitrary: err w)
  case Nil
  then show ?case by (cases w) (auto simp: map_failed_keeps split: option.splits)
next
  case (Cons p ps)
  obtain io rc where w: "w = (io, rc)" by fastforce
  obtain e io' where e: "try_map_via (rc_rpc_socket rc) p t n io = (Inl e, io')" "rpc_is_transient e" "silent io'"
    using silent_exchange Cons.prems(1) by (metis fst_conv w)
  have "silent (fst (map_attempts ps t n (Some e) (io', rc))) \<and>
      rc_mappings (snd (map_attempts ps t n (Some e) (io', rc))) = rc_mappings rc"
    using Cons.IH [of "(io', rc)" "Some e"] e by simp
  then show ?case using e by (simp add: w map_failed_keeps)
qed

lemma silent_fold_send:
  "silent (fst w) \<Longrightarrow>
     silent (fst (fold send_map_request ts w)) \<and> rc_mappings (snd (fold send_map_request ts w)) = rc_mappings (snd w)"
proof (induction ts arbitrary: w)
  case (Cons t ts)
  have n: "silent (fst (snd (nonce_for k w)))" for k
    using Cons.prems by (auto simp: nonce_for_def draw_nonce_def silent_def case_prod_beta split: option.splits)
  have "silent (fst (send_map_request t w)) \<and> rc_mappings (snd (send_map_request t w)) = rc_mappings (snd w)"
    using silent_map_attempts [OF n, of None] nonce_for_frame(3)
    by (simp add: send_map_request_def case_prod_beta Let_def)
  with Cons.IH [of "send_map_request t w"] show ?case by simp
qed simp

text \<open>
  A probe in backoff starts by forgetting the table. When the gateway stays silent nothing comes
  back, so the mappings it still holds are neither renewed nor released at shutdown.
\<close>

lemma failed_probe_forgets_table:
  assumes "silent (fst w)"
  shows "rc_mappings (snd (backoff_probe w)) = [] \<and> release_all (backoff_probe w) = backoff_probe w"
proof -
  obtain io rc where w: "w = (io, rc)" by fastforce
  let ?w1 = "(io, rc\<lparr>rc_mappings := [], rc_nonces := [], rc_consecutive_errors := 0, rc_state := Discovering\<rparr>)"
  define w2 where "w2 = fold send_map_request (table_targets w) ?w1"
  have w2: "silent (fst w2)" "rc_mappings (snd w2) = []"
    using silent_fold_send [of ?w1] assms by (simp_all add: w w2_def)
  have "rc_mappings (snd (reconcile_targets w2)) = []"
  proof -
    obtain b w3 where e: "ensure_rpc_socket w2 = (b, w3)" by (metis surj_pair)
    have w3: "silent (fst w3)" "rc_mappings (snd w3) = []"
      using e w2 by (auto simp: ensure_rpc_socket_def silent_def case_prod_beta Let_def split: if_splits)
    let ?w4 = "apsnd (note_skipped (snd (wanted (snd w3)))) w3"
    have drop: "rc_mappings (snd (fold drop_key ks w)) = [] \<and> fst (fold drop_key ks w) = fst w"
      if "rc_mappings (snd w) = []" for ks and w :: "'a world"
      using that by (induction ks arbitrary: w) (simp_all add: drop_key_def)
    have "rc_mappings (snd ?w4) = []" "silent (fst ?w4)" using w3 by (simp_all add: note_skipped_def)
    then have "rc_mappings (snd (drop_unwanted d ?w4)) = []" "silent (fst (drop_unwanted d ?w4))" for d
      using drop [of ?w4] by (simp_all add: drop_unwanted_def)
    then have "rc_mappings (snd (add_missing d (drop_unwanted d ?w4))) = []" for d
      by (simp add: add_missing_def silent_fold_send)
    then have "rc_mappings (snd (reconcile_with_socket w3)) = []"
      by (simp add: reconcile_with_socket_def publish_snapshot_def)
    then show ?thesis
      using w3 by (cases w3) (simp add: reconcile_targets_def e publish_snapshot_def transition_backoff_def split: bool.splits)
  qed
  then show ?thesis
    by (simp add: backoff_probe_def w w2_def [unfolded w] case_prod_beta Let_def release_all_def)
qed

end
