(* ===== verification/PubKey.thy ===== *)
theory PubKey
  imports Wire
begin

text \<open>
  Tagged public keys (crate \<open>ratatoskr\<close>, file \<open>pubkey.rs\<close>): the text form \<open>x25519:<hex>\<close>, its
  parser, and the fingerprint. The \<open>hex\<close> crate's \<open>encode\<close> and \<open>decode\<close> and the BLAKE2s-128
  digest are parameters.
\<close>

definition X25519_PUBLIC_LEN :: nat where "X25519_PUBLIC_LEN = 32"

datatype pub_key = X25519 bytes

fun pub_key_wf :: "pub_key \<Rightarrow> bool" where
  "pub_key_wf (X25519 b) \<longleftrightarrow> length b = X25519_PUBLIC_LEN"

fun algorithm :: "pub_key \<Rightarrow> string" where
  "algorithm (X25519 _) = ''x25519''"

fun raw_bytes :: "pub_key \<Rightarrow> bytes" where
  "raw_bytes (X25519 b) = b"

fun as_x25519 :: "pub_key \<Rightarrow> bytes option" where
  "as_x25519 (X25519 b) = Some b"

text \<open>The functions of the \<open>hex\<close> and \<open>blake2\<close> crates that this file calls.\<close>

record hash_lib =
  hex_encode :: "bytes \<Rightarrow> string"
  hex_decode :: "string \<Rightarrow> string + bytes"
  blake2s_128 :: "bytes \<Rightarrow> bytes"

definition x25519_fingerprint_hex :: "hash_lib \<Rightarrow> bytes \<Rightarrow> string" where
  "x25519_fingerprint_hex L public = hex_encode L (blake2s_128 L public)"

fun fingerprint :: "hash_lib \<Rightarrow> pub_key \<Rightarrow> string" where
  "fingerprint L (X25519 b) = ''x25519:'' @ x25519_fingerprint_hex L b"

fun pub_key_to_string :: "hash_lib \<Rightarrow> pub_key \<Rightarrow> string" where
  "pub_key_to_string L (X25519 b) = ''x25519:'' @ hex_encode L b"

definition pub_key_from_str :: "hash_lib \<Rightarrow> string \<Rightarrow> error + pub_key" where
  "pub_key_from_str L s0 =
     (let s = trim s0 in
      rbind (ok_or (InvalidPubKey (Fmt ''pubkey must be `<algorithm>:<hex>`, got {:?}'' [s]))
               (split_once (CHR '':'') s)) (\<lambda>(algo, hex_str).
      if algo = ''x25519'' then
        rbind (map_err (\<lambda>e. InvalidPubKey (Fmt ''x25519 pubkey hex decode: {e}'' [e]))
                 (hex_decode L hex_str)) (\<lambda>bytes.
        if length bytes = X25519_PUBLIC_LEN then Inr (X25519 bytes)
        else Inl (InvalidPubKey (Fmt ''x25519 pubkey must decode to {} bytes, got {}''
               [show_nat X25519_PUBLIC_LEN, show_nat (length bytes)])))
      else
        Inl (InvalidPubKey (Fmt ''unknown pubkey algorithm {:?} (supported: x25519)'' [algo]))))"

text \<open>
  The documented contract of \<open>hex::encode\<close> and \<open>hex::decode\<close>: two lower-case hex digits per
  byte, and decoding inverts encoding.
\<close>

definition hex_contract :: "hash_lib \<Rightarrow> bool" where
  "hex_contract L \<longleftrightarrow>
     (\<forall>b. hex_decode L (hex_encode L b) = Inr b \<and> length (hex_encode L b) = 2 * length b
        \<and> set (hex_encode L b) \<subseteq> set ''0123456789abcdef'')"

lemma hex_digits_graphic: "c \<in> set ''0123456789abcdef'' \<Longrightarrow> graphic c"
  by (auto simp: graphic_def)

lemma pub_key_roundtrip:
  assumes "hex_contract L" and "pub_key_wf k"
  shows "pub_key_from_str L (pub_key_to_string L k) = Inr k"
proof (cases k)
  case (X25519 b)
  let ?h = "hex_encode L b" and ?s = "pub_key_to_string L k"
  have len: "length ?h = 64" and dig: "set ?h \<subseteq> set ''0123456789abcdef''"
    and dec: "hex_decode L ?h = Inr b"
    using assms X25519 by (auto simp: hex_contract_def X25519_PUBLIC_LEN_def)
  from len have "?h \<noteq> []" by auto
  then have "last ?h \<in> set ?h" by (rule last_in_set)
  with dig have "graphic (last ?h)" by (intro hex_digits_graphic) blast
  then have "trim ?s = ?s"
    using \<open>?h \<noteq> []\<close> X25519 by (intro trim_id) (auto simp: graphic_def)
  moreover have "split_once (CHR '':'') ?s = Some (''x25519'', ?h)"
    using X25519 by simp
  ultimately show ?thesis
    using X25519 dec assms(2) by (simp add: pub_key_from_str_def)
qed

text \<open>A concrete pair of hex functions meeting the contract.\<close>

definition hex_digit :: "nat \<Rightarrow> char" where
  "hex_digit n = ''0123456789abcdef'' ! n"

definition hex_value :: "char \<Rightarrow> nat option" where
  "hex_value c =
     (if ascii_digit c then Some (of_char c - 48)
      else if 97 \<le> (of_char c :: nat) \<and> (of_char c :: nat) \<le> 102 then Some (of_char c - 87)
      else if 65 \<le> (of_char c :: nat) \<and> (of_char c :: nat) \<le> 70 then Some (of_char c - 55)
      else None)"

definition hex_enc :: "bytes \<Rightarrow> string" where
  "hex_enc b = concat (map (\<lambda>x. [hex_digit (unat x div 16), hex_digit (unat x mod 16)]) b)"

fun hex_dec :: "string \<Rightarrow> string + bytes" where
  "hex_dec [] = Inr []"
| "hex_dec [c] = Inl ''Odd number of digits''"
| "hex_dec (h # l # cs) =
     (case (hex_value h, hex_value l) of
        (Some x, Some y) \<Rightarrow> rbind (hex_dec cs) (\<lambda>bs. Inr (word_of_nat (x * 16 + y) # bs))
      | _ \<Rightarrow> Inl ''Invalid character'')"

definition plain_hash_lib :: hash_lib where
  "plain_hash_lib = \<lparr>hex_encode = hex_enc, hex_decode = hex_dec, blake2s_128 = take 16\<rparr>"

lemma hex_digit_props:
  assumes "n < 16"
  shows "hex_value (hex_digit n) = Some n \<and> hex_digit n \<in> set ''0123456789abcdef''"
proof -
  have "n \<in> set [0..<16]" using assms by simp
  moreover have "list_all (\<lambda>n. hex_value (hex_digit n) = Some n
      \<and> hex_digit n \<in> set ''0123456789abcdef'') [0..<16]"
    by code_simp
  ultimately show ?thesis unfolding list_all_iff by (rule bspec [rotated])
qed

lemma unat_u8_div16: "unat (x :: u8) div 16 < 16"
  using unat_u8_lt [of x] by (intro less_mult_imp_div_less) simp

lemma hex_dec_enc: "hex_dec (hex_enc b) = Inr b"
proof (induction b)
  case Nil
  show ?case by (simp add: hex_enc_def)
next
  case (Cons x b)
  have "unat x div 16 < 16" by (rule unat_u8_div16)
  with Cons show ?case
    by (simp add: hex_enc_def hex_digit_props)
qed

lemma plain_hash_lib_contract: "hex_contract plain_hash_lib"
proof -
  have "set (hex_enc b) \<subseteq> set ''0123456789abcdef''" for b
  proof -
    have "hex_digit (unat x div 16) \<in> set ''0123456789abcdef''" for x :: u8
      using hex_digit_props unat_u8_div16 by blast
    moreover have "hex_digit (unat x mod 16) \<in> set ''0123456789abcdef''" for x :: u8
      using hex_digit_props by (meson mod_less_divisor zero_less_numeral)
    ultimately show ?thesis by (induction b) (simp_all add: hex_enc_def)
  qed
  moreover have "length (hex_enc b) = 2 * length b" for b
    by (induction b) (simp_all add: hex_enc_def)
  ultimately show ?thesis
    by (simp add: hex_contract_def plain_hash_lib_def hex_dec_enc)
qed

text \<open>
  printing a well-formed public key and parsing the text gives the key back, whatever
  hex implementation meets the documented contract of the \<open>hex\<close> crate.
\<close>

theorem pub_key_text_roundtrip:
  "hex_contract L \<Longrightarrow> pub_key_wf k \<Longrightarrow> pub_key_from_str L (pub_key_to_string L k) = Inr k"
  by (rule pub_key_roundtrip)

theorem pub_key_text_roundtrip_witness:
  "pub_key_from_str plain_hash_lib (pub_key_to_string plain_hash_lib (X25519 (replicate 32 0xAB)))
     = Inr (X25519 (replicate 32 0xAB))"
  by (rule pub_key_text_roundtrip [OF plain_hash_lib_contract])
     (simp add: X25519_PUBLIC_LEN_def)

end
