(* ===== verification/Control_Frame.thy ===== *)
theory Control_Frame
  imports Wire
begin

text \<open>
  The reliable control layer's frames (crate \<open>ratatoskr\<close>, file \<open>control_frame.rs\<close>): the
  envelope, its acknowledgement and the registry of body types.
\<close>

record control_envelope =
  env_seq :: u32
  env_body_type :: u8
  env_body :: bytes

datatype ack_status = AckOk | Reject u16 | Unknown

record control_ack =
  ack_seq :: u32
  ack_status :: ack_status

datatype control_body_type =
    Reserved | Noop | PredicateSetUpdate | ChainHopQuery | ChainHopReply | CanaryArm | CanaryReply

definition from_byte :: "u8 \<Rightarrow> control_body_type option" where
  "from_byte byte =
     (if byte = 0x00 then Some Reserved
      else if byte = 0x01 then Some Noop
      else if byte = 0x02 then Some PredicateSetUpdate
      else if byte = 0x03 then Some ChainHopQuery
      else if byte = 0x04 then Some ChainHopReply
      else if byte = 0x05 then Some CanaryArm
      else if byte = 0x06 then Some CanaryReply
      else None)"

primrec as_byte :: "control_body_type \<Rightarrow> u8" where
  "as_byte Reserved = 0x00"
| "as_byte Noop = 0x01"
| "as_byte PredicateSetUpdate = 0x02"
| "as_byte ChainHopQuery = 0x03"
| "as_byte ChainHopReply = 0x04"
| "as_byte CanaryArm = 0x05"
| "as_byte CanaryReply = 0x06"

lemma from_byte_iff [simp]: "from_byte b = Some t \<longleftrightarrow> b = as_byte t"
  by (cases t) (auto simp: from_byte_def)

lemma as_byte_inject [simp]: "as_byte s = as_byte t \<longleftrightarrow> s = t"
  by (cases s; cases t) simp_all

interpretation body_type: canonical_codec as_byte "\<lambda>b. ok_or () (from_byte b)" "\<lambda>_. True"
  by unfold_locales auto

lemma from_byte_as_byte [simp]: "from_byte (as_byte t) = Some t"
  by simp

end
