(* ===== verification/Auth.thy ===== *)
theory Auth
  imports PubKey Control_Frame
begin

text \<open>
  Identities, the Noise IK handshake and established sessions (crate \<open>ratatoskr\<close>, file
  \<open>auth.rs\<close>). The \<open>snow\<close> and \<open>postcard\<close> crates are parameters: a record of the operations this
  file calls, over abstract handshake and transport states.
\<close>

section \<open>Identity files\<close>

definition X25519_SECRET_LEN :: nat where "X25519_SECRET_LEN = 32"
definition IDENTITY_FILE_MAGIC :: bytes where "IDENTITY_FILE_MAGIC = str_bytes ''YGGID''"
definition IDENTITY_FILE_VERSION :: u8 where "IDENTITY_FILE_VERSION = 0x01"
definition IDENTITY_ALGO_X25519 :: u8 where "IDENTITY_ALGO_X25519 = 0x00"

datatype static_key_pair = KP_X25519 (kp_secret: bytes) (kp_public: bytes)

definition key_pair_wf :: "static_key_pair \<Rightarrow> bool" where
  "key_pair_wf k \<longleftrightarrow> length (kp_secret k) = X25519_SECRET_LEN \<and> length (kp_public k) = X25519_PUBLIC_LEN"

definition from_identity_bytes :: "bytes \<Rightarrow> error + static_key_pair" where
  "from_identity_bytes bytes =
     (let m = length IDENTITY_FILE_MAGIC in
      if length bytes < m + 2 then Inl (Auth ''identity file truncated'')
      else if take m bytes \<noteq> IDENTITY_FILE_MAGIC
        then Inl (Auth ''identity file: bad magic (not a yggdrasil identity)'')
      else
        let version = bytes ! m in
        if version \<noteq> IDENTITY_FILE_VERSION then Inl (Auth ''identity file: unsupported version'')
        else
          let algo = bytes ! (m + 1); payload = drop (m + 2) bytes in
          if algo = IDENTITY_ALGO_X25519 then
            if length payload \<noteq> X25519_SECRET_LEN + X25519_PUBLIC_LEN
            then Inl (Auth ''identity file: X25519 payload has wrong length'')
            else Inr (KP_X25519 (take X25519_SECRET_LEN payload) (drop X25519_SECRET_LEN payload))
          else Inl (Auth ''identity file: unknown algorithm''))"

fun to_identity_bytes :: "static_key_pair \<Rightarrow> bytes" where
  "to_identity_bytes (KP_X25519 secret public) =
     IDENTITY_FILE_MAGIC @ [IDENTITY_FILE_VERSION] @ [IDENTITY_ALGO_X25519] @ secret @ public"

fun public_key :: "static_key_pair \<Rightarrow> pub_key" where
  "public_key (KP_X25519 _ public) = X25519 public"

fun raw_secret_bytes :: "static_key_pair \<Rightarrow> bytes" where
  "raw_secret_bytes (KP_X25519 secret _) = secret"

lemmas identity_defs [codec_simps] =
  X25519_SECRET_LEN_def X25519_PUBLIC_LEN_def IDENTITY_FILE_MAGIC_def str_bytes_def
  IDENTITY_FILE_VERSION_def IDENTITY_ALGO_X25519_def

lemma take_app_drop7:
  assumes "7 \<le> length (b :: 'a list)"
  shows "b = take 5 b @ [b ! 5] @ [b ! 6] @ drop 7 b"
proof -
  have "drop 5 b = b ! 5 # b ! 6 # drop 7 b"
    using assms Cons_nth_drop_Suc [of 5 b] Cons_nth_drop_Suc [of 6 b] by simp
  then show ?thesis using append_take_drop_id [of 5 b] by simp
qed

lemma identity_enc_dec:
  assumes "from_identity_bytes b = Inr k"
  shows "key_pair_wf k \<and> to_identity_bytes k = b"
proof -
  let ?p = "drop 7 b"
  have m: "length IDENTITY_FILE_MAGIC = 5" by (simp add: identity_defs)
  from assms have len: "length b = 71" and magic: "take 5 b = IDENTITY_FILE_MAGIC"
    and ver: "b ! 5 = IDENTITY_FILE_VERSION" and algo: "b ! 6 = IDENTITY_ALGO_X25519"
    and k: "k = KP_X25519 (take 32 ?p) (drop 32 ?p)"
    by (auto simp: from_identity_bytes_def m Let_def X25519_SECRET_LEN_def X25519_PUBLIC_LEN_def
        split: if_splits)
  have "b = IDENTITY_FILE_MAGIC @ [IDENTITY_FILE_VERSION] @ [IDENTITY_ALGO_X25519] @ ?p"
    using take_app_drop7 [of b] len magic ver algo by simp
  then have "b = to_identity_bytes k"
    by (simp only: k to_identity_bytes.simps append_take_drop_id)
  moreover have "key_pair_wf k"
    by (simp add: key_pair_wf_def k len X25519_SECRET_LEN_def X25519_PUBLIC_LEN_def)
  ultimately show ?thesis by simp
qed

interpretation identity: canonical_codec to_identity_bytes from_identity_bytes key_pair_wf
proof unfold_locales
  fix k assume "key_pair_wf k"
  then show "from_identity_bytes (to_identity_bytes k) = Inr k"
    by (cases k) (simp add: from_identity_bytes_def key_pair_wf_def identity_defs)
qed (rule identity_enc_dec)


section \<open>Noise\<close>

datatype noise_suite = X25519ChaChaPolyBlake2s

primrec pattern_str :: "noise_suite \<Rightarrow> string" where
  "pattern_str X25519ChaChaPolyBlake2s = ''Noise_IK_25519_ChaChaPoly_BLAKE2s''"

primrec key_algorithm :: "noise_suite \<Rightarrow> string" where
  "key_algorithm X25519ChaChaPolyBlake2s = ''x25519''"

fun noise_suite_of :: "static_key_pair \<Rightarrow> noise_suite" where
  "noise_suite_of (KP_X25519 _ _) = X25519ChaChaPolyBlake2s"

definition for_key_algorithm :: "string \<Rightarrow> error + noise_suite" where
  "for_key_algorithm algo =
     (if algo = ''x25519'' then Inr X25519ChaChaPolyBlake2s
      else Inl (InvalidPubKey (Fmt ''no Noise suite registered for key algorithm {:?}'' [algo])))"

text \<open>
  The operations of \<open>snow\<close> the sources call. An operation on \<open>&mut self\<close> returns the new state
  with its result; the last argument of the message operations is the size of the caller's
  output buffer.
\<close>

record ('h, 't) noise_lib =
  build_initiator :: "string \<Rightarrow> bytes \<Rightarrow> bytes \<Rightarrow> string + 'h"
  build_responder :: "string \<Rightarrow> bytes \<Rightarrow> string + 'h"
  hs_write :: "'h \<Rightarrow> bytes \<Rightarrow> nat \<Rightarrow> 'h \<times> (string + bytes)"
  hs_read :: "'h \<Rightarrow> bytes \<Rightarrow> nat \<Rightarrow> 'h \<times> (string + bytes)"
  hs_finished :: "'h \<Rightarrow> bool"
  hs_remote_static :: "'h \<Rightarrow> bytes option"
  into_transport_mode :: "'h \<Rightarrow> string + 't"
  sending_nonce :: "'t \<Rightarrow> u64"
  set_receiving_nonce :: "'t \<Rightarrow> u64 \<Rightarrow> 't"
  tr_write :: "'t \<Rightarrow> bytes \<Rightarrow> nat \<Rightarrow> 't \<times> (string + bytes)"
  tr_read :: "'t \<Rightarrow> bytes \<Rightarrow> nat \<Rightarrow> 't \<times> (string + bytes)"

record postcard_lib =
  enc_envelope :: "control_envelope \<Rightarrow> string + bytes"
  dec_envelope :: "bytes \<Rightarrow> string + control_envelope"
  enc_ack :: "control_ack \<Rightarrow> string + bytes"
  dec_ack :: "bytes \<Rightarrow> string + control_ack"

section \<open>Sessions\<close>

record 't session =
  transport :: 't
  session_id :: session_id
  last_seen_counter :: "u64 option"

record decoded_heartbeat =
  hb_counter :: u64
  hb_timestamp_ms :: u64
  hb_flags :: u8

record decoded_heartbeat_ack =
  hba_counter :: u64
  hba_echoed_counter :: u64
  hba_server_ts_ms :: u64

definition encode_packet ::
  "('h, 't) noise_lib \<Rightarrow> packet_type \<Rightarrow> u64 \<Rightarrow> bytes \<Rightarrow> 't session \<Rightarrow> 't session \<times> (error + bytes)" where
  "encode_packet N packet_type counter plaintext s =
     (case tr_write N (transport s) plaintext MAX_PACKET_LEN of
        (t, Inl e) \<Rightarrow> (s\<lparr>transport := t\<rparr>, Inl (Noise e))
      | (t, Inr ct) \<Rightarrow>
          (s\<lparr>transport := t\<rparr>,
           Inr (write_counter (write_preamble [] packet_type (session_id s)) counter @ ct)))"

definition decode_packet ::
  "('h, 't) noise_lib \<Rightarrow> packet_type \<Rightarrow> packet_view \<Rightarrow> 't session \<Rightarrow> 't session \<times> (error + bytes)" where
  "decode_packet N expected view s =
     (if view_type view \<noteq> expected then (s, Inl (Auth ''unexpected packet type''))
      else if view_session_id view \<noteq> session_id s then (s, Inl (Auth ''session id mismatch''))
      else case view_counter view of
        None \<Rightarrow> (s, Inl (MalformedPacket ''post-handshake packet missing counter''))
      | Some counter \<Rightarrow>
          let proceed =
            (case tr_read N (set_receiving_nonce N (transport s) counter) (view_body view)
                    MAX_PACKET_LEN of
               (t, Inl e) \<Rightarrow> (s\<lparr>transport := t\<rparr>, Inl (Noise e))
             | (t, Inr pt) \<Rightarrow> (s\<lparr>transport := t, last_seen_counter := Some counter\<rparr>, Inr pt))
          in (case last_seen_counter s of
                None \<Rightarrow> proceed
              | Some last_seen \<Rightarrow>
                  if counter \<le> last_seen then (s, Inl (Replay counter last_seen)) else proceed))"

text \<open>The result of a computation on \<open>&mut self\<close>, post-processed by a pure function.\<close>

abbreviation then_pure :: "'s \<times> ('e + 'a) \<Rightarrow> ('a \<Rightarrow> 'e + 'b) \<Rightarrow> 's \<times> ('e + 'b)" where
  "then_pure r f \<equiv> apsnd (\<lambda>x. rbind x f) r"

definition encode_heartbeat ::
  "('h, 't) noise_lib \<Rightarrow> u64 \<Rightarrow> u8 \<Rightarrow> 't session \<Rightarrow> 't session \<times> (error + u64 \<times> bytes)" where
  "encode_heartbeat N timestamp_ms flags s =
     (let counter = sending_nonce N (transport s);
          plaintext = encode_heartbeat_plaintext timestamp_ms flags
      in then_pure (encode_packet N Heartbeat counter plaintext s) (\<lambda>p. Inr (counter, p)))"

definition encode_heartbeat_ack ::
  "('h, 't) noise_lib \<Rightarrow> u64 \<Rightarrow> u64 \<Rightarrow> 't session \<Rightarrow> 't session \<times> (error + u64 \<times> bytes)" where
  "encode_heartbeat_ack N echoed_counter server_ts_ms s =
     (let counter = sending_nonce N (transport s);
          plaintext = encode_heartbeat_ack_plaintext echoed_counter server_ts_ms
      in then_pure (encode_packet N HeartbeatAck counter plaintext s) (\<lambda>p. Inr (counter, p)))"

definition encode_rekey ::
  "('h, 't) noise_lib \<Rightarrow> 't session \<Rightarrow> 't session \<times> (error + u64 \<times> bytes)" where
  "encode_rekey N s =
     (let counter = sending_nonce N (transport s)
      in then_pure (encode_packet N Rekey counter [] s) (\<lambda>p. Inr (counter, p)))"

definition decode_heartbeat ::
  "('h, 't) noise_lib \<Rightarrow> packet_view \<Rightarrow> 't session \<Rightarrow> 't session \<times> (error + decoded_heartbeat)" where
  "decode_heartbeat N view s =
     then_pure (decode_packet N Heartbeat view s) (\<lambda>plaintext.
       rbind (decode_heartbeat_plaintext plaintext) (\<lambda>(timestamp_ms, flags).
       Inr \<lparr>hb_counter = the (view_counter view), hb_timestamp_ms = timestamp_ms,
            hb_flags = flags\<rparr>))"

definition decode_heartbeat_ack ::
  "('h, 't) noise_lib \<Rightarrow> packet_view \<Rightarrow> 't session \<Rightarrow> 't session \<times> (error + decoded_heartbeat_ack)" where
  "decode_heartbeat_ack N view s =
     then_pure (decode_packet N HeartbeatAck view s) (\<lambda>plaintext.
       rbind (decode_heartbeat_ack_plaintext plaintext) (\<lambda>(echoed_counter, server_ts_ms).
       Inr \<lparr>hba_counter = the (view_counter view), hba_echoed_counter = echoed_counter,
            hba_server_ts_ms = server_ts_ms\<rparr>))"

definition decode_rekey ::
  "('h, 't) noise_lib \<Rightarrow> packet_view \<Rightarrow> 't session \<Rightarrow> 't session \<times> (error + u64)" where
  "decode_rekey N view s =
     then_pure (decode_packet N Rekey view s) (\<lambda>plaintext.
       if plaintext \<noteq> [] then Inl (MalformedPacket ''rekey payload must be empty'')
       else Inr (the (view_counter view)))"

definition encode_control ::
  "('h, 't) noise_lib \<Rightarrow> postcard_lib \<Rightarrow> control_envelope \<Rightarrow> 't session
     \<Rightarrow> 't session \<times> (error + u64 \<times> bytes)" where
  "encode_control N P envelope s =
     (let counter = sending_nonce N (transport s) in
      case enc_envelope P envelope of
        Inl e \<Rightarrow> (s, Inl (Postcard e))
      | Inr plaintext \<Rightarrow>
          then_pure (encode_packet N Control counter plaintext s) (\<lambda>p. Inr (counter, p)))"

definition encode_control_ack ::
  "('h, 't) noise_lib \<Rightarrow> postcard_lib \<Rightarrow> control_ack \<Rightarrow> 't session
     \<Rightarrow> 't session \<times> (error + u64 \<times> bytes)" where
  "encode_control_ack N P ack s =
     (let counter = sending_nonce N (transport s) in
      case enc_ack P ack of
        Inl e \<Rightarrow> (s, Inl (Postcard e))
      | Inr plaintext \<Rightarrow>
          then_pure (encode_packet N ControlAck counter plaintext s) (\<lambda>p. Inr (counter, p)))"

definition decode_control ::
  "('h, 't) noise_lib \<Rightarrow> postcard_lib \<Rightarrow> packet_view \<Rightarrow> 't session
     \<Rightarrow> 't session \<times> (error + control_envelope)" where
  "decode_control N P view s =
     then_pure (decode_packet N Control view s) (\<lambda>plaintext. map_err Postcard (dec_envelope P plaintext))"

definition decode_control_ack ::
  "('h, 't) noise_lib \<Rightarrow> postcard_lib \<Rightarrow> packet_view \<Rightarrow> 't session
     \<Rightarrow> 't session \<times> (error + control_ack)" where
  "decode_control_ack N P view s =
     then_pure (decode_packet N ControlAck view s) (\<lambda>plaintext. map_err Postcard (dec_ack P plaintext))"

section \<open>Handshake\<close>

record 'h initiator =
  ini_inner :: 'h
  ini_session_id :: session_id

record 'h half_handshake =
  half_inner :: 'h
  half_session_id :: session_id
  remote_public :: pub_key

definition initiator_start ::
  "('h, 't) noise_lib \<Rightarrow> static_key_pair \<Rightarrow> pub_key \<Rightarrow> session_id \<Rightarrow> error + ('h initiator \<times> bytes)" where
  "initiator_start N local remote sid =
     (let suite = noise_suite_of local in
      if key_algorithm suite \<noteq> algorithm remote
      then Inl (Auth ''local and remote key algorithms differ; cannot establish Noise session'')
      else
        rbind (map_err Noise (build_initiator N (pattern_str suite) (raw_secret_bytes local)
                 (raw_bytes remote))) (\<lambda>inner.
        case hs_write N inner [] 256 of
          (_, Inl e) \<Rightarrow> Inl (Noise e)
        | (inner, Inr msg) \<Rightarrow>
            Inr (\<lparr>ini_inner = inner, ini_session_id = sid\<rparr>,
                 write_preamble [] Handshake1 sid @ msg)))"

definition initiator_complete ::
  "('h, 't) noise_lib \<Rightarrow> packet_view \<Rightarrow> 'h initiator \<Rightarrow> error + 't session" where
  "initiator_complete N view self =
     (if view_type view \<noteq> Handshake2 then Inl (Auth ''expected Handshake2'')
      else if view_session_id view \<noteq> ini_session_id self
        then Inl (Auth ''Handshake2 session id mismatch'')
      else case hs_read N (ini_inner self) (view_body view) 256 of
        (_, Inl e) \<Rightarrow> Inl (Noise e)
      | (inner, Inr _) \<Rightarrow>
          if \<not> hs_finished N inner then Inl (Auth ''handshake unexpectedly incomplete'')
          else rbind (map_err Noise (into_transport_mode N inner)) (\<lambda>tr.
            Inr \<lparr>transport = tr, session_id = ini_session_id self, last_seen_counter = None\<rparr>))"

definition process_handshake_1 ::
  "('h, 't) noise_lib \<Rightarrow> static_key_pair \<Rightarrow> packet_view \<Rightarrow> error + 'h half_handshake" where
  "process_handshake_1 N local view =
     (if view_type view \<noteq> Handshake1 then Inl (Auth ''expected Handshake1'')
      else
        rbind (map_err Noise (build_responder N (pattern_str (noise_suite_of local))
                 (raw_secret_bytes local))) (\<lambda>inner.
        case hs_read N inner (view_body view) 256 of
          (_, Inl e) \<Rightarrow> Inl (Noise e)
        | (inner, Inr _) \<Rightarrow>
            rbind (ok_or (Auth ''Handshake1 carried no static key'') (hs_remote_static N inner))
              (\<lambda>remote_static.
            case local of KP_X25519 _ _ \<Rightarrow>
              if length remote_static \<noteq> X25519_PUBLIC_LEN
              then Inl (Auth ''remote static key has wrong length'')
              else Inr \<lparr>half_inner = inner, half_session_id = view_session_id view,
                        remote_public = X25519 remote_static\<rparr>)))"

definition half_handshake_complete ::
  "('h, 't) noise_lib \<Rightarrow> 'h half_handshake \<Rightarrow> error + ('t session \<times> bytes)" where
  "half_handshake_complete N self =
     (case hs_write N (half_inner self) [] 256 of
        (_, Inl e) \<Rightarrow> Inl (Noise e)
      | (inner, Inr msg) \<Rightarrow>
          if \<not> hs_finished N inner
          then Inl (Auth ''handshake unexpectedly incomplete after msg 2'')
          else
            let packet = write_preamble [] Handshake2 (half_session_id self) @ msg in
            rbind (map_err Noise (into_transport_mode N inner)) (\<lambda>tr.
            Inr (\<lparr>transport = tr, session_id = half_session_id self,
                  last_seen_counter = None\<rparr>, packet)))"


section \<open>Replay protection\<close>

text \<open>
  Every operation a session offers, and the counters of the packets it accepted: \<open>accepted\<close>
  collects, over a run of operations in any order, the counter of each decode that
  returned \<open>Ok\<close>.
\<close>

datatype session_op =
    EncHeartbeat u64 u8
  | EncHeartbeatAck u64 u64
  | EncRekey
  | EncControl control_envelope
  | EncControlAck control_ack
  | DecHeartbeat packet_view
  | DecHeartbeatAck packet_view
  | DecRekey packet_view
  | DecControl packet_view
  | DecControlAck packet_view

definition accepts :: "packet_view \<Rightarrow> 's \<times> ('e + 'a) \<Rightarrow> 's \<times> u64 list" where
  "accepts view = apsnd (\<lambda>r. if is_ok r then [the (view_counter view)] else [])"

fun session_step ::
  "('h, 't) noise_lib \<Rightarrow> postcard_lib \<Rightarrow> 't session \<Rightarrow> session_op \<Rightarrow> 't session \<times> u64 list" where
  "session_step N P s (EncHeartbeat ts fl) = (fst (encode_heartbeat N ts fl s), [])"
| "session_step N P s (EncHeartbeatAck ec ts) = (fst (encode_heartbeat_ack N ec ts s), [])"
| "session_step N P s EncRekey = (fst (encode_rekey N s), [])"
| "session_step N P s (EncControl e) = (fst (encode_control N P e s), [])"
| "session_step N P s (EncControlAck a) = (fst (encode_control_ack N P a s), [])"
| "session_step N P s (DecHeartbeat v) = accepts v (decode_heartbeat N v s)"
| "session_step N P s (DecHeartbeatAck v) = accepts v (decode_heartbeat_ack N v s)"
| "session_step N P s (DecRekey v) = accepts v (decode_rekey N v s)"
| "session_step N P s (DecControl v) = accepts v (decode_control N P v s)"
| "session_step N P s (DecControlAck v) = accepts v (decode_control_ack N P v s)"

fun accepted ::
  "('h, 't) noise_lib \<Rightarrow> postcard_lib \<Rightarrow> 't session \<Rightarrow> session_op list \<Rightarrow> u64 list" where
  "accepted N P s [] = []"
| "accepted N P s (x # xs) =
     (case session_step N P s x of (s', cs) \<Rightarrow> cs @ accepted N P s' xs)"

definition seen_below :: "u64 option \<Rightarrow> u64 \<Rightarrow> bool" where
  "seen_below l c \<longleftrightarrow> (case l of None \<Rightarrow> True | Some x \<Rightarrow> x < c)"

lemma seen_below_simps [simp]:
  "seen_below None c"
  "seen_below (Some x) c \<longleftrightarrow> x < c"
  by (simp_all add: seen_below_def)

lemma encode_packet_last_seen [simp]:
  "last_seen_counter (fst (encode_packet N pt c p s)) = last_seen_counter s"
  "session_id (fst (encode_packet N pt c p s)) = session_id s"
  by (auto simp: encode_packet_def split: prod.split sum.split)

lemma encode_last_seen [simp]:
  "last_seen_counter (fst (encode_heartbeat N ts fl s)) = last_seen_counter s"
  "last_seen_counter (fst (encode_heartbeat_ack N ec ts s)) = last_seen_counter s"
  "last_seen_counter (fst (encode_rekey N s)) = last_seen_counter s"
  "last_seen_counter (fst (encode_control N P e s)) = last_seen_counter s"
  "last_seen_counter (fst (encode_control_ack N P a s)) = last_seen_counter s"
  by (auto simp: encode_heartbeat_def encode_heartbeat_ack_def encode_rekey_def encode_control_def
      encode_control_ack_def Let_def split: sum.split)

lemma decode_packet_cases:
  obtains (rejected) e where "snd (decode_packet N x v s) = Inl e"
      "last_seen_counter (fst (decode_packet N x v s)) = last_seen_counter s"
  | (taken) c p where "snd (decode_packet N x v s) = Inr p" "view_counter v = Some c"
      "view_type v = x" "view_session_id v = session_id s" "seen_below (last_seen_counter s) c"
      "last_seen_counter (fst (decode_packet N x v s)) = Some c"
proof (cases "snd (decode_packet N x v s)")
  case (Inl e)
  then have "last_seen_counter (fst (decode_packet N x v s)) = last_seen_counter s"
    by (auto simp: decode_packet_def Let_def split: if_splits option.splits prod.splits sum.splits)
  with Inl show ?thesis by (rule rejected)
next
  case (Inr p)
  then obtain c where c: "view_counter v = Some c"
    by (auto simp: decode_packet_def split: if_splits option.splits)
  with Inr have "view_type v = x" "view_session_id v = session_id s"
    "seen_below (last_seen_counter s) c"
    "last_seen_counter (fst (decode_packet N x v s)) = Some c"
    by (auto simp: decode_packet_def Let_def not_le
        split: if_splits option.splits prod.splits sum.splits)
  with Inr c show ?thesis by (intro taken)
qed

text \<open>
  What every session operation does to the replay state: the recorded counter never goes
  back, and an accepted packet's counter is above everything recorded before and recorded
  by the operation itself.
\<close>

definition replay_ok :: "u64 option \<Rightarrow> u64 list \<Rightarrow> u64 option \<Rightarrow> bool" where
  "replay_ok l cs l' \<longleftrightarrow>
     (\<forall>c. seen_below l' c \<longrightarrow> seen_below l c) \<and>
     (cs = [] \<or> (\<exists>c. cs = [c] \<and> seen_below l c \<and> l' = Some c))"

lemma replay_ok_decode:
  fixes f :: "bytes \<Rightarrow> error + 'a"
  assumes "(s', cs) = accepts v (then_pure (decode_packet N x v s) f)"
  shows "replay_ok (last_seen_counter s) cs (last_seen_counter s')"
proof (cases rule: decode_packet_cases [of N x v s])
  case (rejected e)
  with assms show ?thesis
    by (cases "decode_packet N x v s") (auto simp: accepts_def replay_ok_def)
next
  case (taken c p)
  have "seen_below (Some c) d \<Longrightarrow> seen_below (last_seen_counter s) d" for d
    using taken(5) by (cases "last_seen_counter s") auto
  with taken assms show ?thesis
    by (cases "decode_packet N x v s") (auto simp: accepts_def replay_ok_def)
qed

lemma session_step_replay_ok:
  assumes "session_step N P s x = (s', cs)"
  shows "replay_ok (last_seen_counter s) cs (last_seen_counter s')"
proof (cases x)
  case (DecHeartbeat v)
  show ?thesis
    by (rule replay_ok_decode [where N = N and v = v and x = Heartbeat])
       (rule assms [symmetric, unfolded DecHeartbeat session_step.simps decode_heartbeat_def])
next
  case (DecHeartbeatAck v)
  show ?thesis
    by (rule replay_ok_decode [where N = N and v = v and x = HeartbeatAck])
       (rule assms [symmetric, unfolded DecHeartbeatAck session_step.simps decode_heartbeat_ack_def])
next
  case (DecRekey v)
  show ?thesis
    by (rule replay_ok_decode [where N = N and v = v and x = Rekey])
       (rule assms [symmetric, unfolded DecRekey session_step.simps decode_rekey_def])
next
  case (DecControl v)
  show ?thesis
    by (rule replay_ok_decode [where N = N and v = v and x = Control])
       (rule assms [symmetric, unfolded DecControl session_step.simps decode_control_def])
next
  case (DecControlAck v)
  show ?thesis
    by (rule replay_ok_decode [where N = N and v = v and x = ControlAck])
       (rule assms [symmetric, unfolded DecControlAck session_step.simps decode_control_ack_def])
qed (use assms in \<open>auto simp: replay_ok_def\<close>)

lemma accepted_increasing:
  "sorted_wrt (<) (accepted N P s xs) \<and> (\<forall>c\<in>set (accepted N P s xs). seen_below (last_seen_counter s) c)"
proof (induction xs arbitrary: s)
  case Nil
  show ?case by simp
next
  case (Cons x xs)
  obtain s' cs where st: "session_step N P s x = (s', cs)" by (cases "session_step N P s x")
  from session_step_replay_ok [OF st] Cons [of s'] st show ?case
    by (auto simp: replay_ok_def)
qed

end
