(* ===== verification/Secure_Channel.thy ===== *)
theory Secure_Channel
  imports Auth
begin

text \<open>
  End-to-end behaviour of the encrypted channel of \<open>auth.rs\<close> over \<open>wire.rs\<close>: a handshake
  between two identities, then messages sent over a lossy network. The documented
  behaviour of the Noise transport and of \<open>postcard\<close> are named hypotheses
  (\<open>transport_contract\<close>, \<open>ik_contract\<close>, \<open>postcard_contract\<close>).
\<close>

section \<open>Contracts of the libraries\<close>

text \<open>
  \<open>linked a b\<close>: transport \<open>a\<close> sends to transport \<open>b\<close> under one key. \<open>snow\<close> encrypts at the current
  sending nonce, adds a 16-byte tag and advances the nonce; the peer decrypts a ciphertext
  when its receiving nonce is set to the sender's. The last nonce is reserved.
\<close>

definition transport_contract :: "('h, 't) noise_lib \<Rightarrow> ('t \<Rightarrow> 't \<Rightarrow> bool) \<Rightarrow> bool" where
  "transport_contract N linked \<longleftrightarrow>
     (\<forall>a b pt. linked a b \<longrightarrow> length pt + AEAD_TAG_LEN \<le> MAX_PACKET_LEN \<longrightarrow> sending_nonce N a \<noteq> -1 \<longrightarrow>
       (\<exists>a' ct b'. tr_write N a pt MAX_PACKET_LEN = (a', Inr ct)
          \<and> sending_nonce N a' = sending_nonce N a + 1 \<and> linked a' b
          \<and> tr_read N (set_receiving_nonce N b (sending_nonce N a)) ct MAX_PACKET_LEN = (b', Inr pt)
          \<and> linked a' b'))"

definition postcard_contract :: "postcard_lib \<Rightarrow> bool" where
  "postcard_contract P \<longleftrightarrow>
     (\<forall>e b. enc_envelope P e = Inr b \<longrightarrow> dec_envelope P b = Inr e) \<and>
     (\<forall>a b. enc_ack P a = Inr b \<longrightarrow> dec_ack P b = Inr a)"

text \<open>
  A Noise IK run between an initiator with secret \<open>si\<close> and a responder with secret \<open>sr\<close>, the
  initiator knowing the responder's public key: both messages fit the 256-byte buffers,
  both sides finish, the responder learns the initiator's static key, and the resulting
  transports are linked in both directions at nonce 0.
\<close>

definition ik_contract ::
  "('h, 't) noise_lib \<Rightarrow> (bytes \<Rightarrow> bytes) \<Rightarrow> ('t \<Rightarrow> 't \<Rightarrow> bool) \<Rightarrow> bool" where
  "ik_contract N pub_of linked \<longleftrightarrow>
     (\<forall>si sr. length si = X25519_SECRET_LEN \<longrightarrow> length sr = X25519_SECRET_LEN \<longrightarrow>
       length (pub_of si) = X25519_PUBLIC_LEN \<and>
       (\<exists>i0 i1 i2 r0 r1 r2 m1 m2 ti tr.
          build_initiator N ''Noise_IK_25519_ChaChaPoly_BLAKE2s'' si (pub_of sr) = Inr i0
          \<and> hs_write N i0 [] 256 = (i1, Inr m1)
          \<and> build_responder N ''Noise_IK_25519_ChaChaPoly_BLAKE2s'' sr = Inr r0
          \<and> hs_read N r0 m1 256 = (r1, Inr []) \<and> hs_remote_static N r1 = Some (pub_of si)
          \<and> hs_write N r1 [] 256 = (r2, Inr m2) \<and> hs_finished N r2
          \<and> into_transport_mode N r2 = Inr tr
          \<and> hs_read N i1 m2 256 = (i2, Inr []) \<and> hs_finished N i2
          \<and> into_transport_mode N i2 = Inr ti
          \<and> length m1 \<le> 256 \<and> length m2 \<le> 256
          \<and> linked ti tr \<and> linked tr ti
          \<and> sending_nonce N ti = 0 \<and> sending_nonce N tr = 0))"

section \<open>Messages over a lossy network\<close>

datatype chan_msg =
    HeartbeatMsg u64 u8
  | HeartbeatAckMsg u64 u64
  | RekeyMsg
  | ControlMsg control_envelope
  | ControlAckMsg control_ack

fun send_msg ::
  "('h, 't) noise_lib \<Rightarrow> postcard_lib \<Rightarrow> chan_msg \<Rightarrow> 't session \<Rightarrow> 't session \<times> (error + u64 \<times> bytes)" where
  "send_msg N P (HeartbeatMsg ts fl) s = encode_heartbeat N ts fl s"
| "send_msg N P (HeartbeatAckMsg ec ts) s = encode_heartbeat_ack N ec ts s"
| "send_msg N P RekeyMsg s = encode_rekey N s"
| "send_msg N P (ControlMsg e) s = encode_control N P e s"
| "send_msg N P (ControlAckMsg a) s = encode_control_ack N P a s"

text \<open>The receiver parses the datagram and decodes it by the type in its preamble.\<close>

definition recv_msg ::
  "('h, 't) noise_lib \<Rightarrow> postcard_lib \<Rightarrow> bytes \<Rightarrow> 't session \<Rightarrow> 't session \<times> (error + chan_msg)" where
  "recv_msg N P buf s =
     (case parse buf of
        Inl e \<Rightarrow> (s, Inl e)
      | Inr v \<Rightarrow>
          (case view_type v of
             Heartbeat \<Rightarrow> then_pure (decode_heartbeat N v s)
               (\<lambda>h. Inr (HeartbeatMsg (hb_timestamp_ms h) (hb_flags h)))
           | HeartbeatAck \<Rightarrow> then_pure (decode_heartbeat_ack N v s)
               (\<lambda>h. Inr (HeartbeatAckMsg (hba_echoed_counter h) (hba_server_ts_ms h)))
           | Rekey \<Rightarrow> then_pure (decode_rekey N v s) (\<lambda>_. Inr RekeyMsg)
           | Control \<Rightarrow> then_pure (decode_control N P v s) (\<lambda>e. Inr (ControlMsg e))
           | ControlAck \<Rightarrow> then_pure (decode_control_ack N P v s) (\<lambda>a. Inr (ControlAckMsg a))
           | _ \<Rightarrow> (s, Inl (Auth ''unexpected packet type''))))"

text \<open>
  \<open>transmit\<close> sends each message in turn; the flag says whether the network delivers its packet
  or loses it. The result lists, per message, what the receiver got.
\<close>

fun transmit ::
  "('h, 't) noise_lib \<Rightarrow> postcard_lib \<Rightarrow> 't session \<Rightarrow> 't session \<Rightarrow> (chan_msg \<times> bool) list
     \<Rightarrow> (error + chan_msg) option list" where
  "transmit N P sa sb [] = []"
| "transmit N P sa sb ((m, delivered) # ms) =
     (case send_msg N P m sa of
        (sa', Inl e) \<Rightarrow> Some (Inl e) # transmit N P sa' sb ms
      | (sa', Inr (_, packet)) \<Rightarrow>
          if delivered then
            (case recv_msg N P packet sb of
               (sb', r) \<Rightarrow> Some r # transmit N P sa' sb' ms)
          else None # transmit N P sa' sb ms)"

text \<open>The plaintext of a message, and whether it fits the packet buffer.\<close>

fun plaintext_of :: "postcard_lib \<Rightarrow> chan_msg \<Rightarrow> string + bytes" where
  "plaintext_of P (HeartbeatMsg ts fl) = Inr (encode_heartbeat_plaintext ts fl)"
| "plaintext_of P (HeartbeatAckMsg ec ts) = Inr (encode_heartbeat_ack_plaintext ec ts)"
| "plaintext_of P RekeyMsg = Inr []"
| "plaintext_of P (ControlMsg e) = enc_envelope P e"
| "plaintext_of P (ControlAckMsg a) = enc_ack P a"

primrec type_of :: "chan_msg \<Rightarrow> packet_type" where
  "type_of (HeartbeatMsg _ _) = Heartbeat"
| "type_of (HeartbeatAckMsg _ _) = HeartbeatAck"
| "type_of RekeyMsg = Rekey"
| "type_of (ControlMsg _) = Control"
| "type_of (ControlAckMsg _) = ControlAck"

definition sendable :: "postcard_lib \<Rightarrow> chan_msg \<Rightarrow> bool" where
  "sendable P m \<longleftrightarrow>
     (case plaintext_of P m of Inl _ \<Rightarrow> False | Inr p \<Rightarrow> length p \<le> MAX_CONTROL_PLAINTEXT_LEN)"

lemma send_msg_eq:
  assumes "plaintext_of P m = Inr p"
  shows "send_msg N P m s =
    then_pure (encode_packet N (type_of m) (sending_nonce N (transport s)) p s)
      (\<lambda>b. Inr (sending_nonce N (transport s), b))"
  using assms
  by (cases m) (auto simp: encode_heartbeat_def encode_heartbeat_ack_def encode_rekey_def
      encode_control_def encode_control_ack_def Let_def)

lemma has_counter_type_of [simp]: "has_counter (type_of m)"
  by (cases m) simp_all

lemma parse_post_handshake:
  assumes "has_counter pt"
  shows "parse (write_counter (write_preamble [] pt sid) c @ ct) =
    Inr \<lparr>view_type = pt, view_session_id = sid, view_counter = Some c, view_body = ct\<rparr>"
  using parse_packet_bytes [of "\<lparr>view_type = pt, view_session_id = sid, view_counter = Some c,
      view_body = ct\<rparr>"] assms
  by (simp add: packet_bytes_def view_wf_def)

lemma recv_msg_eq:
  assumes "postcard_contract P" and "plaintext_of P m = Inr p"
    and "parse buf = Inr v" and "view_type v = type_of m"
    and "decode_packet N (type_of m) v s = (s', Inr p)"
  shows "recv_msg N P buf s = (s', Inr m)"
proof (cases m)
  case (HeartbeatMsg ts fl)
  with assms heartbeat_pt.dec_enc [of "(ts, fl)"] show ?thesis
    by (simp add: recv_msg_def decode_heartbeat_def)
next
  case (HeartbeatAckMsg ec ts)
  with assms heartbeat_ack_pt.dec_enc [of "(ec, ts)"] show ?thesis
    by (simp add: recv_msg_def decode_heartbeat_ack_def)
next
  case RekeyMsg
  with assms show ?thesis by (simp add: recv_msg_def decode_rekey_def)
next
  case (ControlMsg e)
  with assms show ?thesis by (simp add: recv_msg_def decode_control_def postcard_contract_def)
next
  case (ControlAckMsg a)
  with assms show ?thesis by (simp add: recv_msg_def decode_control_ack_def postcard_contract_def)
qed

text \<open>One message: the packet is produced, and the peer decodes it to the same message.\<close>

lemma one_message:
  assumes N: "transport_contract N linked" and P: "postcard_contract P"
    and m: "sendable P m"
    and lk: "linked (transport sa) (transport sb)" and sid: "session_id sb = session_id sa"
    and room: "sending_nonce N (transport sa) \<noteq> -1"
    and fresh: "seen_below (last_seen_counter sb) (sending_nonce N (transport sa))"
  obtains sa' sb' packet where
    "send_msg N P m sa = (sa', Inr (sending_nonce N (transport sa), packet))"
    "recv_msg N P packet sb = (sb', Inr m)"
    "linked (transport sa') (transport sb)" "linked (transport sa') (transport sb')"
    "session_id sa' = session_id sa" "session_id sb' = session_id sa"
    "sending_nonce N (transport sa') = sending_nonce N (transport sa) + 1"
    "last_seen_counter sb' = Some (sending_nonce N (transport sa))"
proof -
  let ?n = "sending_nonce N (transport sa)"
  from m obtain p where p: "plaintext_of P m = Inr p" and
    len: "length p + AEAD_TAG_LEN \<le> MAX_PACKET_LEN"
    by (auto simp: sendable_def wire_len_defs split: sum.splits)
  from N lk len room obtain a' ct b' where
    w: "tr_write N (transport sa) p MAX_PACKET_LEN = (a', Inr ct)"
    and n': "sending_nonce N a' = ?n + 1" and lka: "linked a' (transport sb)"
    and r: "tr_read N (set_receiving_nonce N (transport sb) ?n) ct MAX_PACKET_LEN = (b', Inr p)"
    and lkb: "linked a' b'"
    unfolding transport_contract_def by blast
  let ?packet = "write_counter (write_preamble [] (type_of m) (session_id sa)) ?n @ ct"
  let ?sa' = "sa\<lparr>transport := a'\<rparr>" and ?sb' = "sb\<lparr>transport := b', last_seen_counter := Some ?n\<rparr>"
  have send: "send_msg N P m sa = (?sa', Inr (?n, ?packet))"
    by (simp add: send_msg_eq [OF p] encode_packet_def w)
  have recv: "recv_msg N P ?packet sb = (?sb', Inr m)"
    using fresh
    by (intro recv_msg_eq [OF P p parse_post_handshake [OF has_counter_type_of]])
       (auto simp: decode_packet_def Let_def sid r not_le split: option.split)
  show ?thesis using lka lkb n' sid by (intro that [OF send recv]) simp_all
qed

lemma transmit_delivers:
  assumes "transport_contract N linked" and "postcard_contract P"
    and "\<forall>(m, d)\<in>set ms. sendable P m"
    and "linked (transport sa) (transport sb)" and "session_id sb = session_id sa"
    and "unat (sending_nonce N (transport sa)) + length ms < 2 ^ 64"
    and "seen_below (last_seen_counter sb) (sending_nonce N (transport sa))"
  shows "transmit N P sa sb ms = map (\<lambda>(m, d). if d then Some (Inr m) else None) ms"
  using assms(3-)
proof (induction ms arbitrary: sa sb)
  case Nil
  show ?case by simp
next
  case (Cons md ms)
  obtain m d where md: "md = (m, d)" by (cases md)
  let ?n = "sending_nonce N (transport sa)"
  have lt: "unat ?n + 1 < 2 ^ 64" and ms: "\<forall>(m, d)\<in>set ms. sendable P m"
    using Cons.prems by auto
  have room: "?n \<noteq> -1"
  proof
    assume "?n = -1"
    with lt show False by (simp add: unsigned_minus_1_eq_mask mask_eq_exp_minus_1)
  qed
  have n1: "unat (?n + 1) = unat ?n + 1" using lt by (simp add: unat_word_ariths)
  have up: "?n < ?n + 1" using n1 by (simp add: word_less_nat_alt)
  from Cons.prems md room obtain sa' sb' packet where
    st: "send_msg N P m sa = (sa', Inr (?n, packet))" "recv_msg N P packet sb = (sb', Inr m)"
      "linked (transport sa') (transport sb)" "linked (transport sa') (transport sb')"
      "session_id sa' = session_id sa" "session_id sb' = session_id sa"
      "sending_nonce N (transport sa') = ?n + 1" "last_seen_counter sb' = Some ?n"
    by (auto intro: one_message [OF assms(1,2), of m sa sb])
  have fresh: "seen_below (last_seen_counter sb) (?n + 1)"
    using Cons.prems(5) up by (cases "last_seen_counter sb") auto
  show ?case
  proof (cases d)
    case True
    have "transmit N P sa' sb' ms = map (\<lambda>(m, d). if d then Some (Inr m) else None) ms"
      using Cons.prems st ms up n1 by (intro Cons.IH) auto
    with st md True show ?thesis by simp
  next
    case False
    have "transmit N P sa' sb ms = map (\<lambda>(m, d). if d then Some (Inr m) else None) ms"
      using Cons.prems st ms fresh n1 by (intro Cons.IH) auto
    with st md False show ?thesis by simp
  qed
qed

section \<open>Handshake\<close>

lemma parse_handshake:
  assumes "\<not> has_counter pt"
  shows "parse (write_preamble [] pt sid @ msg) =
    Inr \<lparr>view_type = pt, view_session_id = sid, view_counter = None, view_body = msg\<rparr>"
  using parse_packet_bytes [of "\<lparr>view_type = pt, view_session_id = sid, view_counter = None,
      view_body = msg\<rparr>"] assms
  by (simp add: packet_bytes_def view_wf_def)

text \<open>The two-packet exchange between \<open>Initiator\<close> and \<open>Responder\<close>, packets parsed on arrival.\<close>

definition handshake ::
  "('h, 't) noise_lib \<Rightarrow> static_key_pair \<Rightarrow> static_key_pair \<Rightarrow> session_id
     \<Rightarrow> error + ('t session \<times> 't session \<times> pub_key)" where
  "handshake N ki kr sid =
     rbind (initiator_start N ki (public_key kr) sid) (\<lambda>(ini, p1).
     rbind (parse p1) (\<lambda>v1.
     rbind (process_handshake_1 N kr v1) (\<lambda>half.
     rbind (half_handshake_complete N half) (\<lambda>(sr, p2).
     rbind (parse p2) (\<lambda>v2.
     rbind (initiator_complete N v2 ini) (\<lambda>si. Inr (si, sr, remote_public half)))))))"

lemma handshake_links:
  assumes N: "ik_contract N pub_of linked"
    and ki: "key_pair_wf ki" "kp_public ki = pub_of (kp_secret ki)"
    and kr: "key_pair_wf kr" "kp_public kr = pub_of (kp_secret kr)"
  shows "\<exists>si sr. handshake N ki kr sid = Inr (si, sr, public_key ki)
    \<and> session_id si = sid \<and> session_id sr = sid
    \<and> last_seen_counter si = None \<and> last_seen_counter sr = None
    \<and> linked (transport si) (transport sr) \<and> linked (transport sr) (transport si)
    \<and> sending_nonce N (transport si) = 0 \<and> sending_nonce N (transport sr) = 0"
proof -
  obtain a pa b pb where k: "ki = KP_X25519 a pa" "kr = KP_X25519 b pb"
    by (cases ki; cases kr) blast
  with ki kr have len: "length a = X25519_SECRET_LEN" "length b = X25519_SECRET_LEN"
    and pub: "pa = pub_of a" "pb = pub_of b"
    by (auto simp: key_pair_wf_def)
  from N [unfolded ik_contract_def, rule_format, OF len] obtain i0 i1 i2 r0 r1 r2 m1 m2 ti tr where
    "length (pub_of a) = X25519_PUBLIC_LEN"
    "build_initiator N ''Noise_IK_25519_ChaChaPoly_BLAKE2s'' a (pub_of b) = Inr i0"
    "hs_write N i0 [] 256 = (i1, Inr m1)"
    "build_responder N ''Noise_IK_25519_ChaChaPoly_BLAKE2s'' b = Inr r0"
    "hs_read N r0 m1 256 = (r1, Inr [])" "hs_remote_static N r1 = Some (pub_of a)"
    "hs_write N r1 [] 256 = (r2, Inr m2)" "hs_finished N r2" "into_transport_mode N r2 = Inr tr"
    "hs_read N i1 m2 256 = (i2, Inr [])" "hs_finished N i2" "into_transport_mode N i2 = Inr ti"
    "linked ti tr" "linked tr ti" "sending_nonce N ti = 0" "sending_nonce N tr = 0"
    by blast
  then show ?thesis
    by (simp add: handshake_def k pub initiator_start_def parse_handshake process_handshake_1_def
        half_handshake_complete_def initiator_complete_def)
qed


section \<open>A concrete library\<close>

text \<open>
  Plain instances of the parameters, to exhibit that the contracts can be met: a handshake
  that exchanges the keys in the clear, a transport whose tag repeats the nonce, and a
  direct serialisation of envelopes and acks.
\<close>

type_synonym plain_hs = "bool \<times> bytes \<times> bytes option \<times> nat"
type_synonym plain_tr = "u64 \<times> u64"

fun plain_hs_write :: "plain_hs \<Rightarrow> bytes \<Rightarrow> nat \<Rightarrow> plain_hs \<times> (string + bytes)" where
  "plain_hs_write (ini, s, r, n) payload cap = ((ini, s, r, n + 1), Inr s)"

fun plain_hs_read :: "plain_hs \<Rightarrow> bytes \<Rightarrow> nat \<Rightarrow> plain_hs \<times> (string + bytes)" where
  "plain_hs_read (ini, s, r, n) msg cap = ((ini, s, Some msg, n + 1), Inr [])"

fun plain_tr_write :: "plain_tr \<Rightarrow> bytes \<Rightarrow> nat \<Rightarrow> plain_tr \<times> (string + bytes)" where
  "plain_tr_write (n, r) pt cap =
     (if length pt + 16 \<le> cap then ((n + 1, r), Inr (pt @ be_bytes 8 n @ be_bytes 8 n))
      else ((n, r), Inl ''input''))"

fun plain_tr_read :: "plain_tr \<Rightarrow> bytes \<Rightarrow> nat \<Rightarrow> plain_tr \<times> (string + bytes)" where
  "plain_tr_read (n, r) ct cap =
     (if 16 \<le> length ct \<and> drop (length ct - 16) ct = be_bytes 8 r @ be_bytes 8 r
      then ((n, r + 1), Inr (take (length ct - 16) ct)) else ((n, r), Inl ''decrypt''))"

definition plain_noise :: "(plain_hs, plain_tr) noise_lib" where
  "plain_noise = \<lparr>
     build_initiator = (\<lambda>_ s r. Inr (True, s, Some r, 0)),
     build_responder = (\<lambda>_ s. Inr (False, s, None, 0)),
     hs_write = plain_hs_write, hs_read = plain_hs_read,
     hs_finished = (\<lambda>(_, _, _, n). n = 2), hs_remote_static = (\<lambda>(_, _, r, _). r),
     into_transport_mode = (\<lambda>_. Inr (0, 0)),
     sending_nonce = fst, set_receiving_nonce = (\<lambda>(n, _) r. (n, r)),
     tr_write = plain_tr_write, tr_read = plain_tr_read\<rparr>"

fun plain_status :: "ack_status \<Rightarrow> bytes" where
  "plain_status AckOk = [0]"
| "plain_status (Reject c) = 1 # be_bytes 2 c"
| "plain_status Unknown = [2]"

definition plain_dec_status :: "bytes \<Rightarrow> string + ack_status" where
  "plain_dec_status b =
     (if b = [0] then Inr AckOk else if b = [2] then Inr Unknown
      else if length b = 3 \<and> hd b = 1 then Inr (Reject (of_be (tl b))) else Inl ''status'')"

definition plain_postcard :: postcard_lib where
  "plain_postcard = \<lparr>
     enc_envelope = (\<lambda>e. Inr (be_bytes 4 (env_seq e) @ env_body_type e # env_body e)),
     dec_envelope = (\<lambda>b. if length b < 5 then Inl ''eof''
       else Inr \<lparr>env_seq = of_be (take 4 b), env_body_type = b ! 4, env_body = drop 5 b\<rparr>),
     enc_ack = (\<lambda>a. Inr (be_bytes 4 (ack_seq a) @ plain_status (ack_status a))),
     dec_ack = (\<lambda>b. rbind (plain_dec_status (drop 4 b)) (\<lambda>st.
       Inr \<lparr>ack_seq = of_be (take 4 b), ack_status = st\<rparr>))\<rparr>"

definition plain_key :: "u8 \<Rightarrow> static_key_pair" where
  "plain_key b = KP_X25519 (replicate 32 b) (replicate 32 b)"

definition plain_msgs :: "(chan_msg \<times> bool) list" where
  "plain_msgs = [(HeartbeatMsg 7 0, True), (RekeyMsg, False),
     (ControlAckMsg \<lparr>ack_seq = 9, ack_status = Reject 101\<rparr>, True)]"

lemma plain_transport: "transport_contract plain_noise (\<lambda>_ _. True)"
  by (auto simp: transport_contract_def plain_noise_def wire_len_defs)

lemma plain_ik: "ik_contract plain_noise id (\<lambda>_ _. True)"
  by (auto simp: ik_contract_def plain_noise_def X25519_SECRET_LEN_def X25519_PUBLIC_LEN_def)

lemma plain_dec_status_enc [simp]: "plain_dec_status (plain_status st) = Inr st"
  by (cases st) (auto simp: plain_dec_status_def)

lemma plain_postcard_ok: "postcard_contract plain_postcard"
  by (auto simp: postcard_contract_def plain_postcard_def nth_append)

section \<open>Properties\<close>

text \<open>
  C3: replay protection. Over any sequence of session operations, the counters of the packets
  a session accepts are strictly increasing and all above the counter recorded at the
  start; so no packet is ever accepted twice, whatever arrives and in whatever order.
\<close>

theorem session_rejects_replays:
  "sorted_wrt (<) (accepted N P s ops) \<and>
   list_all (seen_below (last_seen_counter s)) (accepted N P s ops)"
  using accepted_increasing [of N P s ops] by (simp add: list_all_iff)

text \<open>
  C2: two identities that run the handshake obtain sessions with the chosen id, the responder
  learning the initiator's public key; then every message of any sequence that fits a
  packet and that the network delivers is decoded to exactly itself, whatever packets are
  lost in between.
\<close>

theorem handshake_then_messages:
  assumes "ik_contract N pub_of linked" and "transport_contract N linked" and "postcard_contract P"
    and "key_pair_wf ki" and "kp_public ki = pub_of (kp_secret ki)"
    and "key_pair_wf kr" and "kp_public kr = pub_of (kp_secret kr)"
    and "list_all (\<lambda>(m, d). sendable P m) ms" and "length ms < 2 ^ 64"
  shows "\<exists>si sr. handshake N ki kr sid = Inr (si, sr, public_key ki)
    \<and> session_id si = sid \<and> session_id sr = sid
    \<and> transmit N P si sr ms = map (\<lambda>(m, d). if d then Some (Inr m) else None) ms
    \<and> transmit N P sr si ms = map (\<lambda>(m, d). if d then Some (Inr m) else None) ms"
proof -
  from handshake_links [OF assms(1,4,5,6,7), of sid] obtain si sr where
    h: "handshake N ki kr sid = Inr (si, sr, public_key ki)"
      "session_id si = sid" "session_id sr = sid"
      "last_seen_counter si = None" "last_seen_counter sr = None"
      "linked (transport si) (transport sr)" "linked (transport sr) (transport si)"
      "sending_nonce N (transport si) = 0" "sending_nonce N (transport sr) = 0"
    by blast
  have ms: "\<forall>(m, d)\<in>set ms. sendable P m" using assms(8) by (simp add: list_all_iff)
  have "transmit N P si sr ms = map (\<lambda>(m, d). if d then Some (Inr m) else None) ms"
    using h assms(9) by (intro transmit_delivers [OF assms(2,3) ms]) simp_all
  moreover have "transmit N P sr si ms = map (\<lambda>(m, d). if d then Some (Inr m) else None) ms"
    using h assms(9) by (intro transmit_delivers [OF assms(2,3) ms]) simp_all
  ultimately show ?thesis using h by blast
qed

theorem handshake_then_messages_witness:
  "\<exists>si sr. handshake plain_noise (plain_key 1) (plain_key 2) (SessionId 1 2 3 4)
        = Inr (si, sr, public_key (plain_key 1))
    \<and> session_id si = SessionId 1 2 3 4 \<and> session_id sr = SessionId 1 2 3 4
    \<and> transmit plain_noise plain_postcard si sr plain_msgs =
        map (\<lambda>(m, d). if d then Some (Inr m) else None) plain_msgs
    \<and> transmit plain_noise plain_postcard sr si plain_msgs =
        map (\<lambda>(m, d). if d then Some (Inr m) else None) plain_msgs"
  by (rule handshake_then_messages [OF plain_ik plain_transport plain_postcard_ok])
     (simp_all add: plain_key_def plain_msgs_def key_pair_wf_def sendable_def plain_postcard_def
       encode_heartbeat_plaintext_def wire_len_defs X25519_SECRET_LEN_def X25519_PUBLIC_LEN_def)

text \<open>
  the identity file format is exact: a byte string loads as a key pair iff it is the
  serialisation of that pair with a 32-byte secret and a 32-byte public key.
\<close>

theorem identity_file_exact:
  "from_identity_bytes b = Inr k \<longleftrightarrow> key_pair_wf k \<and> b = to_identity_bytes k"
  by (rule identity.dec_iff)

end
