(* ===== verification/Reliability.thy ===== *)
theory Reliability
  imports Control_Frame Ordered_Map
begin

text \<open>
  The per-session reliability layer of the control channel (crate \<open>yggdrasil\<close>, file
  \<open>chain/reliability.rs\<close>): sequence numbers, retransmission with exponential backoff,
  acknowledgement of outstanding sends and the inbound deduplication window.

  Instants and durations are milliseconds. A oneshot sender is an identifier; sending on
  it is a notification, a pair of the identifier and the outcome, returned by the
  operation. A panic is \<open>None\<close>.
\<close>

section \<open>State\<close>

definition RETX_INITIAL :: nat where "RETX_INITIAL = 200"
definition RETX_MAX :: nat where "RETX_MAX = 2000"
definition RETX_MAX_ATTEMPTS :: nat where "RETX_MAX_ATTEMPTS = 5"
definition DEDUP_WINDOW :: nat where "DEDUP_WINDOW = 256"

datatype send_error = Timeout nat | Rejected u16 | UnknownBodyType | ChannelClosed

type_synonym notification = "nat \<times> (send_error + unit)"

record outbound_entry =
  ent_envelope :: control_envelope
  attempts :: nat
  next_send_at :: nat
  completion :: "nat option"

record dedup_window =
  seen :: "u32 list"
  cap :: nat

record control_channel =
  next_seq :: u32
  outbound :: "(u32, outbound_entry) btree"
  dedup :: dedup_window

datatype inbound_disposition = Deliver control_envelope | Duplicate

section \<open>Operations\<close>

definition dedup_new :: "nat \<Rightarrow> dedup_window" where
  "dedup_new c = \<lparr>seen = [], cap = c\<rparr>"

definition dedup_contains :: "dedup_window \<Rightarrow> u32 \<Rightarrow> bool" where
  "dedup_contains w seq \<longleftrightarrow> list_ex (\<lambda>s. s = seq) (seen w)"

definition dedup_insert :: "u32 \<Rightarrow> dedup_window \<Rightarrow> dedup_window" where
  "dedup_insert seq w =
     (if dedup_contains w seq then w
      else
        let w = (if length (seen w) = cap w then w\<lparr>seen := tl (seen w)\<rparr> else w)
        in w\<lparr>seen := seen w @ [seq]\<rparr>)"

definition channel_new :: control_channel where
  "channel_new = \<lparr>next_seq = 1, outbound = bt_empty, dedup = dedup_new DEDUP_WINDOW\<rparr>"

definition enqueue ::
  "u8 \<Rightarrow> bytes \<Rightarrow> nat \<Rightarrow> nat \<Rightarrow> control_channel \<Rightarrow> (control_channel \<times> control_envelope) option" where
  "enqueue body_type body tx now ch =
     (let seq = next_seq ch in
      if seq = -1 then None
      else
        let envelope = \<lparr>env_seq = seq, env_body_type = body_type, env_body = body\<rparr>;
            entry = \<lparr>ent_envelope = envelope, attempts = 1, next_send_at = now + RETX_INITIAL,
                     completion = Some tx\<rparr>
        in Some (ch\<lparr>next_seq := seq + 1, outbound := bt_insert seq entry (outbound ch)\<rparr>, envelope))"

definition backoff_for :: "nat \<Rightarrow> nat" where
  "backoff_for n =
     (let shift = min (n - 1) 8; computed = RETX_INITIAL * 2 ^ shift in min computed RETX_MAX)"

text \<open>The loop of \<open>next_due\<close> over the queue: new entries, envelopes to send, expired seqs.\<close>

fun due_loop ::
  "nat \<Rightarrow> (u32, outbound_entry) btree \<Rightarrow>
     (u32, outbound_entry) btree \<times> control_envelope list \<times> u32 list" where
  "due_loop now [] = ([], [], [])"
| "due_loop now ((seq, entry) # m) =
     (case due_loop now m of (m', out, timed_out) \<Rightarrow>
        if next_send_at entry > now then ((seq, entry) # m', out, timed_out)
        else if attempts entry \<ge> RETX_MAX_ATTEMPTS then ((seq, entry) # m', out, seq # timed_out)
        else
          let entry' = entry\<lparr>attempts := attempts entry + 1\<rparr>;
              entry' = entry'\<lparr>next_send_at := now + backoff_for (attempts entry')\<rparr>
          in ((seq, entry') # m', ent_envelope entry' # out, timed_out))"

definition notify :: "nat option \<Rightarrow> send_error + unit \<Rightarrow> notification list" where
  "notify tx r = (case tx of None \<Rightarrow> [] | Some c \<Rightarrow> [(c, r)])"

fun expire ::
  "u32 list \<Rightarrow> (u32, outbound_entry) btree \<Rightarrow> (u32, outbound_entry) btree \<times> notification list" where
  "expire [] m = (m, [])"
| "expire (seq # seqs) m =
     (case bt_get m seq of
        None \<Rightarrow> expire seqs m
      | Some entry \<Rightarrow>
          (case expire seqs (bt_remove seq m) of (m', ns) \<Rightarrow>
             (m', notify (completion entry) (Inl (Timeout RETX_MAX_ATTEMPTS)) @ ns)))"

definition next_due ::
  "nat \<Rightarrow> control_channel \<Rightarrow> control_channel \<times> control_envelope list \<times> notification list" where
  "next_due now ch =
     (case due_loop now (outbound ch) of (m, out, timed_out) \<Rightarrow>
      case expire timed_out m of (m', ns) \<Rightarrow> (ch\<lparr>outbound := m'\<rparr>, out, ns))"

definition next_tick_at :: "control_channel \<Rightarrow> nat option" where
  "next_tick_at ch =
     (case map next_send_at (bt_values (outbound ch)) of
        [] \<Rightarrow> None | t # ts \<Rightarrow> Some (fold min ts t))"

primrec ack_result :: "ack_status \<Rightarrow> send_error + unit" where
  "ack_result AckOk = Inr ()"
| "ack_result (Reject code) = Inl (Rejected code)"
| "ack_result Unknown = Inl UnknownBodyType"

definition on_ack :: "control_ack \<Rightarrow> control_channel \<Rightarrow> control_channel \<times> bool \<times> notification list" where
  "on_ack ack ch =
     (case bt_get (outbound ch) (ack_seq ack) of
        None \<Rightarrow> (ch, False, [])
      | Some entry \<Rightarrow>
          (ch\<lparr>outbound := bt_remove (ack_seq ack) (outbound ch)\<rparr>, True,
           notify (completion entry) (ack_result (ack_status ack))))"

definition on_inbound :: "control_envelope \<Rightarrow> control_channel \<Rightarrow> control_channel \<times> inbound_disposition" where
  "on_inbound env ch =
     (if dedup_contains (dedup ch) (env_seq env) then (ch, Duplicate)
      else (ch\<lparr>dedup := dedup_insert (env_seq env) (dedup ch)\<rparr>, Deliver env))"

definition pending :: "control_channel \<Rightarrow> nat" where
  "pending ch = length (outbound ch)"

definition abort_all :: "control_channel \<Rightarrow> control_channel \<times> notification list" where
  "abort_all ch =
     (ch\<lparr>outbound := bt_empty\<rparr>,
      concat (map (\<lambda>entry. notify (completion entry) (Inl ChannelClosed)) (bt_values (outbound ch))))"

text \<open>\<open>Drop for ControlChannel\<close>: leftover waiters are told the channel closed.\<close>

definition channel_drop :: "control_channel \<Rightarrow> notification list" where
  "channel_drop ch = snd (abort_all ch)"

section \<open>Invariant\<close>

definition entry_ok :: "u32 \<Rightarrow> u32 \<times> outbound_entry \<Rightarrow> bool" where
  "entry_ok nseq = (\<lambda>(seq, e). env_seq (ent_envelope e) = seq \<and> 1 \<le> seq \<and> seq < nseq
     \<and> 1 \<le> attempts e \<and> attempts e \<le> RETX_MAX_ATTEMPTS \<and> completion e \<noteq> None)"

definition dedup_wf :: "dedup_window \<Rightarrow> bool" where
  "dedup_wf w \<longleftrightarrow> cap w = DEDUP_WINDOW \<and> length (seen w) \<le> cap w \<and> distinct (seen w)"

definition channel_wf :: "control_channel \<Rightarrow> bool" where
  "channel_wf ch \<longleftrightarrow> 1 \<le> next_seq ch \<and> bt_wf (outbound ch)
     \<and> (\<forall>p\<in>set (outbound ch). entry_ok (next_seq ch) p) \<and> dedup_wf (dedup ch)"

text \<open>The operations as steps of one machine; a panicking \<open>enqueue\<close> leaves the queue alone.\<close>

datatype chan_op =
    Enqueue u8 bytes nat nat
  | NextDue nat
  | OnAck control_ack
  | OnInbound control_envelope
  | AbortAll

type_synonym chan_out = "control_envelope list \<times> notification list"

fun chan_step :: "control_channel \<Rightarrow> chan_op \<Rightarrow> control_channel \<times> chan_out" where
  "chan_step ch (Enqueue t b tx now) =
     (case enqueue t b tx now ch of None \<Rightarrow> (ch, [], []) | Some (ch', env) \<Rightarrow> (ch', [env], []))"
| "chan_step ch (NextDue now) = next_due now ch"
| "chan_step ch (OnAck a) = (case on_ack a ch of (ch', _, ns) \<Rightarrow> (ch', [], ns))"
| "chan_step ch (OnInbound e) = (fst (on_inbound e ch), [], [])"
| "chan_step ch AbortAll = (case abort_all ch of (ch', ns) \<Rightarrow> (ch', [], ns))"

fun chan_run :: "control_channel \<Rightarrow> chan_op list \<Rightarrow> control_channel \<times> chan_out" where
  "chan_run ch [] = (ch, [], [])"
| "chan_run ch (x # xs) =
     (case chan_step ch x of (ch1, es1, ns1) \<Rightarrow>
      case chan_run ch1 xs of (ch2, es2, ns2) \<Rightarrow> (ch2, es1 @ es2, ns1 @ ns2))"

text \<open>The waiters handed to the channel: those of the enqueues that did not panic.\<close>

fun op_waiter :: "control_channel \<Rightarrow> chan_op \<Rightarrow> nat list" where
  "op_waiter ch (Enqueue t b tx now) = (if next_seq ch = -1 then [] else [tx])"
| "op_waiter ch _ = []"

fun enqueued :: "control_channel \<Rightarrow> chan_op list \<Rightarrow> nat list" where
  "enqueued ch [] = []"
| "enqueued ch (x # xs) = op_waiter ch x @ enqueued (fst (chan_step ch x)) xs"

definition entry_waiter :: "outbound_entry \<Rightarrow> nat list" where
  "entry_waiter e = (case completion e of None \<Rightarrow> [] | Some c \<Rightarrow> [c])"

definition waiters :: "control_channel \<Rightarrow> nat multiset" where
  "waiters ch = mset (concat (map (\<lambda>(_, e). entry_waiter e) (outbound ch)))"

section \<open>The retransmission pass in closed form\<close>

definition expired :: "nat \<Rightarrow> outbound_entry \<Rightarrow> bool" where
  "expired now e \<longleftrightarrow> next_send_at e \<le> now \<and> RETX_MAX_ATTEMPTS \<le> attempts e"

definition resend :: "nat \<Rightarrow> outbound_entry \<Rightarrow> bool" where
  "resend now e \<longleftrightarrow> next_send_at e \<le> now \<and> attempts e < RETX_MAX_ATTEMPTS"

definition bump :: "nat \<Rightarrow> outbound_entry \<Rightarrow> outbound_entry" where
  "bump now e =
     (if resend now e
      then e\<lparr>attempts := attempts e + 1, next_send_at := now + backoff_for (attempts e + 1)\<rparr>
      else e)"

lemma bump_fields [simp]:
  "ent_envelope (bump now e) = ent_envelope e"
  "completion (bump now e) = completion e"
  "entry_waiter (bump now e) = entry_waiter e"
  by (simp_all add: bump_def entry_waiter_def)

lemma due_loop_eq:
  "due_loop now m =
     (map (\<lambda>(s, e). (s, bump now e)) m,
      map (\<lambda>(s, e). ent_envelope e) (filter (\<lambda>(s, e). resend now e) m),
      map fst (filter (\<lambda>(s, e). expired now e) m))"
proof (induction m)
  case Nil
  show ?case by simp
next
  case (Cons p m)
  obtain q e where p: "p = (q, e)" by (cases p)
  consider "next_send_at e > now" | "next_send_at e \<le> now" "RETX_MAX_ATTEMPTS \<le> attempts e"
    | "next_send_at e \<le> now" "attempts e < RETX_MAX_ATTEMPTS"
    by linarith
  then show ?case
    using Cons p by cases (simp_all add: bump_def resend_def expired_def Let_def)
qed

lemma expire_eq:
  assumes "bt_wf m" and "distinct seqs"
  shows "expire seqs m =
     (filter (\<lambda>(k, _). k \<notin> set seqs) m,
      concat (map (\<lambda>s. case bt_get m s of None \<Rightarrow> []
         | Some e \<Rightarrow> notify (completion e) (Inl (Timeout RETX_MAX_ATTEMPTS))) seqs))"
  using assms
proof (induction seqs arbitrary: m)
  case Nil
  show ?case by simp
next
  case (Cons q seqs)
  have other: "map (\<lambda>s. case ((bt_get m)(q := None)) s of None \<Rightarrow> []
         | Some e \<Rightarrow> notify (completion e) (Inl (Timeout RETX_MAX_ATTEMPTS))) seqs
     = map (\<lambda>s. case bt_get m s of None \<Rightarrow> []
         | Some e \<Rightarrow> notify (completion e) (Inl (Timeout RETX_MAX_ATTEMPTS))) seqs"
    using Cons.prems(2) by (intro map_cong) auto
  have two: "filter (\<lambda>(k, _). k \<notin> set seqs) (bt_remove q m) = filter (\<lambda>(k, _). k \<notin> set (q # seqs)) m"
    by (simp add: bt_remove_def case_prod_unfold)
  show ?case
  proof (cases "bt_get m q")
    case None
    then have "bt_remove q m = m" by (simp add: bt_get_None)
    with None Cons two show ?thesis by simp
  next
    case (Some e)
    have "expire seqs (bt_remove q m) = (filter (\<lambda>(k, _). k \<notin> set (q # seqs)) m,
      concat (map (\<lambda>s. case bt_get m s of None \<Rightarrow> []
         | Some e \<Rightarrow> notify (completion e) (Inl (Timeout RETX_MAX_ATTEMPTS))) seqs))"
      using Cons.IH [of "bt_remove q m"] Cons.prems by (simp only: other two bt_get_remove) simp
    with Some show ?thesis by simp
  qed
qed

lemma bt_wf_map_snd [simp]: "bt_wf (map (\<lambda>(s, e). (s, f e)) m) = bt_wf m"
  by (simp add: bt_wf_def comp_def case_prod_unfold)

lemma filter_keys:
  assumes "bt_wf m"
  shows "filter (\<lambda>(k, _). k \<notin> fst ` set (filter (\<lambda>(s, e). P e) m)) (map (\<lambda>(s, e). (s, f e)) m)
    = map (\<lambda>(s, e). (s, f e)) (filter (\<lambda>(s, e). \<not> P e) m)"
proof -
  have iff: "s \<in> fst ` set (filter (\<lambda>(s, e). P e) m) \<longleftrightarrow> P e" if se: "(s, e) \<in> set m" for s e
  proof
    assume "s \<in> fst ` set (filter (\<lambda>(s, e). P e) m)"
    then obtain e' where e': "(s, e') \<in> set m" "P e'" by auto
    from eq_key_imp_eq_value [OF bt_wf_distinct [OF assms] se e'(1)] e'(2) show "P e" by simp
  next
    assume "P e"
    with se show "s \<in> fst ` set (filter (\<lambda>(s, e). P e) m)" by (auto intro: rev_image_eqI)
  qed
  have "filter (\<lambda>p. fst p \<notin> fst ` set (filter (\<lambda>(s, e). P e) m)) m = filter (\<lambda>(s, e). \<not> P e) m"
  proof (rule filter_cong [OF refl])
    fix p assume p: "p \<in> set m"
    obtain q e where pq: "p = (q, e)" by (cases p)
    from iff [of q e] p show "(fst p \<notin> fst ` set (filter (\<lambda>(s, e). P e) m)) = (case p of (s, e) \<Rightarrow> \<not> P e)"
      by (simp only: pq fst_conv prod.case not_not)
  qed
  then show ?thesis
    by (simp add: filter_map comp_def case_prod_unfold del: set_filter)
qed

lemma next_due_eq:
  assumes "bt_wf (outbound ch)"
  shows "next_due now ch =
     (ch\<lparr>outbound := map (\<lambda>(s, e). (s, bump now e)) (filter (\<lambda>(s, e). \<not> expired now e) (outbound ch))\<rparr>,
      map (\<lambda>(s, e). ent_envelope e) (filter (\<lambda>(s, e). resend now e) (outbound ch)),
      concat (map (\<lambda>(s, e). notify (completion e) (Inl (Timeout RETX_MAX_ATTEMPTS)))
        (filter (\<lambda>(s, e). expired now e) (outbound ch))))"
proof -
  let ?m = "outbound ch" and ?b = "map (\<lambda>(s, e). (s, bump now e)) (outbound ch)"
  let ?x = "filter (\<lambda>(s, e). expired now e) ?m"
  have d: "distinct (map fst ?x)"
    by (intro bt_wf_distinct bt_wf_filter assms)
  have g: "bt_get ?b s = Some (bump now e)" if "(s, e) \<in> set ?m" for s e
    using assms that by (subst bt_get_in_set) (auto intro: rev_image_eqI)
  let ?n = "\<lambda>e. notify (completion e) (Inl (Timeout RETX_MAX_ATTEMPTS))"
  have ns: "map (\<lambda>s. case bt_get ?b s of None \<Rightarrow> [] | Some e \<Rightarrow> ?n e) (map fst ?x)
      = map (\<lambda>(s, e). ?n e) ?x"
    unfolding map_map by (rule map_cong [OF refl]) (auto simp: g)
  have "expire (map fst ?x) ?b = (filter (\<lambda>(k, _). k \<notin> set (map fst ?x)) ?b,
      concat (map (\<lambda>s. case bt_get ?b s of None \<Rightarrow> [] | Some e \<Rightarrow> ?n e) (map fst ?x)))"
    using assms by (intro expire_eq d) simp
  also have "filter (\<lambda>(k, _). k \<notin> set (map fst ?x)) ?b
      = map (\<lambda>(s, e). (s, bump now e)) (filter (\<lambda>(s, e). \<not> expired now e) ?m)"
    unfolding set_map by (rule filter_keys [OF assms])
  finally show ?thesis
    by (simp only: next_due_def due_loop_eq prod.case ns)
qed

section \<open>The invariant is kept\<close>

lemma dedup_wf_insert: "dedup_wf w \<Longrightarrow> dedup_wf (dedup_insert q w)"
  by (cases "seen w")
     (auto simp: dedup_wf_def dedup_insert_def dedup_contains_def list_ex_iff Let_def DEDUP_WINDOW_def)

lemma entry_ok_bump: "entry_ok n (s, e) \<Longrightarrow> entry_ok n (s, bump now e)"
  by (auto simp: entry_ok_def bump_def resend_def)

lemma entry_ok_mono: "entry_ok n p \<Longrightarrow> n \<le> k \<Longrightarrow> entry_ok k p"
  by (cases p) (auto simp: entry_ok_def)

lemma channel_wf_step:
  assumes "channel_wf ch"
  shows "channel_wf (fst (chan_step ch x))"
proof (cases x)
  case (Enqueue t b tx now)
  let ?n = "next_seq ch"
  show ?thesis
  proof (cases "?n = -1")
    case True
    with assms Enqueue show ?thesis by (simp add: enqueue_def)
  next
    case False
    have up: "?n < ?n + 1" by (rule word_less_Suc [OF False])
    have fresh: "?n \<notin> fst ` set (outbound ch)"
      using assms by (auto simp: channel_wf_def entry_ok_def)
    have one: "1 \<le> ?n" using assms by (simp add: channel_wf_def)
    have old: "\<forall>p\<in>set (outbound ch). entry_ok (?n + 1) p"
    proof
      fix p assume "p \<in> set (outbound ch)"
      then have "entry_ok ?n p" using assms by (simp add: channel_wf_def)
      then show "entry_ok (?n + 1) p" by (rule entry_ok_mono) (rule less_imp_le [OF up])
    qed
    have new: "entry_ok (?n + 1) (?n, \<lparr>ent_envelope = \<lparr>env_seq = ?n, env_body_type = t, env_body = b\<rparr>,
        attempts = 1, next_send_at = now + RETX_INITIAL, completion = Some tx\<rparr>)"
      using one up by (simp add: entry_ok_def RETX_MAX_ATTEMPTS_def)
    have "1 \<le> ?n + 1" using one up by (rule order.trans [OF _ less_imp_le])
    with assms Enqueue False fresh old new show ?thesis
      by (simp add: enqueue_def Let_def channel_wf_def set_bt_insert_fresh)
  qed
next
  case (NextDue now)
  with assms show ?thesis
    by (auto simp: channel_wf_def next_due_eq intro: entry_ok_bump)
next
  case (OnAck a)
  with assms show ?thesis
    by (auto simp: channel_wf_def on_ack_def set_bt_remove split: option.splits)
next
  case (OnInbound e)
  with assms show ?thesis
    by (auto simp: channel_wf_def on_inbound_def dedup_wf_insert)
next
  case AbortAll
  with assms show ?thesis
    by (simp add: channel_wf_def abort_all_def bt_empty_def)
qed

lemma channel_wf_new: "channel_wf channel_new"
  by (simp add: channel_wf_def channel_new_def bt_empty_def dedup_new_def dedup_wf_def)

interpretation channel: invariant_machine channel_new "\<lambda>ch x. fst (chan_step ch x)" channel_wf
  by unfold_locales (rule channel_wf_new, rule channel_wf_step)

lemma chan_run_state: "fst (chan_run ch xs) = run (\<lambda>ch x. fst (chan_step ch x)) ch xs"
proof (induction xs arbitrary: ch)
  case Nil
  show ?case by simp
next
  case (Cons x xs)
  from Cons [of "fst (chan_step ch x)"] show ?case by (simp add: case_prod_unfold)
qed

lemma channel_wf_run: "channel_wf ch \<Longrightarrow> channel_wf (fst (chan_run ch xs))"
  unfolding chan_run_state by (rule channel.inv_run)

section \<open>Every waiter is notified exactly once\<close>

lemma map_fst_notify: "map fst (notify (completion e) r) = entry_waiter e"
  by (simp add: notify_def entry_waiter_def split: option.split)

lemma waiters_sum: "waiters ch = (\<Sum>p\<in>#mset (outbound ch). mset (entry_waiter (snd p)))"
  by (simp only: waiters_def mset_concat_map case_prod_unfold)

lemma multiset_chain:
  fixes W :: "'a multiset"
  assumes "W + A = W1 + N1" and "W1 + B = W2 + N2"
  shows "W + (A + B) = W2 + (N1 + N2)"
proof -
  have "W + (A + B) = (W + A) + B" by (simp only: add.assoc)
  also have "\<dots> = (W1 + N1) + B" by (simp only: assms(1))
  also have "\<dots> = (W1 + B) + N1" by (simp only: ac_simps)
  also have "\<dots> = (W2 + N2) + N1" by (simp only: assms(2))
  also have "\<dots> = W2 + (N1 + N2)" by (simp only: ac_simps)
  finally show ?thesis .
qed

lemma waiters_step:
  assumes wf: "channel_wf ch" and st: "chan_step ch x = (ch', es, ns)"
  shows "waiters ch + mset (op_waiter ch x) = waiters ch' + mset (map fst ns)"
proof (cases x)
  case (Enqueue t b tx now)
  have "next_seq ch \<notin> fst ` set (outbound ch)"
    using wf by (auto simp: channel_wf_def entry_ok_def)
  with st Enqueue show ?thesis
    by (auto simp: enqueue_def Let_def waiters_sum mset_bt_insert_fresh entry_waiter_def
        split: if_splits)
next
  case (NextDue now)
  let ?m = "outbound ch" and ?f = "\<lambda>(_, e). entry_waiter e"
  have "bt_wf ?m" using wf by (simp add: channel_wf_def)
  from next_due_eq [OF this, of now] st NextDue
  have ch': "outbound ch' = map (\<lambda>(s, e). (s, bump now e)) (filter (\<lambda>(s, e). \<not> expired now e) ?m)"
    and ns: "ns = concat (map (\<lambda>(s, e). notify (completion e) (Inl (Timeout RETX_MAX_ATTEMPTS)))
        (filter (\<lambda>(s, e). expired now e) ?m))"
    by auto
  have "waiters ch' = mset (concat (map ?f (filter (\<lambda>(s, e). \<not> expired now e) ?m)))"
    by (simp add: waiters_def ch' case_prod_unfold comp_def)
  moreover have "map fst ns = concat (map ?f (filter (\<lambda>(s, e). expired now e) ?m))"
    by (simp add: ns map_concat comp_def case_prod_unfold map_fst_notify)
  ultimately show ?thesis
    using NextDue mset_concat_split [of ?f ?m "\<lambda>(s, e). expired now e"]
    by (simp add: waiters_def case_prod_unfold)
next
  case (OnAck a)
  with st wf mset_bt_remove [of "outbound ch" "ack_seq a"] show ?thesis
    by (auto simp: on_ack_def waiters_sum channel_wf_def map_fst_notify
        simp del: mset_map split: option.splits)
next
  case (OnInbound e)
  with st show ?thesis by (auto simp: on_inbound_def waiters_sum)
next
  case AbortAll
  with st show ?thesis
    by (auto simp: abort_all_def waiters_def bt_values_def bt_empty_def map_concat comp_def
        case_prod_unfold map_fst_notify simp del: mset_map)
qed

lemma waiters_run:
  assumes "channel_wf ch" and "chan_run ch xs = (ch', es, ns)"
  shows "waiters ch + mset (enqueued ch xs) = waiters ch' + mset (map fst ns)"
  using assms
proof (induction xs arbitrary: ch ch' es ns)
  case Nil
  then show ?case by simp
next
  case (Cons x xs)
  obtain ch1 es1 ns1 where st: "chan_step ch x = (ch1, es1, ns1)" by (cases "chan_step ch x") auto
  obtain ch2 es2 ns2 where rn: "chan_run ch1 xs = (ch2, es2, ns2)" by (cases "chan_run ch1 xs") auto
  have wf1: "channel_wf ch1" using channel_wf_step [OF Cons.prems(1), of x] st by simp
  have "waiters ch + mset (op_waiter ch x) = waiters ch1 + mset (map fst ns1)"
    by (rule waiters_step [OF Cons.prems(1) st])
  moreover have "waiters ch1 + mset (enqueued ch1 xs) = waiters ch2 + mset (map fst ns2)"
    by (rule Cons.IH [OF wf1 rn])
  ultimately show ?case
    using Cons.prems(2) st rn multiset_chain by fastforce
qed

section \<open>Emissions per envelope\<close>

text \<open>How often a sequence number may still be put on the wire.\<close>

definition credit :: "control_channel \<Rightarrow> u32 \<Rightarrow> nat" where
  "credit ch q =
     (case bt_get (outbound ch) q of
        Some e \<Rightarrow> RETX_MAX_ATTEMPTS - attempts e
      | None \<Rightarrow> if q < next_seq ch then 0 else RETX_MAX_ATTEMPTS)"

abbreviation emitted :: "u32 \<Rightarrow> control_envelope list \<Rightarrow> nat" where
  "emitted q es \<equiv> length (filter (\<lambda>e. env_seq e = q) es)"

lemma emitted_due:
  assumes "bt_wf m" and "\<forall>p\<in>set m. entry_ok n p"
  shows "emitted q (map (\<lambda>(s, e). ent_envelope e) (filter (\<lambda>(s, e). P e) m)) =
    (case bt_get m q of Some e \<Rightarrow> if P e then 1 else 0 | None \<Rightarrow> 0)"
  using assms
proof (induction m)
  case Nil
  show ?case by simp
next
  case (Cons p m)
  obtain s e where p: "p = (s, e)" by (cases p)
  with Cons.prems have "env_seq (ent_envelope e) = s" and lt: "\<forall>k\<in>fst ` set m. s < k"
    by (simp_all add: entry_ok_def)
  moreover from lt have "bt_get m s = None" by (auto simp: bt_get_None)
  ultimately show ?case using Cons p by auto
qed

lemma bt_get_map_filter:
  "bt_wf m \<Longrightarrow> bt_get (map (\<lambda>(s, e). (s, f e)) (filter (\<lambda>(s, e). P e) m)) q =
    (case bt_get m q of Some e \<Rightarrow> if P e then Some (f e) else None | None \<Rightarrow> None)"
proof (induction m)
  case Nil
  show ?case by simp
next
  case (Cons p m)
  obtain s e where p: "p = (s, e)" by (cases p)
  with Cons.prems have "bt_get m s = None" by (auto simp: bt_get_None)
  with Cons p show ?case by auto
qed

lemma bt_get_entry_ok:
  assumes "channel_wf ch" and "bt_get (outbound ch) q = Some e"
  shows "entry_ok (next_seq ch) (q, e)"
  using assms by (simp add: channel_wf_def bt_get_in_set)

lemma credit_step:
  assumes wf: "channel_wf ch" and st: "chan_step ch x = (ch', es, ns)"
  shows "emitted q es + credit ch' q \<le> credit ch q"
proof (cases x)
  case (Enqueue t b tx now)
  let ?n = "next_seq ch"
  have "bt_get (outbound ch) ?n = None"
    using bt_get_entry_ok [OF wf] by (cases "bt_get (outbound ch) ?n") (auto simp: entry_ok_def)
  moreover have "bt_wf (outbound ch)" using wf by (simp add: channel_wf_def)
  moreover have "q < ?n \<Longrightarrow> ?n \<noteq> -1 \<Longrightarrow> q < ?n + 1"
    by (blast intro: less_trans word_less_Suc(1))
  ultimately show ?thesis
    using st Enqueue
    by (auto simp: enqueue_def Let_def credit_def RETX_MAX_ATTEMPTS_def split: if_splits option.splits)
next
  case (NextDue now)
  have wf': "bt_wf (outbound ch)" "\<forall>p\<in>set (outbound ch). entry_ok (next_seq ch) p"
    using wf by (simp_all add: channel_wf_def)
  from next_due_eq [OF wf'(1), of now] st NextDue
  have ch': "outbound ch' = map (\<lambda>(s, e). (s, bump now e)) (filter (\<lambda>(s, e). \<not> expired now e) (outbound ch))"
    and nseq: "next_seq ch' = next_seq ch"
    and es: "es = map (\<lambda>(s, e). ent_envelope e) (filter (\<lambda>(s, e). resend now e) (outbound ch))"
    by auto
  show ?thesis
  proof (cases "bt_get (outbound ch) q")
    case None
    then show ?thesis
      by (simp only: credit_def ch' es nseq emitted_due [OF wf'] bt_get_map_filter [OF wf'(1)]) simp
  next
    case (Some e)
    with bt_get_entry_ok [OF wf Some] show ?thesis
      by (simp only: credit_def ch' es nseq emitted_due [OF wf'] bt_get_map_filter [OF wf'(1)])
         (auto simp: entry_ok_def bump_def resend_def expired_def)
  qed
next
  case (OnAck a)
  with st show ?thesis
    using bt_get_entry_ok [OF wf]
    by (auto simp: on_ack_def credit_def entry_ok_def split: option.splits if_splits)
next
  case (OnInbound e)
  with st show ?thesis
    by (cases "dedup_contains (dedup ch) (env_seq e)") (auto simp: on_inbound_def credit_def)
next
  case AbortAll
  with st show ?thesis
    using bt_get_entry_ok [OF wf]
    by (auto simp: abort_all_def credit_def bt_empty_def entry_ok_def split: option.splits)
qed

lemma credit_run:
  assumes "channel_wf ch" and "chan_run ch xs = (ch', es, ns)"
  shows "emitted q es + credit ch' q \<le> credit ch q"
  using assms
proof (induction xs arbitrary: ch ch' es ns)
  case Nil
  then show ?case by simp
next
  case (Cons x xs)
  obtain ch1 es1 ns1 where st: "chan_step ch x = (ch1, es1, ns1)" by (cases "chan_step ch x") auto
  obtain ch2 es2 ns2 where rn: "chan_run ch1 xs = (ch2, es2, ns2)" by (cases "chan_run ch1 xs") auto
  have wf1: "channel_wf ch1" using channel_wf_step [OF Cons.prems(1), of x] st by simp
  have "es = es1 @ es2" "ch' = ch2" using Cons.prems(2) st rn by auto
  with credit_step [OF Cons.prems(1) st, of q] Cons.IH [OF wf1 rn] show ?case by simp
qed

section \<open>Unacknowledged envelopes drain\<close>

text \<open>The caller's timer: wait until \<open>next_tick_at\<close>, then run the retransmission pass.\<close>

fun drive :: "nat \<Rightarrow> control_channel \<Rightarrow> control_channel \<times> notification list" where
  "drive 0 ch = (ch, [])"
| "drive (Suc n) ch =
     (case next_tick_at ch of
        None \<Rightarrow> (ch, [])
      | Some t \<Rightarrow>
          (case next_due t ch of (ch', _, ns) \<Rightarrow>
           case drive n ch' of (ch'', ns') \<Rightarrow> (ch'', ns @ ns')))"

definition budget :: "control_channel \<Rightarrow> nat" where
  "budget ch = sum_list (map (\<lambda>(s, e). 6 - attempts e) (outbound ch))"

lemma fold_min_Cons: "fold min ts (t :: nat) = Min (set (t # ts))"
  by (simp only: Min.set_eq_fold)

lemma next_tick_at_Some:
  assumes "next_tick_at ch = Some t"
  shows "\<exists>s e. (s, e) \<in> set (outbound ch) \<and> next_send_at e = t"
proof -
  from assms obtain u us where us: "map next_send_at (bt_values (outbound ch)) = u # us"
    and t: "t = Min (set (u # us))"
    by (auto simp: next_tick_at_def fold_min_Cons simp del: set_simps split: list.splits)
  have "t \<in> set (u # us)" unfolding t by (rule Min_in) simp_all
  then have "t \<in> set (map next_send_at (bt_values (outbound ch)))" by (simp only: us)
  then show ?thesis by (fastforce simp: bt_values_def)
qed

lemma next_tick_at_None: "next_tick_at ch = None \<longleftrightarrow> outbound ch = []"
  by (auto simp: next_tick_at_def bt_values_def split: list.splits)

lemma sum_list_filter_less:
  fixes f g :: "'a \<Rightarrow> nat"
  assumes "\<forall>x\<in>set xs. f x \<le> g x" and "x \<in> set xs" and "\<not> P x \<or> f x < g x" and "0 < g x"
  shows "sum_list (map f (filter P xs)) < sum_list (map g xs)"
  using assms
proof (induction xs)
  case Nil
  then show ?case by simp
next
  case (Cons y ys)
  have le: "sum_list (map f (filter P zs)) \<le> sum_list (map g zs)" if "\<forall>x\<in>set zs. f x \<le> g x" for zs
    using that by (induction zs) auto
  show ?case
  proof (cases "x \<in> set ys")
    case True
    with Cons have "sum_list (map f (filter P ys)) < sum_list (map g ys)" by simp
    with Cons.prems(1) show ?thesis by auto
  next
    case False
    with Cons.prems have "x = y" by simp
    with Cons.prems le [of ys] show ?thesis by auto
  qed
qed

lemma budget_tick:
  assumes wf: "channel_wf ch" and "next_tick_at ch = Some t" and "next_due t ch = (ch', es, ns)"
  shows "budget ch' < budget ch"
proof -
  have wf': "bt_wf (outbound ch)" using wf by (simp add: channel_wf_def)
  from next_due_eq [OF wf', of t] assms(3)
  have ch': "outbound ch' = map (\<lambda>(s, e). (s, bump t e)) (filter (\<lambda>(s, e). \<not> expired t e) (outbound ch))"
    by auto
  from next_tick_at_Some [OF assms(2)] obtain s e
    where e: "(s, e) \<in> set (outbound ch)" "next_send_at e = t" by blast
  then have "attempts e \<le> 5"
    using wf by (auto simp: channel_wf_def entry_ok_def RETX_MAX_ATTEMPTS_def)
  with e have "sum_list (map (\<lambda>p. 6 - attempts (bump t (snd p)))
      (filter (\<lambda>p. \<not> expired t (snd p)) (outbound ch))) < sum_list (map (\<lambda>p. 6 - attempts (snd p)) (outbound ch))"
    by (intro sum_list_filter_less [of _ _ _ "(s, e)"])
       (auto simp: bump_def resend_def expired_def RETX_MAX_ATTEMPTS_def)
  then show ?thesis by (simp add: budget_def ch' comp_def case_prod_unfold)
qed

lemma drive_drains:
  assumes "channel_wf ch" and "budget ch \<le> n"
  shows "outbound (fst (drive n ch)) = []
    \<and> mset (snd (drive n ch)) = image_mset (\<lambda>c. (c, Inl (Timeout RETX_MAX_ATTEMPTS))) (waiters ch)"
  using assms
proof (induction n arbitrary: ch)
  case 0
  have "outbound ch = []"
  proof (cases "outbound ch")
    case (Cons p ps)
    with 0 show ?thesis
      by (cases p) (auto simp: channel_wf_def entry_ok_def budget_def RETX_MAX_ATTEMPTS_def)
  qed
  then show ?case by (simp add: waiters_def)
next
  case (Suc n)
  show ?case
  proof (cases "next_tick_at ch")
    case None
    then have "outbound ch = []" by (simp only: next_tick_at_None)
    with None show ?thesis by (simp add: waiters_def)
  next
    case (Some t)
    obtain ch' es ns where st: "next_due t ch = (ch', es, ns)" by (cases "next_due t ch") auto
    have wf': "channel_wf ch'" using channel_wf_step [OF Suc.prems(1), of "NextDue t"] st by simp
    have "budget ch' \<le> n" using budget_tick [OF Suc.prems(1) Some st] Suc.prems(2) by simp
    from Suc.IH [OF wf' this] have IH: "outbound (fst (drive n ch')) = []"
      "mset (snd (drive n ch')) = image_mset (\<lambda>c. (c, Inl (Timeout RETX_MAX_ATTEMPTS))) (waiters ch')"
      by auto
    have "\<forall>p\<in>set ns. snd p = Inl (Timeout RETX_MAX_ATTEMPTS)"
      using next_due_eq [of ch t] Suc.prems(1) st
      by (auto simp: channel_wf_def notify_def split: option.splits)
    then have "ns = map (\<lambda>c. (c, Inl (Timeout RETX_MAX_ATTEMPTS))) (map fst ns)"
      by (induction ns) auto
    then have "mset ns = image_mset (\<lambda>c. (c, Inl (Timeout RETX_MAX_ATTEMPTS))) (mset (map fst ns))"
      by (metis mset_map)
    moreover have "waiters ch = waiters ch' + mset (map fst ns)"
      using waiters_step [OF Suc.prems(1), of "NextDue t"] st by simp
    ultimately show ?thesis
      using Some st IH by (simp add: case_prod_unfold add.commute)
  qed
qed

lemma budget_bound:
  assumes "channel_wf ch"
  shows "budget ch \<le> 5 * pending ch"
proof -
  have "sum_list (map (\<lambda>(s, e). 6 - attempts e) m) \<le> 5 * length m"
    if "\<forall>p\<in>set m. entry_ok n p" for m n
    using that by (induction m) (auto simp: entry_ok_def)
  from this [of "outbound ch" "next_seq ch"] assms show ?thesis
    by (simp add: budget_def pending_def channel_wf_def)
qed

section \<open>Deduplication\<close>

text \<open>The sequence numbers a run hands to the dispatcher, in order.\<close>

fun op_delivers :: "control_channel \<Rightarrow> chan_op \<Rightarrow> u32 list" where
  "op_delivers ch (OnInbound e) =
     (case on_inbound e ch of (_, Deliver env) \<Rightarrow> [env_seq env] | (_, Duplicate) \<Rightarrow> [])"
| "op_delivers ch _ = []"

fun delivered :: "control_channel \<Rightarrow> chan_op list \<Rightarrow> u32 list" where
  "delivered ch [] = []"
| "delivered ch (x # xs) = op_delivers ch x @ delivered (fst (chan_step ch x)) xs"

text \<open>
  The abstract window: the last 256 of the numbers delivered so far. \<open>spaced\<close> says that no
  number is delivered again while it is in that window.
\<close>

definition recent :: "'a list \<Rightarrow> 'a list" where
  "recent ds = drop (length ds - DEDUP_WINDOW) ds"

definition spaced :: "'a list \<Rightarrow> bool" where
  "spaced ds \<longleftrightarrow> (\<forall>j<length ds. ds ! j \<notin> set (recent (take j ds)))"

definition tracks :: "u32 list \<Rightarrow> control_channel \<Rightarrow> bool" where
  "tracks ds ch \<longleftrightarrow> cap (dedup ch) = DEDUP_WINDOW \<and> seen (dedup ch) = recent ds \<and> spaced ds"

lemma recent_snoc:
  "recent (ds @ [q]) = (if length (recent ds) = DEDUP_WINDOW then tl (recent ds) else recent ds) @ [q]"
proof (cases "DEDUP_WINDOW \<le> length ds")
  case True
  then obtain k where "length ds = DEDUP_WINDOW + k" using le_Suc_ex by blast
  then show ?thesis
    by (simp add: recent_def DEDUP_WINDOW_def drop_Suc tl_drop)
next
  case False
  then show ?thesis by (simp add: recent_def)
qed

lemma spaced_snoc: "spaced ds \<Longrightarrow> q \<notin> set (recent ds) \<Longrightarrow> spaced (ds @ [q])"
  by (auto simp: spaced_def less_Suc_eq nth_append)

lemma dedup_step_other:
  "(\<And>e. x \<noteq> OnInbound e) \<Longrightarrow> dedup (fst (chan_step ch x)) = dedup ch \<and> op_delivers ch x = []"
  by (cases x) (auto simp: enqueue_def Let_def next_due_def on_ack_def abort_all_def
      split: prod.split option.split)

lemma tracks_step: "tracks ds ch \<Longrightarrow> tracks (ds @ op_delivers ch x) (fst (chan_step ch x))"
proof (cases "\<exists>e. x = OnInbound e")
  case True
  then obtain e where x: "x = OnInbound e" by blast
  assume t: "tracks ds ch"
  show ?thesis
  proof (cases "env_seq e \<in> set (recent ds)")
    case True
    with t x show ?thesis by (simp add: tracks_def on_inbound_def dedup_contains_def list_ex_iff)
  next
    case False
    with t have "spaced (ds @ [env_seq e])" by (intro spaced_snoc) (simp_all add: tracks_def)
    with False t x show ?thesis
      by (simp add: tracks_def on_inbound_def dedup_contains_def dedup_insert_def list_ex_iff
          recent_snoc Let_def)
  qed
next
  case False
  then have "dedup (fst (chan_step ch x)) = dedup ch \<and> op_delivers ch x = []"
    by (intro dedup_step_other) blast
  then show "tracks ds ch \<Longrightarrow> ?thesis" by (simp add: tracks_def)
qed

lemma tracks_run: "tracks ds ch \<Longrightarrow> tracks (ds @ delivered ch xs) (fst (chan_run ch xs))"
proof (induction xs arbitrary: ds ch)
  case Nil
  then show ?case by simp
next
  case (Cons x xs)
  from Cons.IH [OF tracks_step [OF Cons.prems, of x]] show ?case
    by (simp add: case_prod_unfold)
qed

lemma tracks_new: "tracks [] channel_new"
  by (simp add: tracks_def channel_new_def dedup_new_def recent_def spaced_def)

lemma spaced_gap:
  assumes "spaced ds" and "i < j" and "j < length ds" and "ds ! i = ds ! j"
  shows "DEDUP_WINDOW < j - i"
proof (rule ccontr)
  assume "\<not> DEDUP_WINDOW < j - i"
  then have i: "j - DEDUP_WINDOW \<le> i" by linarith
  have "take j ds ! i \<in> set (drop (j - DEDUP_WINDOW) (take j ds))"
    using i assms(2,3) by (auto simp: in_set_conv_nth intro!: exI [of _ "i - (j - DEDUP_WINDOW)"])
  with assms show False by (simp add: spaced_def recent_def)
qed

section \<open>Properties\<close>

text \<open>
  C25: from a fresh channel, whatever enqueues, ticks, acks and inbound envelopes follow, once
  the channel is dropped every waiter that was enqueued has been notified exactly once,
  and nobody else has.
\<close>

theorem waiters_notified_exactly_once:
  "case chan_run channel_new ops of (ch, _, ns) \<Rightarrow>
     mset (map fst (ns @ channel_drop ch)) = mset (enqueued channel_new ops)"
proof -
  obtain ch es ns where r: "chan_run channel_new ops = (ch, es, ns)"
    by (cases "chan_run channel_new ops") auto
  have wf: "channel_wf ch" using channel_wf_run [OF channel_wf_new, of ops] r by simp
  have "waiters channel_new = {#}" by (simp add: waiters_def channel_new_def bt_empty_def)
  with waiters_run [OF channel_wf_new r]
  have "mset (enqueued channel_new ops) = waiters ch + mset (map fst ns)" by simp
  moreover have "waiters ch = mset (map fst (channel_drop ch))"
    using waiters_step [OF wf, of AbortAll]
    by (simp add: channel_drop_def abort_all_def waiters_def bt_empty_def)
  ultimately show ?thesis using r by (simp add: add.commute)
qed

text \<open>
  no envelope is put on the wire more than five times, counting its first transmission,
  in any run of the channel.
\<close>

theorem at_most_five_emissions:
  "length (filter (\<lambda>e. env_seq e = q) (fst (snd (chan_run channel_new ops)))) \<le> RETX_MAX_ATTEMPTS"
proof -
  obtain ch es ns where r: "chan_run channel_new ops = (ch, es, ns)"
    by (cases "chan_run channel_new ops") auto
  have "credit channel_new q \<le> RETX_MAX_ATTEMPTS"
    by (simp add: credit_def channel_new_def bt_empty_def)
  with credit_run [OF channel_wf_new r, of q] r show ?thesis by simp
qed

text \<open>
  C26: if no ack ever arrives, serving the retransmission timer drains the queue: after at most
  five ticks per pending envelope nothing is pending, and every waiter has received
  exactly one \<open>Timeout\<close>.
\<close>

theorem unacked_envelopes_time_out:
  assumes "channel_wf ch" and "5 * pending ch \<le> n"
  shows "pending (fst (drive n ch)) = 0
    \<and> mset (snd (drive n ch)) = image_mset (\<lambda>c. (c, Inl (Timeout RETX_MAX_ATTEMPTS))) (waiters ch)"
  using drive_drains [OF assms(1), of n] budget_bound [OF assms(1)] assms(2)
  by (simp add: pending_def)

definition one_pending :: control_channel where
  "one_pending = fst (the (enqueue 1 [] 42 1000 channel_new))"

theorem unacked_envelopes_time_out_witness:
  "channel_wf one_pending \<and> pending (fst (drive 5 one_pending)) = 0
    \<and> mset (snd (drive 5 one_pending)) = {#(42, Inl (Timeout RETX_MAX_ATTEMPTS))#}"
proof -
  have op: "one_pending = fst (chan_step channel_new (Enqueue 1 [] 42 1000))"
    by (simp add: one_pending_def enqueue_def Let_def channel_new_def)
  have wf: "channel_wf one_pending" unfolding op by (rule channel_wf_step [OF channel_wf_new])
  have p: "pending one_pending = 1" "waiters one_pending = {#42#}"
    by (simp_all add: one_pending_def enqueue_def Let_def channel_new_def bt_empty_def pending_def
        waiters_def entry_waiter_def)
  show ?thesis using wf unacked_envelopes_time_out [OF wf, of 5] p by simp
qed

text \<open>
  C27: the deduplication window is exactly the last 256 sequence numbers delivered, and a
  number is delivered a second time only after more than 256 deliveries.
\<close>

theorem dedup_window_exact:
  "seen (dedup (fst (chan_run channel_new ops))) = recent (delivered channel_new ops) \<and>
   (\<forall>i j. i < j \<longrightarrow> j < length (delivered channel_new ops) \<longrightarrow>
      delivered channel_new ops ! i = delivered channel_new ops ! j \<longrightarrow> DEDUP_WINDOW < j - i)"
  using tracks_run [OF tracks_new, of ops] spaced_gap by (auto simp: tracks_def)

theorem dedup_window_exact_witness:
  "delivered channel_new [OnInbound \<lparr>env_seq = 5, env_body_type = 1, env_body = []\<rparr>,
       OnInbound \<lparr>env_seq = 5, env_body_type = 1, env_body = []\<rparr>] = [5]
   \<and> seen (dedup (fst (chan_run channel_new
       [OnInbound \<lparr>env_seq = 5, env_body_type = 1, env_body = []\<rparr>,
        OnInbound \<lparr>env_seq = 5, env_body_type = 1, env_body = []\<rparr>]))) = [5]"
proof -
  let ?xs = "[OnInbound \<lparr>env_seq = 5, env_body_type = 1, env_body = []\<rparr>,
       OnInbound \<lparr>env_seq = 5, env_body_type = 1, env_body = []\<rparr>]"
  have d: "delivered channel_new ?xs = [5]"
    by (simp add: on_inbound_def dedup_contains_def dedup_insert_def channel_new_def dedup_new_def
        DEDUP_WINDOW_def)
  have "seen (dedup (fst (chan_run channel_new ?xs))) = recent (delivered channel_new ?xs)"
    using dedup_window_exact [of ?xs] by (rule conjunct1)
  then have "seen (dedup (fst (chan_run channel_new ?xs))) = [5]"
    unfolding d by (simp only: recent_def DEDUP_WINDOW_def) simp
  with d show ?thesis by (rule conjI)
qed

text \<open>
  the wait before each retransmission never shrinks, starts at \<open>RETX_INITIAL\<close> and never
  exceeds \<open>RETX_MAX\<close>; the five waits of an unacknowledged envelope add up to five seconds.
\<close>

theorem backoff_bounds:
  "RETX_INITIAL \<le> backoff_for n \<and> backoff_for n \<le> backoff_for (Suc n) \<and> backoff_for n \<le> RETX_MAX
   \<and> sum_list (map backoff_for [1, 2, 3, 4, 5]) = 5000"
proof -
  have "backoff_for n \<le> backoff_for (Suc n)"
    unfolding backoff_for_def Let_def
    by (intro min.mono mult_le_mono2 power_increasing) simp_all
  moreover have "RETX_INITIAL \<le> backoff_for n" and "backoff_for n \<le> RETX_MAX"
    by (simp_all add: backoff_for_def Let_def RETX_INITIAL_def RETX_MAX_def)
  moreover have "sum_list (map backoff_for [1, 2, 3, 4, 5]) = 5000"
    by (simp add: backoff_for_def RETX_INITIAL_def RETX_MAX_def)
  ultimately show ?thesis by blast
qed

end
