(* ===== verification/Peer_State.thy ===== *)
theory Peer_State
  imports PubKey Net "HOL-Library.Multiset"
begin

text \<open>
  What a relay knows about its downstream peer (crate \<open>yggdrasil\<close>): the enrolled key and
  current address (\<open>heartbeat/peer_state.rs\<close>), and the staging store for keys seen before
  enrolment (\<open>pending_peers.rs\<close>). The wall clock is an argument of the operations that read
  it; \<open>watch_version\<close> counts the values sent on the watch channel, that is, how often the
  data plane is woken.
\<close>

section \<open>Peer state\<close>

datatype heartbeat_effect = SameIp ip_addr | FirstHeartbeat ip_addr | IpChanged ip_addr ip_addr

primrec is_data_plane_change :: "heartbeat_effect \<Rightarrow> bool" where
  "is_data_plane_change (SameIp ip) = False"
| "is_data_plane_change (FirstHeartbeat ip) = True"
| "is_data_plane_change (IpChanged old new) = True"

record peer_state =
  peer_static_key :: "pub_key option"
  current_ip :: "ip_addr option"
  watch_version :: nat
  last_heartbeat :: u64

definition peer_state_new :: "pub_key option \<Rightarrow> peer_state" where
  "peer_state_new k = \<lparr>peer_static_key = k, current_ip = None, watch_version = 0, last_heartbeat = 0\<rparr>"

definition is_peer_enrolled :: "peer_state \<Rightarrow> bool" where
  "is_peer_enrolled p \<longleftrightarrow> peer_static_key p \<noteq> None"

definition set_peer_static_key :: "pub_key \<Rightarrow> peer_state \<Rightarrow> peer_state" where
  "set_peer_static_key k p = p\<lparr>peer_static_key := Some k\<rparr>"

definition last_heartbeat_ms :: "peer_state \<Rightarrow> u64 option" where
  "last_heartbeat_ms p = (if last_heartbeat p = 0 then None else Some (last_heartbeat p))"

definition peer_fingerprint :: "hash_lib \<Rightarrow> peer_state \<Rightarrow> string" where
  "peer_fingerprint L p = (case peer_static_key p of None \<Rightarrow> [] | Some k \<Rightarrow> fingerprint L k)"

definition record_heartbeat :: "u64 \<Rightarrow> socket_addr \<Rightarrow> peer_state \<Rightarrow> peer_state \<times> heartbeat_effect" where
  "record_heartbeat now_ms peer_addr p =
     (let p = p\<lparr>last_heartbeat := now_ms\<rparr>;
          new_ip = sa_ip peer_addr;
          woken = (\<lambda>p. p\<lparr>current_ip := Some new_ip, watch_version := watch_version p + 1\<rparr>)
      in case current_ip p of
           Some old \<Rightarrow>
             if old = new_ip then (p, SameIp new_ip) else (woken p, IpChanged old new_ip)
         | None \<Rightarrow> (woken p, FirstHeartbeat new_ip))"

section \<open>Pending peers\<close>

record candidate_record =
  cand_pubkey :: pub_key
  first_seen_unix_ms :: u64
  attempt_count :: u64

definition MIN_FINGERPRINT_PREFIX_LEN :: nat where "MIN_FINGERPRINT_PREFIX_LEN = 8"

datatype approve_outcome =
    Approved string pub_key
  | NotFound
  | Ambiguous "string list"
  | PrefixTooShort nat nat

definition sat_inc :: "u64 \<Rightarrow> u64" where
  "sat_inc n = (if n = -1 then n else n + 1)"

fun bump_candidate :: "pub_key \<Rightarrow> candidate_record list \<Rightarrow> candidate_record list option" where
  "bump_candidate k [] = None"
| "bump_candidate k (c # cs) =
     (if cand_pubkey c = k then Some (c\<lparr>attempt_count := sat_inc (attempt_count c)\<rparr> # cs)
      else map_option (\<lambda>cs. c # cs) (bump_candidate k cs))"

definition record_candidate :: "u64 \<Rightarrow> pub_key \<Rightarrow> candidate_record list \<Rightarrow> candidate_record list" where
  "record_candidate now_ms k cs =
     (case bump_candidate k cs of
        Some cs' \<Rightarrow> cs'
      | None \<Rightarrow> cs @ [\<lparr>cand_pubkey = k, first_seen_unix_ms = now_ms, attempt_count = 1\<rparr>])"

definition list_candidates :: "hash_lib \<Rightarrow> candidate_record list \<Rightarrow> (string \<times> pub_key \<times> u64 \<times> u64) list" where
  "list_candidates L cs =
     map (\<lambda>c. (fingerprint L (cand_pubkey c), cand_pubkey c, first_seen_unix_ms c, attempt_count c)) cs"

definition is_ascii_hexdigit :: "char \<Rightarrow> bool" where
  "is_ascii_hexdigit c \<longleftrightarrow> to_digit 16 c \<noteq> None"

definition split_query :: "string \<Rightarrow> string option \<times> string" where
  "split_query query =
     (let normalised = to_ascii_lowercase (trim query) in
      case split_once (CHR '':'') normalised of
        Some (algo, hex) \<Rightarrow> (Some algo, hex)
      | None \<Rightarrow> (None, normalised))"

definition fingerprint_matches :: "hash_lib \<Rightarrow> string option \<Rightarrow> string \<Rightarrow> candidate_record \<Rightarrow> bool" where
  "fingerprint_matches L algo_filter hex_tail c =
     (case split_once (CHR '':'') (fingerprint L (cand_pubkey c)) of
        None \<Rightarrow> False
      | Some (algo, tail) \<Rightarrow>
          (case algo_filter of
             None \<Rightarrow> starts_with hex_tail tail
           | Some want \<Rightarrow> want = algo \<and> starts_with hex_tail tail))"

definition approve ::
  "hash_lib \<Rightarrow> string \<Rightarrow> candidate_record list \<Rightarrow> candidate_record list \<times> approve_outcome" where
  "approve L query cs =
     (case split_query query of (algo_filter, hex_tail) \<Rightarrow>
        if length hex_tail < MIN_FINGERPRINT_PREFIX_LEN
        then (cs, PrefixTooShort (length hex_tail) MIN_FINGERPRINT_PREFIX_LEN)
        else if \<not> list_all is_ascii_hexdigit hex_tail then (cs, NotFound)
        else
          let matches = filter (\<lambda>i. fingerprint_matches L algo_filter hex_tail (cs ! i)) [0..<length cs]
          in case matches of
               [] \<Rightarrow> (cs, NotFound)
             | [idx] \<Rightarrow>
                 (take idx cs @ drop (Suc idx) cs,
                  Approved (fingerprint L (cand_pubkey (cs ! idx))) (cand_pubkey (cs ! idx)))
             | many \<Rightarrow> (cs, Ambiguous (map (\<lambda>i. fingerprint L (cand_pubkey (cs ! i))) many)))"

section \<open>Heartbeats and the data plane\<close>

text \<open>The address changes in a sequence of source addresses, counting the first one.\<close>

fun ip_changes :: "ip_addr option \<Rightarrow> ip_addr list \<Rightarrow> nat" where
  "ip_changes cur [] = 0"
| "ip_changes cur (ip # ips) = (if cur = Some ip then 0 else 1) + ip_changes (Some ip) ips"

fun record_all :: "(u64 \<times> socket_addr) list \<Rightarrow> peer_state \<Rightarrow> peer_state \<times> heartbeat_effect list" where
  "record_all [] p = (p, [])"
| "record_all ((now, a) # hs) p =
     (case record_heartbeat now a p of (p1, e) \<Rightarrow>
      case record_all hs p1 of (p2, es) \<Rightarrow> (p2, e # es))"

lemma record_heartbeat_facts [simp]:
  "watch_version (fst (record_heartbeat now a p)) =
     watch_version p + (if current_ip p = Some (sa_ip a) then 0 else 1)"
  "current_ip (fst (record_heartbeat now a p)) = Some (sa_ip a)"
  "last_heartbeat (fst (record_heartbeat now a p)) = now"
  "peer_static_key (fst (record_heartbeat now a p)) = peer_static_key p"
  "is_data_plane_change (snd (record_heartbeat now a p)) \<longleftrightarrow> current_ip p \<noteq> Some (sa_ip a)"
  by (auto simp: record_heartbeat_def Let_def split: option.split)

lemma record_all_facts:
  "watch_version (fst (record_all hs p)) = watch_version p + ip_changes (current_ip p) (map (sa_ip \<circ> snd) hs)"
  "length (filter is_data_plane_change (snd (record_all hs p))) = ip_changes (current_ip p) (map (sa_ip \<circ> snd) hs)"
  "peer_static_key (fst (record_all hs p)) = peer_static_key p"
  "hs \<noteq> [] \<Longrightarrow> current_ip (fst (record_all hs p)) = Some (sa_ip (snd (last hs)))"
proof (induction hs arbitrary: p)
  case Nil
  { case 1 show ?case by simp next case 2 show ?case by simp next case 3 show ?case by simp
    next case 4 then show ?case by simp }
next
  case (Cons h hs)
  obtain now a where h: "h = (now, a)" by (cases h)
  {
    case 1
    show ?case by (simp add: h case_prod_unfold Cons(1) [of "fst (record_heartbeat now a p)"])
  next
    case 2
    from Cons(2) [of "fst (record_heartbeat now a p)"] show ?case
      by (cases "current_ip p = Some (sa_ip a)") (simp_all add: h case_prod_unfold)
  next
    case 3
    from Cons(3) [of "fst (record_heartbeat now a p)"] show ?case
      by (cases "current_ip p = Some (sa_ip a)") (simp_all add: h case_prod_unfold)
  next
    case 4
    from Cons(4) [of "fst (record_heartbeat now a p)"] show ?case
      by (cases "hs = []") (simp_all add: h case_prod_unfold)
  }
qed

section \<open>The staging store\<close>

definition store_wf :: "candidate_record list \<Rightarrow> bool" where
  "store_wf cs \<longleftrightarrow> distinct (map cand_pubkey cs)"

lemma bump_candidate_None: "bump_candidate k cs = None \<longleftrightarrow> k \<notin> cand_pubkey ` set cs"
  by (induction cs) auto

lemma bump_candidate_keys: "bump_candidate k cs = Some cs' \<Longrightarrow> map cand_pubkey cs' = map cand_pubkey cs"
  by (induction cs arbitrary: cs') (auto split: if_splits)

lemma store_wf_record: "store_wf cs \<Longrightarrow> store_wf (record_candidate now k cs)"
  using bump_candidate_keys [of k cs] bump_candidate_None [of k cs]
  by (auto simp: record_candidate_def store_wf_def split: option.split)

lemma remove_index_mset: "i < length xs \<Longrightarrow> mset xs = add_mset (xs ! i) (mset (take i xs @ drop (Suc i) xs))"
  by (metis add_mset_add_single id_take_nth_drop mset.simps(2) mset_append union_mset_add_mset_right)

lemma filter_upt_nth: "map ((!) xs) (filter (\<lambda>i. P (xs ! i)) [0..<length xs]) = filter P xs"
proof -
  have "filter P xs = filter P (map ((!) xs) [0..<length xs])" by (simp add: map_nth)
  then show ?thesis by (simp add: filter_map comp_def)
qed

lemma store_wf_approve:
  assumes "store_wf cs"
  shows "store_wf (fst (approve L q cs))"
proof -
  have "distinct (map cand_pubkey (take i cs @ drop (Suc i) cs))" for i
  proof (cases "i < length cs")
    case True
    from remove_index_mset [OF True] have "mset (map cand_pubkey cs)
        = add_mset (cand_pubkey (cs ! i)) (mset (map cand_pubkey (take i cs @ drop (Suc i) cs)))"
      by (metis image_mset_add_mset mset_map)
    with assms show ?thesis
      unfolding store_wf_def by (metis distinct.simps(2) mset.simps(2) mset_eq_imp_distinct_iff)
  next
    case False
    with assms show ?thesis by (simp add: store_wf_def)
  qed
  with assms show ?thesis
    by (auto simp: approve_def Let_def store_wf_def split: prod.split list.split)
qed

datatype store_op = RecordCandidate u64 pub_key | Approve string

fun store_step :: "hash_lib \<Rightarrow> candidate_record list \<Rightarrow> store_op \<Rightarrow> candidate_record list" where
  "store_step L cs (RecordCandidate now k) = record_candidate now k cs"
| "store_step L cs (Approve q) = fst (approve L q cs)"

interpretation pending_store: invariant_machine "[]" "store_step L" store_wf for L
  by unfold_locales (simp add: store_wf_def, case_tac e, simp_all add: store_wf_record store_wf_approve)

lemma approve_cases:
  assumes "split_query q = (af, tail)"
  shows "approve L q cs =
    (if length tail < MIN_FINGERPRINT_PREFIX_LEN then (cs, PrefixTooShort (length tail) MIN_FINGERPRINT_PREFIX_LEN)
     else if \<not> list_all is_ascii_hexdigit tail then (cs, NotFound)
     else case filter (\<lambda>i. fingerprint_matches L af tail (cs ! i)) [0..<length cs] of
            [] \<Rightarrow> (cs, NotFound)
          | [i] \<Rightarrow> (take i cs @ drop (Suc i) cs,
               Approved (fingerprint L (cand_pubkey (cs ! i))) (cand_pubkey (cs ! i)))
          | many \<Rightarrow> (cs, Ambiguous (map (\<lambda>i. fingerprint L (cand_pubkey (cs ! i))) many)))"
  by (simp only: approve_def assms prod.case Let_def)

lemma approve_Approved:
  assumes "approve L q cs = (cs', Approved fp k)" and "split_query q = (af, tail)"
  shows "\<exists>c. filter (fingerprint_matches L af tail) cs = [c] \<and> cand_pubkey c = k
     \<and> fp = fingerprint L k \<and> mset cs = add_mset c (mset cs')
     \<and> MIN_FINGERPRINT_PREFIX_LEN \<le> length tail"
proof -
  let ?is = "filter (\<lambda>i. fingerprint_matches L af tail (cs ! i)) [0..<length cs]"
  have len: "MIN_FINGERPRINT_PREFIX_LEN \<le> length tail"
    using assms(1) unfolding approve_cases [OF assms(2)] by (auto split: if_splits list.splits)
  obtain i where i: "?is = [i]" and cs': "cs' = take i cs @ drop (Suc i) cs"
    and k: "k = cand_pubkey (cs ! i)" and fp: "fp = fingerprint L k"
    using assms(1) unfolding approve_cases [OF assms(2)] by (auto split: if_splits list.splits)
  have "i \<in> set ?is" by (simp add: i)
  then have lt: "i < length cs" by simp
  have "filter (fingerprint_matches L af tail) cs = map ((!) cs) ?is"
    by (rule filter_upt_nth [symmetric])
  then have "filter (fingerprint_matches L af tail) cs = [cs ! i]" by (simp only: i list.map)
  with remove_index_mset [OF lt] cs' k fp len show ?thesis by auto
qed

lemma approve_other:
  assumes "approve L q cs = (cs', r)" and "\<And>fp k. r \<noteq> Approved fp k"
  shows "cs' = cs"
proof -
  obtain af tail where "split_query q = (af, tail)" by (cases "split_query q")
  with assms show ?thesis
    by (auto simp: approve_cases split: if_splits list.splits)
qed

section \<open>Properties\<close>

text \<open>
  heartbeat invariance. Over any sequence of accepted heartbeats the data plane is woken
  exactly once per change of the peer's IP address (the first address counting as a
  change), whatever the source ports; the enrolled key is never touched, and the recorded
  address is the last one seen.
\<close>

theorem data_plane_woken_per_ip_change:
  "watch_version (fst (record_all hs p)) = watch_version p + ip_changes (current_ip p) (map (\<lambda>(_, a). sa_ip a) hs)
   \<and> length (filter is_data_plane_change (snd (record_all hs p)))
       = ip_changes (current_ip p) (map (\<lambda>(_, a). sa_ip a) hs)
   \<and> peer_static_key (fst (record_all hs p)) = peer_static_key p
   \<and> current_ip (fst (record_all hs p)) = (if hs = [] then current_ip p else Some (sa_ip (snd (last hs))))"
  using record_all_facts [of hs p] by (simp add: case_prod_unfold comp_def)

text \<open>
  approval pops a candidate only when at least eight hex digits were given and exactly
  one staged candidate's fingerprint starts with them; it returns that candidate's key and
  fingerprint and removes that candidate alone. Any other outcome leaves the store as it was.
\<close>

theorem approve_pops_unique_match:
  "case (split_query q, approve L q cs) of ((af, tail), (cs', r)) \<Rightarrow>
     (case r of
        Approved fp k \<Rightarrow>
          (\<exists>c. filter (fingerprint_matches L af tail) cs = [c] \<and> cand_pubkey c = k
             \<and> fp = fingerprint L k \<and> mset cs = add_mset c (mset cs')
             \<and> MIN_FINGERPRINT_PREFIX_LEN \<le> length tail)
      | _ \<Rightarrow> cs' = cs)"
proof -
  obtain af tail where sq: "split_query q = (af, tail)" by (cases "split_query q")
  obtain cs' r where ap: "approve L q cs = (cs', r)" by (cases "approve L q cs")
  show ?thesis
    using approve_Approved [OF _ sq, of L cs cs'] approve_other [of L q cs cs' r] ap sq
    by (cases r) auto
qed

end
