(* ===== verification/Heartbeat_Server.thy ===== *)
theory Heartbeat_Server
  imports Secure_Channel Reliability Peer_State
begin

text \<open>
  The relay-side UDP server (crate \<open>yggdrasil\<close>, file \<open>heartbeat/server.rs\<close>): handshakes with
  trust-on-first-use staging, heartbeats, inbound control envelopes and outbound control
  frames. Clock readings and the result of \<open>send_to\<close> are inputs of an event; the datagrams
  handed to the socket are its output. The control dispatcher is the interface
  \<open>control_dispatcher\<close>.
\<close>

section \<open>State\<close>

record 't session_state =
  ss_session :: "'t session"
  last_peer_addr :: socket_addr
  started_at :: nat
  control_channel :: control_channel
  next_outbound_seq :: u32

record ('t, 'a) server =
  peer :: peer_state
  pending_store :: "candidate_record list"
  acceptor :: "'a option"
  srv_session :: "'t session_state option"

text \<open>What the environment supplies while a packet is handled.\<close>

record io_env =
  clock_ms :: u64
  clock_ms_later :: u64
  instant :: nat
  send_ok :: bool

type_synonym datagrams = "(bytes \<times> socket_addr) list"
type_synonym 'a dispatcher = "'a \<Rightarrow> u8 \<Rightarrow> bytes \<Rightarrow> 'a \<times> ack_status"

section \<open>Handlers\<close>

definition handle_handshake1 ::
  "('h, 't) noise_lib \<Rightarrow> static_key_pair \<Rightarrow> io_env \<Rightarrow> packet_view \<Rightarrow> socket_addr \<Rightarrow> ('t, 'a) server
     \<Rightarrow> ('t, 'a) server \<times> datagrams" where
  "handle_handshake1 N keys io view src srv =
     (case process_handshake_1 N keys view of
        Inl _ \<Rightarrow> (srv, [])
      | Inr half \<Rightarrow>
          let offered = remote_public half in
          if Some offered \<noteq> peer_static_key (peer srv) then
            (if is_peer_enrolled (peer srv) then srv
             else srv\<lparr>pending_store := record_candidate (clock_ms io) offered (pending_store srv)\<rparr>, [])
          else
            (case half_handshake_complete N half of
               Inl _ \<Rightarrow> (srv, [])
             | Inr (sess, reply) \<Rightarrow>
                 if \<not> send_ok io then (srv, [(reply, src)])
                 else
                   (srv\<lparr>srv_session := Some \<lparr>ss_session = sess, last_peer_addr = src,
                      started_at = instant io, control_channel = channel_new,
                      next_outbound_seq = 0\<rparr>\<rparr>, [(reply, src)])))"

definition handle_heartbeat ::
  "('h, 't) noise_lib \<Rightarrow> io_env \<Rightarrow> packet_view \<Rightarrow> socket_addr \<Rightarrow> ('t, 'a) server
     \<Rightarrow> ('t, 'a) server \<times> datagrams" where
  "handle_heartbeat N io view src srv =
     (case srv_session srv of
        None \<Rightarrow> (srv, [])
      | Some state \<Rightarrow>
          (case decode_heartbeat N view (ss_session state) of
             (sess, Inl _) \<Rightarrow> (srv\<lparr>srv_session := Some (state\<lparr>ss_session := sess\<rparr>)\<rparr>, [])
           | (sess, Inr decoded) \<Rightarrow>
               (case encode_heartbeat_ack N (hb_counter decoded) (clock_ms io) sess of
                  (sess, Inl _) \<Rightarrow> (srv\<lparr>srv_session := Some (state\<lparr>ss_session := sess\<rparr>)\<rparr>, [])
                | (sess, Inr (_, ack)) \<Rightarrow>
                    let state = state\<lparr>ss_session := sess\<rparr> in
                    if \<not> send_ok io then (srv\<lparr>srv_session := Some state\<rparr>, [(ack, src)])
                    else
                      (case record_heartbeat (clock_ms_later io) src (peer srv) of (ps, _) \<Rightarrow>
                         (srv\<lparr>peer := ps, srv_session := Some (state\<lparr>last_peer_addr := src\<rparr>)\<rparr>,
                          [(ack, src)])))))"

text \<open>The status acknowledged for an inbound envelope: dispatched once, duplicates re-acked \<open>Ok\<close>.\<close>

definition inbound_status ::
  "'a dispatcher \<Rightarrow> 'a option \<Rightarrow> control_channel \<Rightarrow> control_envelope
     \<Rightarrow> 'a option \<times> control_channel \<times> ack_status" where
  "inbound_status disp acc ch env =
     (case on_inbound env ch of
        (ch, Deliver env) \<Rightarrow>
          (case acc of
             Some a \<Rightarrow>
               (case disp a (env_body_type env) (env_body env) of (a, st) \<Rightarrow> (Some a, ch, st))
           | None \<Rightarrow> (None, ch, Unknown))
      | (ch, Duplicate) \<Rightarrow> (acc, ch, AckOk))"

definition handle_control ::
  "('h, 't) noise_lib \<Rightarrow> postcard_lib \<Rightarrow> 'a dispatcher \<Rightarrow> io_env \<Rightarrow> packet_view \<Rightarrow> socket_addr
     \<Rightarrow> ('t, 'a) server \<Rightarrow> ('t, 'a) server \<times> datagrams" where
  "handle_control N P disp io view src srv =
     (case srv_session srv of
        None \<Rightarrow> (srv, [])
      | Some state \<Rightarrow>
          (case decode_control N P view (ss_session state) of
             (sess, Inl _) \<Rightarrow> (srv\<lparr>srv_session := Some (state\<lparr>ss_session := sess\<rparr>)\<rparr>, [])
           | (sess, Inr env) \<Rightarrow>
               (case inbound_status disp (acceptor srv) (control_channel state) env of (acc, ch, status) \<Rightarrow>
                let state = state\<lparr>ss_session := sess, control_channel := ch\<rparr>;
                    srv = srv\<lparr>acceptor := acc\<rparr>
                in case encode_control_ack N P \<lparr>ack_seq = env_seq env, ack_status = status\<rparr> sess of
                     (sess, Inl _) \<Rightarrow> (srv\<lparr>srv_session := Some (state\<lparr>ss_session := sess\<rparr>)\<rparr>, [])
                   | (sess, Inr (_, packet)) \<Rightarrow>
                       (srv\<lparr>srv_session := Some (state\<lparr>ss_session := sess\<rparr>)\<rparr>, [(packet, src)]))))"

definition handle_outbound ::
  "('h, 't) noise_lib \<Rightarrow> postcard_lib \<Rightarrow> control_envelope \<Rightarrow> ('t, 'a) server \<Rightarrow> ('t, 'a) server \<times> datagrams" where
  "handle_outbound N P env srv =
     (case srv_session srv of
        None \<Rightarrow> (srv, [])
      | Some state \<Rightarrow>
          let seq = next_outbound_seq state;
              state = state\<lparr>next_outbound_seq := seq + 1\<rparr>;
              env = env\<lparr>env_seq := seq\<rparr>
          in case encode_control N P env (ss_session state) of
               (sess, Inl _) \<Rightarrow> (srv\<lparr>srv_session := Some (state\<lparr>ss_session := sess\<rparr>)\<rparr>, [])
             | (sess, Inr (_, packet)) \<Rightarrow>
                 (srv\<lparr>srv_session := Some (state\<lparr>ss_session := sess\<rparr>)\<rparr>, [(packet, last_peer_addr state)]))"

definition handle_packet ::
  "('h, 't) noise_lib \<Rightarrow> postcard_lib \<Rightarrow> 'a dispatcher \<Rightarrow> static_key_pair \<Rightarrow> io_env \<Rightarrow> bytes \<Rightarrow> socket_addr
     \<Rightarrow> ('t, 'a) server \<Rightarrow> ('t, 'a) server \<times> datagrams" where
  "handle_packet N P disp keys io bytes src srv =
     (case parse bytes of
        Inl _ \<Rightarrow> (srv, [])
      | Inr view \<Rightarrow>
          (case view_type view of
             Handshake1 \<Rightarrow> handle_handshake1 N keys io view src srv
           | Heartbeat \<Rightarrow> handle_heartbeat N io view src srv
           | Rekey \<Rightarrow> (srv, [])
           | Control \<Rightarrow> handle_control N P disp io view src srv
           | ControlAck \<Rightarrow> (srv, [])
           | Handshake2 \<Rightarrow> (srv, [])
           | HeartbeatAck \<Rightarrow> (srv, [])))"

definition server_new :: "pub_key option \<Rightarrow> candidate_record list \<Rightarrow> 'a option \<Rightarrow> ('t, 'a) server" where
  "server_new k cs acc =
     \<lparr>peer = peer_state_new k, pending_store = cs, acceptor = acc, srv_session = None\<rparr>"

text \<open>The receive loop's events.\<close>

datatype server_event = Datagram io_env bytes socket_addr | OutboundFrame control_envelope

fun server_step ::
  "('h, 't) noise_lib \<Rightarrow> postcard_lib \<Rightarrow> 'a dispatcher \<Rightarrow> static_key_pair \<Rightarrow> ('t, 'a) server \<Rightarrow> server_event
     \<Rightarrow> ('t, 'a) server" where
  "server_step N P disp keys srv (Datagram io b src) = fst (handle_packet N P disp keys io b src srv)"
| "server_step N P disp keys srv (OutboundFrame env) = fst (handle_outbound N P env srv)"

section \<open>Invariant\<close>

text \<open>
  What the server needs of its dispatcher: an invariant of the dispatcher's own state that
  every dispatched body keeps. The server's invariant follows for any such dispatcher.
\<close>

definition server_wf :: "('a \<Rightarrow> bool) \<Rightarrow> ('t, 'a) server \<Rightarrow> bool" where
  "server_wf dinv srv \<longleftrightarrow> store_wf (pending_store srv)
     \<and> (\<forall>a. acceptor srv = Some a \<longrightarrow> dinv a)
     \<and> (\<forall>ss. srv_session srv = Some ss \<longrightarrow> channel_wf (control_channel ss))"

lemma channel_wf_on_inbound: "channel_wf ch \<Longrightarrow> channel_wf (fst (on_inbound e ch))"
  using channel_wf_step [of ch "OnInbound e"] by simp

locale control_dispatcher =
  fixes disp :: "'a dispatcher" and dinv :: "'a \<Rightarrow> bool"
  assumes dispatch_inv: "dinv a \<Longrightarrow> dinv (fst (disp a t b))"
begin

lemma inbound_status_wf:
  assumes "\<forall>a. acc = Some a \<longrightarrow> dinv a" and "channel_wf ch"
    and "inbound_status disp acc ch env = (acc', ch', st)"
  shows "(\<forall>a. acc' = Some a \<longrightarrow> dinv a) \<and> channel_wf ch'"
proof -
  have "channel_wf (fst (on_inbound env ch))" by (rule channel_wf_on_inbound [OF assms(2)])
  moreover have "dinv a \<Longrightarrow> dinv (fst (disp a t b))" for a t b by (rule dispatch_inv)
  ultimately show ?thesis
    using assms(1,3)
    by (auto simp: inbound_status_def split: prod.splits inbound_disposition.splits option.splits)
       (metis fst_conv)+
qed

lemma server_wf_packet:
  assumes "server_wf dinv srv"
  shows "server_wf dinv (fst (handle_packet N P disp keys io b src srv))"
proof -
  have hs: "server_wf dinv (fst (handle_handshake1 N keys io v src srv))" for v
    using assms
    by (auto simp: handle_handshake1_def Let_def server_wf_def store_wf_record channel_wf_new
        split: sum.split prod.split)
  have hb: "server_wf dinv (fst (handle_heartbeat N io v src srv))" for v
    using assms
    by (auto simp: handle_heartbeat_def Let_def server_wf_def split: sum.split prod.split option.split)
  have hc: "server_wf dinv (fst (handle_control N P disp io v src srv))" for v
  proof (cases "srv_session srv")
    case None
    with assms show ?thesis by (simp add: handle_control_def)
  next
    case (Some ss)
    with assms have a: "\<forall>a. acceptor srv = Some a \<longrightarrow> dinv a" and c: "channel_wf (control_channel ss)"
      by (auto simp: server_wf_def)
    from assms Some inbound_status_wf [OF a c] show ?thesis
      by (fastforce simp: handle_control_def Let_def server_wf_def split: sum.split prod.split)
  qed
  show ?thesis
    using assms hs hb hc
    by (auto simp: handle_packet_def split: sum.split packet_type.split)
qed

lemma server_wf_step: "server_wf dinv srv \<Longrightarrow> server_wf dinv (server_step N P disp keys srv ev)"
proof (cases ev)
  case (Datagram io b src)
  assume "server_wf dinv srv"
  then show ?thesis using Datagram server_wf_packet by simp
next
  case (OutboundFrame env)
  assume "server_wf dinv srv"
  then show ?thesis
    using OutboundFrame
    by (auto simp: handle_outbound_def Let_def server_wf_def split: option.split sum.split prod.split)
qed

end

section \<open>Authentication\<close>

text \<open>
  A datagram is authentic for the server's current state when it is a first handshake message
  whose static key is the enrolled one, or a heartbeat or control packet that the active
  session decrypts and accepts as fresh.
\<close>

definition authentic ::
  "('h, 't) noise_lib \<Rightarrow> postcard_lib \<Rightarrow> static_key_pair \<Rightarrow> ('t, 'a) server \<Rightarrow> bytes \<Rightarrow> bool" where
  "authentic N P keys srv b \<longleftrightarrow>
     (case parse b of
        Inl _ \<Rightarrow> False
      | Inr v \<Rightarrow>
          (view_type v = Handshake1 \<and>
             (case process_handshake_1 N keys v of
                Inl _ \<Rightarrow> False
              | Inr half \<Rightarrow> Some (remote_public half) = peer_static_key (peer srv)))
          \<or> (case srv_session srv of
               None \<Rightarrow> False
             | Some ss \<Rightarrow>
                 view_type v = Heartbeat \<and> is_ok (snd (decode_heartbeat N v (ss_session ss)))
                 \<or> view_type v = Control \<and> is_ok (snd (decode_control N P v (ss_session ss)))))"

text \<open>Two sessions that differ at most in the state of the AEAD transport.\<close>

fun same_session :: "'t session_state option \<Rightarrow> 't session_state option \<Rightarrow> bool" where
  "same_session None None = True"
| "same_session (Some a) (Some b) =
     (session_id (ss_session a) = session_id (ss_session b)
      \<and> last_seen_counter (ss_session a) = last_seen_counter (ss_session b)
      \<and> last_peer_addr a = last_peer_addr b \<and> started_at a = started_at b
      \<and> control_channel a = control_channel b \<and> next_outbound_seq a = next_outbound_seq b)"
| "same_session _ _ = False"

lemma same_session_refl [simp]: "same_session x x"
  by (cases x) simp_all

lemma decode_packet_rejected:
  assumes "decode_packet N x v s = (s', Inl e)"
  shows "last_seen_counter s' = last_seen_counter s \<and> session_id s' = session_id s"
  using assms
  by (auto simp: decode_packet_def Let_def split: if_splits option.splits prod.splits sum.splits)

lemma decode_packet_session_id [simp]: "session_id (fst (decode_packet N x v s)) = session_id s"
  by (auto simp: decode_packet_def Let_def split: option.splits prod.splits sum.splits)

text \<open>
  A packet whose ciphertext does not authenticate leaves the replay state alone. (One that
  authenticates but carries a malformed payload has consumed its counter.)
\<close>

definition undecryptable :: "('h, 't) noise_lib \<Rightarrow> ('t, 'a) server \<Rightarrow> bytes \<Rightarrow> bool" where
  "undecryptable N srv b \<longleftrightarrow>
     (case (parse b, srv_session srv) of
        (Inr v, Some ss) \<Rightarrow> \<not> is_ok (snd (decode_packet N (view_type v) v (ss_session ss)))
      | _ \<Rightarrow> True)"

lemma unauthentic_packet:
  assumes na: "\<not> authentic N P keys srv b" and un: "undecryptable N srv b"
    and h: "handle_packet N P disp keys io b src srv = (srv', out)"
  shows "out = [] \<and> peer srv' = peer srv \<and> acceptor srv' = acceptor srv
    \<and> same_session (srv_session srv) (srv_session srv')
    \<and> (is_peer_enrolled (peer srv) \<longrightarrow> pending_store srv' = pending_store srv)"
proof (cases "parse b")
  case (Inl e)
  with h show ?thesis by (simp add: handle_packet_def)
next
  case (Inr v)
  show ?thesis
  proof (cases "view_type v")
    case Handshake1
    with na h Inr show ?thesis
      by (auto simp: authentic_def handle_packet_def handle_handshake1_def Let_def is_peer_enrolled_def
          split: sum.splits if_splits)
  next
    case Heartbeat
    show ?thesis
    proof (cases "srv_session srv")
      case None
      with h Inr Heartbeat show ?thesis by (auto simp: handle_packet_def handle_heartbeat_def)
    next
      case (Some ss)
      obtain s' r where d: "decode_packet N Heartbeat v (ss_session ss) = (s', r)"
        by (cases "decode_packet N Heartbeat v (ss_session ss)")
      with un Inr Some Heartbeat obtain e where r: "r = Inl e"
        by (cases r) (auto simp: undecryptable_def)
      have dh: "decode_heartbeat N v (ss_session ss) = (s', Inl e)"
        by (simp add: decode_heartbeat_def d r)
      from decode_packet_rejected [OF d [unfolded r]] h Inr Some Heartbeat show ?thesis
        by (auto simp: handle_packet_def handle_heartbeat_def dh)
    qed
  next
    case Control
    show ?thesis
    proof (cases "srv_session srv")
      case None
      with h Inr Control show ?thesis by (auto simp: handle_packet_def handle_control_def)
    next
      case (Some ss)
      obtain s' r where d: "decode_packet N Control v (ss_session ss) = (s', r)"
        by (cases "decode_packet N Control v (ss_session ss)")
      with un Inr Some Control obtain e where r: "r = Inl e"
        by (cases r) (auto simp: undecryptable_def)
      have dc: "decode_control N P v (ss_session ss) = (s', Inl e)"
        by (simp add: decode_control_def d r)
      from decode_packet_rejected [OF d [unfolded r]] h Inr Some Control show ?thesis
        by (auto simp: handle_packet_def handle_control_def dc)
    qed
  qed (use h Inr in \<open>auto simp: handle_packet_def\<close>)
qed

text \<open>A concrete server and handshake packet over the plain library.\<close>

definition plain_hs1 :: "u8 \<Rightarrow> bytes" where
  "plain_hs1 k = write_preamble [] Handshake1 (SessionId 1 2 3 4) @ replicate 32 k"

definition plain_server :: "(plain_tr, unit) server" where
  "plain_server = server_new (Some (X25519 (replicate 32 1))) [] (Some ())"

definition plain_io :: io_env where
  "plain_io = \<lparr>clock_ms = 5, clock_ms_later = 6, instant = 0, send_ok = True\<rparr>"

definition reject_all :: "unit dispatcher" where
  "reject_all a t b = (a, Reject 102)"

lemma plain_hs1_parse:
  "parse (plain_hs1 k) = Inr \<lparr>view_type = Handshake1, view_session_id = SessionId 1 2 3 4,
     view_counter = None, view_body = replicate 32 k\<rparr>"
  by (simp add: plain_hs1_def parse_handshake)

lemma plain_hs1_process:
  "parse (plain_hs1 k) = Inr v \<Longrightarrow> process_handshake_1 plain_noise (plain_key 7) v =
     Inr \<lparr>half_inner = (False, replicate 32 7, Some (replicate 32 k), 1),
          half_session_id = SessionId 1 2 3 4, remote_public = X25519 (replicate 32 k)\<rparr>"
  by (auto simp: plain_hs1_parse process_handshake_1_def plain_noise_def plain_key_def
      X25519_PUBLIC_LEN_def)

section \<open>Properties\<close>

text \<open>
  C4: a datagram that is neither a handshake with the enrolled key nor decryptable under the
  active session is inert: the server sends nothing, the peer's key, address and heartbeat
  time, the dispatcher, and the session's identity, replay counter and control channel are
  unchanged, and once a peer is enrolled not even the staging store changes.
\<close>

theorem unauthenticated_datagram_inert:
  assumes "\<not> authentic N P keys srv b" and "undecryptable N srv b"
    and "handle_packet N P disp keys io b src srv = (srv', out)"
  shows "out = [] \<and> peer srv' = peer srv \<and> acceptor srv' = acceptor srv
    \<and> same_session (srv_session srv) (srv_session srv')
    \<and> (is_peer_enrolled (peer srv) \<longrightarrow> pending_store srv' = pending_store srv)"
  by (rule unauthentic_packet [OF assms])

theorem unauthenticated_datagram_inert_witness:
  "snd (handle_packet plain_noise plain_postcard reject_all (plain_key 7) plain_io (plain_hs1 9)
     (SockV4 1 1) plain_server) = []"
proof -
  have "\<not> authentic plain_noise plain_postcard (plain_key 7) plain_server (plain_hs1 9)"
    using plain_hs1_process [of 9]
    by (simp add: authentic_def plain_hs1_parse plain_server_def server_new_def peer_state_new_def)
  moreover have "undecryptable plain_noise plain_server (plain_hs1 9)"
    by (simp add: undecryptable_def plain_server_def server_new_def plain_hs1_parse)
  ultimately show ?thesis
    using unauthenticated_datagram_inert [of plain_noise plain_postcard "plain_key 7" plain_server
        "plain_hs1 9" reject_all plain_io "SockV4 1 1"]
    by (metis prod.collapse)
qed

text \<open>
  C38: a captured first handshake message is accepted again. If a datagram established a
  session, the same bytes, from any source address and at any later time while the same
  key is enrolled, replace whatever session is active by a fresh one bound to the new
  source: replay counter, control channel and outbound numbering all start over.
\<close>

theorem replayed_handshake_replaces_session:
  assumes "parse b = Inr v" and "view_type v = Handshake1"
    and "handle_packet N P disp keys io b src srv = (srv1, out1)" and "out1 \<noteq> []"
    and "peer_static_key (peer srv2) = peer_static_key (peer srv)" and "send_ok io2"
  shows "\<exists>srv3 ss reply. handle_packet N P disp keys io2 b src2 srv2 = (srv3, [(reply, src2)])
    \<and> srv_session srv3 = Some ss \<and> last_peer_addr ss = src2
    \<and> last_seen_counter (ss_session ss) = None \<and> control_channel ss = channel_new
    \<and> next_outbound_seq ss = 0"
proof -
  from assms(1-4) obtain half sess reply where half: "process_handshake_1 N keys v = Inr half"
    and key: "Some (remote_public half) = peer_static_key (peer srv)"
    and comp: "half_handshake_complete N half = Inr (sess, reply)" and out: "out1 = [(reply, src)]"
    by (auto simp: handle_packet_def handle_handshake1_def Let_def split: sum.splits if_splits)
  from comp have "last_seen_counter sess = None"
    by (auto simp: half_handshake_complete_def Let_def split: prod.splits sum.splits if_splits)
  with half key comp assms(1,2,5,6) out show ?thesis
    by (simp add: handle_packet_def handle_handshake1_def)
qed

theorem replayed_handshake_replaces_session_witness:
  "\<exists>srv3 ss out. handle_packet plain_noise plain_postcard reject_all (plain_key 7) plain_io (plain_hs1 1)
       (SockV4 99 99) plain_server = (srv3, out) \<and> srv_session srv3 = Some ss
     \<and> last_peer_addr ss = SockV4 99 99 \<and> last_seen_counter (ss_session ss) = None"
proof -
  let ?v = "\<lparr>view_type = Handshake1, view_session_id = SessionId 1 2 3 4,
     view_counter = None, view_body = replicate 32 1\<rparr>"
  obtain srv1 out1 where h: "handle_packet plain_noise plain_postcard reject_all (plain_key 7) plain_io
      (plain_hs1 1) (SockV4 1 1) plain_server = (srv1, out1)"
    by (cases "handle_packet plain_noise plain_postcard reject_all (plain_key 7) plain_io
      (plain_hs1 1) (SockV4 1 1) plain_server")
  have "out1 \<noteq> []"
    using h plain_hs1_process [OF plain_hs1_parse [of 1]]
    by (auto simp: handle_packet_def plain_hs1_parse handle_handshake1_def plain_server_def server_new_def
        peer_state_new_def half_handshake_complete_def plain_noise_def plain_io_def)
  from replayed_handshake_replaces_session [OF plain_hs1_parse _ h this refl, of plain_io "SockV4 99 99"]
  show ?thesis by (auto simp: plain_io_def)
qed

text \<open>
  a rejection whose ack is lost is reported to the sender as success. An envelope the
  dispatcher answers with any status is acknowledged with that status the first time, but
  its retransmission is acknowledged \<open>Ok\<close> without dispatching, and that ack resolves the
  sender's waiter with \<open>Ok(())\<close>.
\<close>

theorem lost_reject_reported_as_success:
  assumes "env_seq env \<notin> set (seen (dedup ch))" and "disp a (env_body_type env) (env_body env) = (a', st)"
    and "bt_get (outbound sender) (env_seq env) = Some entry" and "completion entry = Some tx"
  shows "\<exists>ch'. inbound_status disp (Some a) ch env = (Some a', ch', st)
    \<and> inbound_status disp (Some a') ch' env = (Some a', ch', AckOk)
    \<and> snd (snd (on_ack \<lparr>ack_seq = env_seq env, ack_status = AckOk\<rparr> sender)) = [(tx, Inr ())]"
proof -
  let ?ch' = "ch\<lparr>dedup := dedup_insert (env_seq env) (dedup ch)\<rparr>"
  have first: "on_inbound env ch = (?ch', Deliver env)"
    using assms(1) by (simp add: on_inbound_def dedup_contains_def list_ex_iff)
  have "env_seq env \<in> set (seen (dedup ?ch'))"
    using assms(1) by (simp add: dedup_insert_def dedup_contains_def list_ex_iff Let_def)
  then have "on_inbound env ?ch' = (?ch', Duplicate)"
    by (simp add: on_inbound_def dedup_contains_def list_ex_iff)
  with first assms(2,3,4) show ?thesis
    by (simp add: inbound_status_def on_ack_def notify_def)
qed

theorem lost_reject_reported_as_success_witness:
  "\<exists>ch'. inbound_status reject_all (Some ()) channel_new \<lparr>env_seq = 1, env_body_type = 1, env_body = []\<rparr>
       = (Some (), ch', Reject 102)
    \<and> inbound_status reject_all (Some ()) ch' \<lparr>env_seq = 1, env_body_type = 1, env_body = []\<rparr>
       = (Some (), ch', AckOk)
    \<and> snd (snd (on_ack \<lparr>ack_seq = 1, ack_status = AckOk\<rparr> one_pending)) = [(42, Inr ())]"
proof -
  let ?env = "\<lparr>env_seq = 1, env_body_type = 1, env_body = []\<rparr> :: control_envelope"
  have e: "bt_get (outbound one_pending) 1 = Some \<lparr>ent_envelope = ?env, attempts = 1,
      next_send_at = 1000 + RETX_INITIAL, completion = Some 42\<rparr>"
    by (simp add: one_pending_def enqueue_def Let_def channel_new_def bt_empty_def)
  show ?thesis
    using lost_reject_reported_as_success [of ?env channel_new reject_all "()" "()" "Reject 102" one_pending]
      e by (simp add: channel_new_def dedup_new_def reject_all_def)
qed

end
