(* ===== verification/Predicate_Set.thy ===== *)
theory Predicate_Set
  imports Rules PubKey
begin

text \<open>
  Predicate sets (crate \<open>ratatoskr\<close>, file \<open>predicate.rs\<close>): the chain-invariant projection of a
  terminal's rules that is pushed up the chain, and its wire decoding with the fallback to
  the legacy shape. The \<open>postcard\<close> decoders are parameters.
\<close>

record predicate =
  pred_name :: string
  listen_port :: u16
  pred_protocol :: protocol
  idle_timeout_ms :: "u64 option"
  https_http3 :: bool

definition predicate_validate :: "predicate \<Rightarrow> error + unit" where
  "predicate_validate p =
     (if https_http3 p \<and> pred_protocol p \<noteq> Https then
        Inl (InvalidPredicate (Fmt ''predicate {:?}: https_http3 is only valid with protocol https (got {})''
               [pred_name p, protocol_as_str (pred_protocol p)]))
      else Inr ())"

record predicate_set =
  predicates :: "predicate list"
  origin :: pub_key

record legacy_predicate =
  leg_name :: string
  leg_listen_port :: u16
  leg_protocol :: protocol
  leg_idle_timeout_ms :: "u64 option"

record legacy_predicate_set =
  leg_predicates :: "legacy_predicate list"
  leg_origin :: pub_key

definition into_current :: "legacy_predicate_set \<Rightarrow> predicate_set" where
  "into_current l =
     \<lparr>predicates = map (\<lambda>p. \<lparr>pred_name = leg_name p, listen_port = leg_listen_port p,
         pred_protocol = leg_protocol p, idle_timeout_ms = leg_idle_timeout_ms p,
         https_http3 = False\<rparr>) (leg_predicates l),
      origin = leg_origin l\<rparr>"

definition predicate_set_validate :: "predicate_set \<Rightarrow> error + unit" where
  "predicate_set_validate s = try_each predicate_validate (predicates s)"

record predicate_codec =
  enc_set :: "predicate_set \<Rightarrow> string + bytes"
  dec_set :: "bytes \<Rightarrow> string + predicate_set"
  dec_legacy :: "bytes \<Rightarrow> string + legacy_predicate_set"

definition from_wire_bytes :: "predicate_codec \<Rightarrow> bytes \<Rightarrow> error + predicate_set" where
  "from_wire_bytes C bytes =
     (case dec_set C bytes of
        Inr ps \<Rightarrow> rbind (predicate_set_validate ps) (\<lambda>_. Inr ps)
      | Inl current_err \<Rightarrow>
          rbind (map_err (\<lambda>_. Postcard current_err) (dec_legacy C bytes)) (\<lambda>legacy.
          let ps = into_current legacy in
          rbind (predicate_set_validate ps) (\<lambda>_. Inr ps)))"

definition PREDICATE_SET_TOO_LARGE :: u16 where "PREDICATE_SET_TOO_LARGE = 101"
definition INVALID_PREDICATE :: u16 where "INVALID_PREDICATE = 102"
definition LOCKED_PREDICATES_VIOLATION :: u16 where "LOCKED_PREDICATES_VIOLATION = 103"
definition PREDICATE_SET_MAX_WIRE_BYTES :: nat where "PREDICATE_SET_MAX_WIRE_BYTES = 8 * 1024"

text \<open>Whatever the wire carries, an accepted set has the HTTP/3 flag on HTTPS predicates only.\<close>

definition http3_ok :: "predicate_set \<Rightarrow> bool" where
  "http3_ok s \<longleftrightarrow> (\<forall>p\<in>set (predicates s). https_http3 p \<longrightarrow> pred_protocol p = Https)"

lemma predicate_set_validate_ok: "predicate_set_validate s = Inr () \<longleftrightarrow> http3_ok s"
  by (auto simp: predicate_set_validate_def predicate_validate_def http3_ok_def split: if_splits)

lemma http3_ok_into_current [simp]: "http3_ok (into_current l)"
  by (simp add: http3_ok_def into_current_def)

lemma from_wire_bytes_eq:
  "from_wire_bytes C b = Inr s \<longleftrightarrow>
     (dec_set C b = Inr s \<and> http3_ok s) \<or>
     (\<not> is_ok (dec_set C b) \<and> (\<exists>l. dec_legacy C b = Inr l \<and> s = into_current l))"
  by (auto simp: from_wire_bytes_def Let_def predicate_set_validate_ok split: sum.split)

end
