(* ===== verification/Chain_Query.thy ===== *)
theory Chain_Query
  imports Predicate_Set Control_Frame Reliability
begin

text \<open>
  The query layer of the chain: message types of the recursive summary and canary queries
  (crate \<open>ratatoskr\<close>, files \<open>chain_query.rs\<close>, \<open>canary.rs\<close> and the hop types of \<open>control.rs\<close>),
  the router that correlates replies with waiting callers (crate \<open>yggdrasil\<close>, file
  \<open>chain/query_router.rs\<close>) and the client handle that issues queries
  (\<open>chain/client/body_handler.rs\<close>). One-shot channels are numbered in allocation order; what a
  waiting caller observes is an input.
\<close>

section \<open>Messages\<close>

datatype mode = Gateway | Relay | Terminal

record chain_identity =
  id_local :: pub_key
  id_upstream :: "pub_key option"
  id_downstream :: "pub_key option"
  predicate_origin :: "pub_key option"
  id_last_apply_unix :: "64 word option"

record derived_rules_response =
  view_predicates :: "predicate list"
  derived_rules :: "rule list"
  view_chain :: chain_identity

record chain_hop =
  hop_index :: u32
  hop_mode :: mode
  uptime_secs :: u64
  hop_name :: "string option"
  hop_view :: derived_rules_response
  query_rtt_ms :: "u64 option"

record chain_hop_query =
  hq_query_id :: u32
  hq_depth_budget :: u32
  hq_deadline_ms :: u32

record chain_hop_reply =
  hr_query_id :: u32
  hr_hops :: "chain_hop list"
  hr_partial :: bool
  hr_error :: "string option"

record canary_arm =
  ca_query_id :: u32
  ca_depth_budget :: u32
  ca_deadline_ms :: u32
  rule_listen :: socket_addr
  rule_protocol :: protocol
  ca_token :: bytes
  expires_unix_ms :: u64

record canary_hop =
  ch_hop_index :: u32
  ch_pubkey :: pub_key
  ch_name :: "string option"
  ch_mode :: mode
  rule_present :: bool
  echo_armed :: bool
  ch_query_rtt_ms :: "u64 option"

record canary_reply =
  cr_query_id :: u32
  cr_hops :: "canary_hop list"
  cr_partial :: bool
  cr_error :: "string option"

definition CHAIN_HOP_REPLY_MAX_WIRE_BYTES :: nat where "CHAIN_HOP_REPLY_MAX_WIRE_BYTES = 16 * 1024"
definition CANARY_REPLY_MAX_WIRE_BYTES :: nat where "CANARY_REPLY_MAX_WIRE_BYTES = 4 * 1024"

text \<open>The \<open>postcard\<close> codecs of the four bodies.\<close>

record chain_lib =
  enc_hop_query :: "chain_hop_query \<Rightarrow> string + bytes"
  dec_hop_query :: "bytes \<Rightarrow> string + chain_hop_query"
  enc_hop_reply :: "chain_hop_reply \<Rightarrow> string + bytes"
  dec_hop_reply :: "bytes \<Rightarrow> string + chain_hop_reply"
  enc_canary_arm :: "canary_arm \<Rightarrow> string + bytes"
  dec_canary_arm :: "bytes \<Rightarrow> string + canary_arm"
  enc_canary_reply :: "canary_reply \<Rightarrow> string + bytes"
  dec_canary_reply :: "bytes \<Rightarrow> string + canary_reply"

section \<open>Query router\<close>

record query_router =
  next_id :: u32
  next_chan :: nat
  pending_chain_hop :: "u32 \<rightharpoonup> nat"
  pending_canary :: "u32 \<rightharpoonup> nat"

definition router_new :: query_router where
  "router_new = \<lparr>next_id = 1, next_chan = 0, pending_chain_hop = Map.empty, pending_canary = Map.empty\<rparr>"

definition register :: "query_router \<Rightarrow> query_router \<times> u32 \<times> nat" where
  "register r =
     (let id = next_id r; tx = next_chan r in
      (r\<lparr>next_id := id + 1, next_chan := tx + 1,
         pending_chain_hop := (pending_chain_hop r)(id \<mapsto> tx)\<rparr>, id, tx))"

definition register_canary :: "query_router \<Rightarrow> query_router \<times> u32 \<times> nat" where
  "register_canary r =
     (let id = next_id r; tx = next_chan r in
      (r\<lparr>next_id := id + 1, next_chan := tx + 1,
         pending_canary := (pending_canary r)(id \<mapsto> tx)\<rparr>, id, tx))"

definition cancel :: "u32 \<Rightarrow> query_router \<Rightarrow> query_router" where
  "cancel query_id r = r\<lparr>pending_chain_hop := (pending_chain_hop r)(query_id := None)\<rparr>"

definition cancel_canary :: "u32 \<Rightarrow> query_router \<Rightarrow> query_router" where
  "cancel_canary query_id r = r\<lparr>pending_canary := (pending_canary r)(query_id := None)\<rparr>"

text \<open>
  \<open>resolve\<close> removes the registration and sends on its channel; the send fails when the receiver
  (\<open>alive\<close>) is gone. The third component is the delivery, if any.
\<close>

definition resolve ::
  "(nat \<Rightarrow> bool) \<Rightarrow> chain_hop_reply \<Rightarrow> query_router \<Rightarrow> query_router \<times> bool \<times> (nat \<times> chain_hop_reply) list" where
  "resolve alive reply r =
     (case pending_chain_hop r (hr_query_id reply) of
        None \<Rightarrow> (r, False, [])
      | Some tx \<Rightarrow>
          (cancel (hr_query_id reply) r, alive tx, if alive tx then [(tx, reply)] else []))"

definition resolve_canary ::
  "(nat \<Rightarrow> bool) \<Rightarrow> canary_reply \<Rightarrow> query_router \<Rightarrow> query_router \<times> bool \<times> (nat \<times> canary_reply) list" where
  "resolve_canary alive reply r =
     (case pending_canary r (cr_query_id reply) of
        None \<Rightarrow> (r, False, [])
      | Some tx \<Rightarrow>
          (cancel_canary (cr_query_id reply) r, alive tx, if alive tx then [(tx, reply)] else []))"

text \<open>A delivery on a channel, tagged with the kind of query.\<close>

datatype delivery = HopDelivery nat chain_hop_reply | CanaryDelivery nat canary_reply

type_synonym body_handler = "u8 \<Rightarrow> bytes \<Rightarrow> ack_status"

definition router_body_handler ::
  "chain_lib \<Rightarrow> body_handler option \<Rightarrow> (nat \<Rightarrow> bool) \<Rightarrow> u8 \<Rightarrow> bytes \<Rightarrow> query_router
     \<Rightarrow> query_router \<times> ack_status \<times> delivery list" where
  "router_body_handler L inner alive body_type body r =
     (if body_type = as_byte ChainHopReply then
        (case dec_hop_reply L body of
           Inr reply \<Rightarrow>
             (case resolve alive reply r of (r, _, ds) \<Rightarrow> (r, AckOk, map (\<lambda>(c, x). HopDelivery c x) ds))
         | Inl _ \<Rightarrow> (r, Unknown, []))
      else if body_type = as_byte CanaryReply then
        (case dec_canary_reply L body of
           Inr reply \<Rightarrow>
             (case resolve_canary alive reply r of (r, _, ds) \<Rightarrow>
                (r, AckOk, map (\<lambda>(c, x). CanaryDelivery c x) ds))
         | Inl _ \<Rightarrow> (r, Unknown, []))
      else
        (case inner of
           Some h \<Rightarrow> (r, h body_type body, [])
         | None \<Rightarrow> (r, Unknown, [])))"

section \<open>Client handle\<close>

record control_op =
  op_body_type :: u8
  op_body :: bytes
  op_completion :: nat

record client_handle =
  tx_open :: bool
  tx_queue :: "control_op list"
  tx_next :: nat
  router :: query_router

definition send_control :: "u8 \<Rightarrow> bytes \<Rightarrow> client_handle \<Rightarrow> client_handle \<times> (unit + nat)" where
  "send_control body_type body h =
     (if tx_open h then
        (h\<lparr>tx_queue := tx_queue h @ [\<lparr>op_body_type = body_type, op_body = body, op_completion = tx_next h\<rparr>],
           tx_next := tx_next h + 1\<rparr>, Inr (tx_next h))
      else (h, Inl ()))"

datatype query_error = QueryTimeout | ClientDown | QuerySend send_error | Encode string

text \<open>
  What the two waits of a query observe, and what the other tasks do to the handle meanwhile.
\<close>

datatype ack_wait = AckElapsed | AckDropped | AckGot "send_error + unit"
datatype 'r reply_wait = ReplyElapsed | ReplyDropped | ReplyGot 'r

record 'r query_env =
  qe_meanwhile :: "client_handle \<Rightarrow> client_handle"
  qe_ack :: ack_wait
  qe_reply :: "'r reply_wait"

definition on_router :: "(query_router \<Rightarrow> query_router) \<Rightarrow> client_handle \<Rightarrow> client_handle" where
  "on_router f h = h\<lparr>router := f (router h)\<rparr>"

definition await_query ::
  "(client_handle \<Rightarrow> client_handle) \<Rightarrow> 'r query_env \<Rightarrow> client_handle \<Rightarrow> client_handle \<times> (query_error + 'r)" where
  "await_query cancelled E h =
     (let h = qe_meanwhile E h in
      case qe_ack E of
        AckElapsed \<Rightarrow> (cancelled h, Inl QueryTimeout)
      | AckDropped \<Rightarrow> (cancelled h, Inl ClientDown)
      | AckGot (Inl e) \<Rightarrow> (cancelled h, Inl (QuerySend e))
      | AckGot (Inr _) \<Rightarrow>
          (case qe_reply E of
             ReplyGot reply \<Rightarrow> (h, Inr reply)
           | ReplyDropped \<Rightarrow> (h, Inl ClientDown)
           | ReplyElapsed \<Rightarrow> (cancelled h, Inl QueryTimeout)))"

definition u32_try_from :: "nat \<Rightarrow> u32" where
  "u32_try_from n = (if n < 2 ^ 32 then of_nat n else - 1)"

definition query_upstream ::
  "chain_lib \<Rightarrow> chain_hop_reply query_env \<Rightarrow> u32 \<Rightarrow> nat \<Rightarrow> client_handle
     \<Rightarrow> client_handle \<times> (query_error + chain_hop_reply)" where
  "query_upstream L E depth_budget deadline h =
     (case register (router h) of (r, query_id, rx) \<Rightarrow>
      let h = h\<lparr>router := r\<rparr>;
          query = \<lparr>hq_query_id = query_id, hq_depth_budget = depth_budget,
                   hq_deadline_ms = u32_try_from deadline\<rparr>
      in case enc_hop_query L query of
           Inl e \<Rightarrow> (h, Inl (Encode e))
         | Inr body \<Rightarrow>
             (case send_control (as_byte ChainHopQuery) body h of
                (h, Inl _) \<Rightarrow> (on_router (cancel query_id) h, Inl ClientDown)
              | (h, Inr ack_rx) \<Rightarrow> await_query (on_router (cancel query_id)) E h))"

definition query_upstream_canary ::
  "chain_lib \<Rightarrow> canary_reply query_env \<Rightarrow> canary_arm \<Rightarrow> nat \<Rightarrow> client_handle
     \<Rightarrow> client_handle \<times> (query_error + canary_reply)" where
  "query_upstream_canary L E arm deadline h =
     (case register_canary (router h) of (r, query_id, rx) \<Rightarrow>
      let h = h\<lparr>router := r\<rparr>;
          arm = arm\<lparr>ca_query_id := query_id, ca_deadline_ms := u32_try_from deadline\<rparr>
      in case enc_canary_arm L arm of
           Inl e \<Rightarrow> (h, Inl (Encode e))
         | Inr body \<Rightarrow>
             (case send_control (as_byte CanaryArm) body h of
                (h, Inl _) \<Rightarrow> (on_router (cancel_canary query_id) h, Inl ClientDown)
              | (h, Inr ack_rx) \<Rightarrow> await_query (on_router (cancel_canary query_id)) E h))"

definition pad4 :: "string \<Rightarrow> string" where
  "pad4 s = replicate (4 - length s) CHR ''0'' @ s"

primrec show_send_error :: "send_error \<Rightarrow> string" where
  "show_send_error (Timeout n) = ''control envelope timed out after '' @ show_nat n @ '' attempts''"
| "show_send_error (Rejected c) =
     ''control envelope rejected by peer: code 0x'' @ pad4 (show_radix 16 (unat c))"
| "show_send_error UnknownBodyType = ''control envelope reported as unknown body type by peer''"
| "show_send_error ChannelClosed = ''control channel shut down before ack''"

primrec show_query_error :: "query_error \<Rightarrow> string" where
  "show_query_error QueryTimeout = ''chain hop query timed out''"
| "show_query_error ClientDown = ''chain client is shut down''"
| "show_query_error (QuerySend e) = ''chain hop query send failed: '' @ show_send_error e"
| "show_query_error (Encode e) = ''failed to encode ChainHopQuery body: '' @ e"

section \<open>Correlation\<close>

datatype router_event =
    Register | RegisterCanary | Cancel u32 | CancelCanary u32 | Inbound "nat \<Rightarrow> bool" u8 bytes

datatype router_out = Issued bool nat u32 | Delivered bool nat u32

primrec delivery_out :: "delivery \<Rightarrow> router_out" where
  "delivery_out (HopDelivery c x) = Delivered False c (hr_query_id x)"
| "delivery_out (CanaryDelivery c x) = Delivered True c (cr_query_id x)"

fun router_step ::
  "chain_lib \<Rightarrow> body_handler option \<Rightarrow> query_router \<Rightarrow> router_event \<Rightarrow> query_router \<times> router_out list" where
  "router_step L inner r Register = (case register r of (r, qid, c) \<Rightarrow> (r, [Issued False c qid]))"
| "router_step L inner r RegisterCanary = (case register_canary r of (r, qid, c) \<Rightarrow> (r, [Issued True c qid]))"
| "router_step L inner r (Cancel qid) = (cancel qid r, [])"
| "router_step L inner r (CancelCanary qid) = (cancel_canary qid r, [])"
| "router_step L inner r (Inbound alive t b) =
     (case router_body_handler L inner alive t b r of (r, _, ds) \<Rightarrow> (r, map delivery_out ds))"

fun router_run ::
  "chain_lib \<Rightarrow> body_handler option \<Rightarrow> query_router \<Rightarrow> router_event list \<Rightarrow> query_router \<times> router_out list" where
  "router_run L inner r [] = (r, [])"
| "router_run L inner r (ev # evs) =
     (case router_step L inner r ev of (r, out) \<Rightarrow>
      case router_run L inner r evs of (r, out') \<Rightarrow> (r, out @ out'))"

fun issued :: "router_out list \<Rightarrow> (bool \<times> nat \<times> u32) list" where
  "issued [] = []"
| "issued (Issued k c qid # out) = (k, c, qid) # issued out"
| "issued (Delivered k c qid # out) = issued out"

fun answered :: "router_out list \<Rightarrow> (bool \<times> nat \<times> u32) list" where
  "answered [] = []"
| "answered (Issued k c qid # out) = answered out"
| "answered (Delivered k c qid # out) = (k, c, qid) # answered out"

lemma issued_append [simp]: "issued (xs @ ys) = issued xs @ issued ys"
  by (induction xs rule: issued.induct) simp_all

lemma answered_append [simp]: "answered (xs @ ys) = answered xs @ answered ys"
  by (induction xs rule: answered.induct) simp_all

abbreviation chan_of :: "bool \<times> nat \<times> u32 \<Rightarrow> nat" where
  "chan_of x \<equiv> fst (snd x)"

definition chans :: "(bool \<times> nat \<times> u32) list \<Rightarrow> nat set" where
  "chans xs = chan_of ` set xs"

lemma chans_simps [simp]:
  "chans [] = {}" "chans (x # xs) = insert (chan_of x) (chans xs)" "chans (xs @ ys) = chans xs \<union> chans ys"
  by (auto simp: chans_def)

lemma distinct_chans [simp]: "distinct (map chan_of (xs @ [x])) \<longleftrightarrow> distinct (map chan_of xs) \<and> chan_of x \<notin> chans xs"
  by (auto simp: chans_def)

lemma chansI: "(k, c, qid) \<in> set xs \<Longrightarrow> c \<in> chans xs"
  by (force simp: chans_def)

definition pending_of :: "query_router \<Rightarrow> bool \<Rightarrow> u32 \<rightharpoonup> nat" where
  "pending_of r k = (if k then pending_canary r else pending_chain_hop r)"

text \<open>Every pending registration was issued under its id and its channel is unused so far.\<close>

definition router_wf :: "query_router \<Rightarrow> router_out list \<Rightarrow> bool" where
  "router_wf r out \<longleftrightarrow>
     distinct (map chan_of (issued out)) \<and> (\<forall>c\<in>chans (issued out). c < next_chan r)
     \<and> set (answered out) \<subseteq> set (issued out) \<and> distinct (map chan_of (answered out))
     \<and> (\<forall>k qid c. pending_of r k qid = Some c \<longrightarrow>
          (k, c, qid) \<in> set (issued out) \<and> c \<notin> chans (answered out))"

lemma issued_unique:
  "router_wf r out \<Longrightarrow> (k, c, qid) \<in> set (issued out) \<Longrightarrow> (k', c, qid') \<in> set (issued out) \<Longrightarrow> k = k' \<and> qid = qid'"
  using inj_onD [of chan_of "set (issued out)" "(k, c, qid)" "(k', c, qid')"]
  by (simp add: router_wf_def distinct_map)

lemma router_wf_register:
  assumes "router_wf r out" and "next_chan r' = next_chan r + 1"
    and "\<And>k'. pending_of r' k' = (if k' = k then (pending_of r k)(qid \<mapsto> next_chan r) else pending_of r k')"
  shows "router_wf r' (out @ [Issued k (next_chan r) qid])"
proof -
  have "next_chan r \<notin> chans (issued out)" using assms(1) by (auto simp: router_wf_def)
  moreover from this have "next_chan r \<notin> chans (answered out)"
    using assms(1) unfolding router_wf_def chans_def by blast
  moreover have "(k', c, qid') \<in> set (issued out) \<and> c \<notin> chans (answered out)
      \<or> k' = k \<and> qid' = qid \<and> c = next_chan r" if "pending_of r' k' qid' = Some c" for k' qid' c
    using that assms(1) unfolding assms(3) router_wf_def by (auto split: if_splits)
  ultimately show ?thesis
    using assms(1,2) unfolding router_wf_def by (auto simp: less_Suc_eq dest: chansI)
qed

lemma router_wf_shrink:
  assumes "router_wf r out" and "next_chan r' = next_chan r"
    and "\<And>k qid c. pending_of r' k qid = Some c \<Longrightarrow> pending_of r k qid = Some c"
  shows "router_wf r' out"
  using assms(1,2) unfolding router_wf_def by (auto dest!: assms(3))

lemma router_wf_deliver:
  assumes wf: "router_wf r out" and p: "pending_of r k qid = Some c" and n: "next_chan r' = next_chan r"
    and sub: "\<And>k' qid' c'. pending_of r' k' qid' = Some c' \<Longrightarrow> pending_of r k' qid' = Some c' \<and> (k', qid') \<noteq> (k, qid)"
  shows "router_wf r' (out @ [Delivered k c qid])"
proof -
  from wf p have i: "(k, c, qid) \<in> set (issued out)" and f: "c \<notin> chans (answered out)"
    by (auto simp: router_wf_def)
  have "c' \<noteq> c" if "pending_of r' k' qid' = Some c'" for k' qid' c'
  proof
    assume "c' = c"
    with sub [OF that] wf have "(k', c, qid') \<in> set (issued out)" by (auto simp: router_wf_def)
    from issued_unique [OF wf this i] sub [OF that] show False by simp
  qed
  with wf i f n show ?thesis unfolding router_wf_def by (auto dest!: sub dest: chansI)
qed

lemma router_wf_cancel:
  assumes "router_wf r out"
  shows "router_wf (cancel qid r) out" and "router_wf (cancel_canary qid r) out"
  by (rule router_wf_shrink [OF assms]; auto simp: cancel_def cancel_canary_def pending_of_def split: if_splits)+

lemma router_wf_step:
  assumes "router_wf r out"
  shows "router_wf (fst (router_step L inner r ev)) (out @ snd (router_step L inner r ev))"
proof (cases ev)
  case Register
  then show ?thesis
    by (auto intro!: router_wf_register [OF assms] simp: register_def Let_def pending_of_def)
next
  case RegisterCanary
  then show ?thesis
    by (auto intro!: router_wf_register [OF assms] simp: register_canary_def Let_def pending_of_def)
next
  case (Cancel qid)
  then show ?thesis using router_wf_cancel [OF assms] by simp
next
  case (CancelCanary qid)
  then show ?thesis using router_wf_cancel [OF assms] by simp
next
  case (Inbound alive t b)
  have "router_wf (cancel qid r) (out @ [Delivered False c qid])"
    if "pending_chain_hop r qid = Some c" for qid c
    by (rule router_wf_deliver [OF assms]) (use that in \<open>auto simp: cancel_def pending_of_def split: if_splits\<close>)
  moreover have "router_wf (cancel_canary qid r) (out @ [Delivered True c qid])"
    if "pending_canary r qid = Some c" for qid c
    by (rule router_wf_deliver [OF assms]) (use that in \<open>auto simp: cancel_canary_def pending_of_def split: if_splits\<close>)
  ultimately show ?thesis
    using assms router_wf_cancel [OF assms] unfolding Inbound
    by (simp add: router_body_handler_def resolve_def resolve_canary_def split: sum.split option.split)
qed

lemma router_wf_run:
  "router_wf r out \<Longrightarrow> router_wf (fst (router_run L inner r evs)) (out @ snd (router_run L inner r evs))"
proof (induction evs arbitrary: r out)
  case (Cons ev evs)
  from Cons.IH [OF router_wf_step [OF Cons.prems, of L inner ev]] show ?case
    by (simp add: split_def)
qed simp

lemma router_wf_new: "router_wf router_new []"
  by (simp add: router_wf_def router_new_def pending_of_def)

section \<open>Properties\<close>

text \<open>
  C28: replies are correlated with queries. Over any interleaving of registrations,
  cancellations and inbound control bodies, every reply handed to a waiting caller carries
  the query id that was issued to that caller and is of the kind it asked for, and no caller
  receives more than one. This also holds when the 32-bit id counter wraps around.
\<close>

theorem replies_correlated:
  "set (answered (snd (router_run L inner router_new evs))) \<subseteq> set (issued (snd (router_run L inner router_new evs)))
   \<and> distinct (map chan_of (answered (snd (router_run L inner router_new evs))))"
  using router_wf_run [OF router_wf_new, of L inner evs] by (simp add: router_wf_def)

text \<open>
  no query leaks its registration. Whatever the two waits observe and whatever the other
  tasks do in between, once \<open>query_upstream\<close> has returned its id is no longer registered,
  provided that a received or dropped reply channel has been consumed by the router. The
  exception is a body that fails to encode: that path returns before the cancellation.
\<close>

theorem query_leaves_no_registration:
  assumes "query_upstream L E depth deadline h = (h', res)"
    and "qe_ack E = AckGot (Inr ()) \<and> qe_reply E \<noteq> ReplyElapsed \<longrightarrow>
      (\<forall>g. pending_chain_hop (router (qe_meanwhile E g)) (next_id (router h)) = None)"
  shows "pending_chain_hop (router h') (next_id (router h)) =
     (case res of Inl (Encode _) \<Rightarrow> Some (next_chan (router h)) | _ \<Rightarrow> None)"
  using assms
  by (auto simp: query_upstream_def register_def Let_def send_control_def await_query_def on_router_def
      cancel_def split: sum.splits if_splits ack_wait.splits reply_wait.splits)


definition plain_chain_lib :: chain_lib where
  "plain_chain_lib =
     \<lparr>enc_hop_query = (\<lambda>_. Inr [0]), dec_hop_query = (\<lambda>_. Inl []), enc_hop_reply = (\<lambda>_. Inr [0]),
      dec_hop_reply = (\<lambda>_. Inl []), enc_canary_arm = (\<lambda>_. Inr [0]), dec_canary_arm = (\<lambda>_. Inl []),
      enc_canary_reply = (\<lambda>_. Inr [0]), dec_canary_reply = (\<lambda>_. Inl [])\<rparr>"

definition answered_env :: "chain_hop_reply query_env" where
  "answered_env =
     \<lparr>qe_meanwhile = on_router (cancel 1), qe_ack = AckGot (Inr ()),
      qe_reply = ReplyGot \<lparr>hr_query_id = 1, hr_hops = [], hr_partial = False, hr_error = None\<rparr>\<rparr>"

definition fresh_handle :: client_handle where
  "fresh_handle = \<lparr>tx_open = True, tx_queue = [], tx_next = 0, router = router_new\<rparr>"

theorem query_leaves_no_registration_witness:
  "pending_chain_hop (router (fst (query_upstream plain_chain_lib answered_env 16 4750 fresh_handle))) 1 = None"
  using query_leaves_no_registration [of plain_chain_lib answered_env 16 4750 fresh_handle
      "fst (query_upstream plain_chain_lib answered_env 16 4750 fresh_handle)"
      "snd (query_upstream plain_chain_lib answered_env 16 4750 fresh_handle)"]
  by (simp add: answered_env_def on_router_def cancel_def fresh_handle_def router_new_def plain_chain_lib_def
      query_upstream_def register_def Let_def send_control_def await_query_def)

end
