(* ===== verification/Chain_Client.thy ===== *)
theory Chain_Client
  imports Heartbeat_Server Chain_Query
begin

text \<open>
  The dialling side of a chain session (\<open>chain/client/\<close>: \<open>mod.rs\<close>, \<open>backoff.rs\<close>, \<open>handshake.rs\<close>,
  \<open>run_loop.rs\<close>): handshake, the heartbeat loop with its liveness probe, control sends and
  retransmissions, and the reconnect loop with exponential backoff. One turn of the heartbeat loop
  is the checks at its head followed by the branch of \<open>select!\<close> that became ready; clock readings
  (milliseconds) and the results of socket operations are inputs of a turn.
\<close>

section \<open>Configuration and state\<close>

definition HANDSHAKE_TIMEOUT :: nat where "HANDSHAKE_TIMEOUT = 5000"
definition BACKOFF_MIN :: nat where "BACKOFF_MIN = 500"
definition BACKOFF_MAX :: nat where "BACKOFF_MAX = 30000"
definition ACK_DEADLINE_MULTIPLIER :: nat where "ACK_DEADLINE_MULTIPLIER = 6"
definition FAST_PROBE_AFTER_MULTIPLIER :: nat where "FAST_PROBE_AFTER_MULTIPLIER = 2"
definition FAST_PROBE_DEADLINE_MULTIPLIER :: nat where "FAST_PROBE_DEADLINE_MULTIPLIER = 1"

record 'b client_config =
  cc_endpoint :: string
  cc_upstream_pubkey :: pub_key
  cc_local_keys :: static_key_pair
  cc_heartbeat_interval :: nat
  cc_rekey_interval :: nat
  cc_body_handler :: "'b dispatcher option"
  cc_local_bind :: "ip_addr option"

datatype session_exit = ExitRekey | ExitCancelled | ExitReconnectRequested

datatype client_error =
    ResolveFailed
  | NoAddresses
  | BindFailed
  | ConnectFailed
  | BuildHandshake1 error
  | SendHandshake1
  | RecvHandshake2
  | Handshake2Timeout
  | ParseHandshake2 error
  | ExpectedHandshake2 packet_type
  | CompleteHandshake error
  | ProbeUnanswered
  | NoAckSince
  | NoAckEver
  | RecvFailed
  | EncodeHeartbeat error
  | SendHeartbeat

text \<open>The local variables of \<open>heartbeat_loop\<close>, with the state the body handler works on.\<close>

record ('t, 'b) client_loop =
  cl_session :: "'t session"
  cl_channel :: control_channel
  cl_started :: nat
  cl_last_ack :: "nat option"
  cl_probe :: "nat option"
  cl_sent :: u64
  cl_acked :: u64
  cl_handler :: 'b

definition client_loop_new :: "nat \<Rightarrow> 't session \<Rightarrow> 'b \<Rightarrow> ('t, 'b) client_loop" where
  "client_loop_new now s h =
     \<lparr>cl_session = s, cl_channel = channel_new, cl_started = now, cl_last_ack = None, cl_probe = None,
      cl_sent = 0, cl_acked = 0, cl_handler = h\<rparr>"

section \<open>The head of a turn\<close>

definition ack_deadline :: "'b client_config \<Rightarrow> nat" where
  "ack_deadline c = cc_heartbeat_interval c * ACK_DEADLINE_MULTIPLIER"

definition fast_probe_after :: "'b client_config \<Rightarrow> nat" where
  "fast_probe_after c = cc_heartbeat_interval c * FAST_PROBE_AFTER_MULTIPLIER"

definition fast_probe_deadline :: "'b client_config \<Rightarrow> nat" where
  "fast_probe_deadline c = cc_heartbeat_interval c * FAST_PROBE_DEADLINE_MULTIPLIER"

text \<open>
  The extra heartbeat; failing to encode or send it only leaves it unrecorded. The time it is
  recorded with is read once the send has returned, \<open>took\<close> after the head of the turn.
\<close>

definition send_probe ::
  "('h, 't) noise_lib \<Rightarrow> nat \<Rightarrow> u64 \<Rightarrow> bool \<Rightarrow> ('t, 'b) client_loop \<Rightarrow> ('t, 'b) client_loop \<times> bytes list" where
  "send_probe N now ts ok st =
     (case encode_heartbeat N ts 0 (cl_session st) of
        (s, Inl _) \<Rightarrow> (st\<lparr>cl_session := s\<rparr>, [])
      | (s, Inr (_, packet)) \<Rightarrow>
          if \<not> ok then (st\<lparr>cl_session := s\<rparr>, [])
          else (st\<lparr>cl_session := s, cl_sent := cl_sent st + 1, cl_probe := Some now\<rparr>, [packet]))"

definition loop_head ::
  "('h, 't) noise_lib \<Rightarrow> 'b client_config \<Rightarrow> nat \<Rightarrow> nat \<Rightarrow> u64 \<Rightarrow> bool \<Rightarrow> ('t, 'b) client_loop
     \<Rightarrow> (client_error + session_exit) option \<times> ('t, 'b) client_loop \<times> bytes list" where
  "loop_head N c now took ts ok st =
     (if cc_rekey_interval c \<le> now - cl_started st then (Some (Inr ExitRekey), st, [])
      else if (case cl_probe st of Some p \<Rightarrow> fast_probe_deadline c < now - p | None \<Rightarrow> False)
        then (Some (Inl ProbeUnanswered), st, [])
      else case cl_last_ack st of
        Some acked_at \<Rightarrow>
          (let since = now - acked_at;
               (st', out) = (if cl_probe st = None \<and> fast_probe_after c < since
                             then send_probe N (now + took) ts ok st else (st, []))
           in if ack_deadline c < since then (Some (Inl NoAckSince), st', out) else (None, st', out))
      | None \<Rightarrow>
          if 0 < cl_sent st \<and> ack_deadline c < now - cl_started st
          then (Some (Inl NoAckEver), st, []) else (None, st, []))"

section \<open>The branches of the select\<close>

definition dispatch_body :: "'b dispatcher option \<Rightarrow> u8 \<Rightarrow> bytes \<Rightarrow> 'b \<Rightarrow> 'b \<times> ack_status" where
  "dispatch_body handler body_type body s =
     (case handler of Some h \<Rightarrow> h s body_type body | None \<Rightarrow> (s, Unknown))"

definition client_heartbeat_ack ::
  "('h, 't) noise_lib \<Rightarrow> nat \<Rightarrow> packet_view \<Rightarrow> ('t, 'b) client_loop \<Rightarrow> ('t, 'b) client_loop" where
  "client_heartbeat_ack N now view st =
     (case decode_heartbeat_ack N view (cl_session st) of
        (s, Inl _) \<Rightarrow> st\<lparr>cl_session := s\<rparr>
      | (s, Inr _) \<Rightarrow>
          st\<lparr>cl_session := s, cl_acked := cl_acked st + 1, cl_last_ack := Some now, cl_probe := None\<rparr>)"

definition client_control ::
  "('h, 't) noise_lib \<Rightarrow> postcard_lib \<Rightarrow> 'b client_config \<Rightarrow> bool \<Rightarrow> packet_view \<Rightarrow> ('t, 'b) client_loop
     \<Rightarrow> ('t, 'b) client_loop \<times> bytes list" where
  "client_control N P c ok view st =
     (case decode_control N P view (cl_session st) of
        (s, Inl _) \<Rightarrow> (st\<lparr>cl_session := s\<rparr>, [])
      | (s, Inr env) \<Rightarrow>
          (case on_inbound env (cl_channel st) of (ch, disp) \<Rightarrow>
           case (case disp of
                   Deliver e \<Rightarrow> dispatch_body (cc_body_handler c) (env_body_type e) (env_body e) (cl_handler st)
                 | Duplicate \<Rightarrow> (cl_handler st, AckOk)) of (h, status) \<Rightarrow>
           case encode_control_ack N P \<lparr>ack_seq = env_seq env, ack_status = status\<rparr> s of
             (s, Inl _) \<Rightarrow> (st\<lparr>cl_session := s, cl_channel := ch, cl_handler := h\<rparr>, [])
           | (s, Inr (_, packet)) \<Rightarrow>
               (st\<lparr>cl_session := s, cl_channel := ch, cl_handler := h\<rparr>, if ok then [packet] else [])))"

definition client_control_ack ::
  "('h, 't) noise_lib \<Rightarrow> postcard_lib \<Rightarrow> packet_view \<Rightarrow> ('t, 'b) client_loop
     \<Rightarrow> ('t, 'b) client_loop \<times> notification list" where
  "client_control_ack N P view st =
     (case decode_control_ack N P view (cl_session st) of
        (s, Inl _) \<Rightarrow> (st\<lparr>cl_session := s\<rparr>, [])
      | (s, Inr ack) \<Rightarrow>
          (case on_ack ack (cl_channel st) of (ch, _, ns) \<Rightarrow> (st\<lparr>cl_session := s, cl_channel := ch\<rparr>, ns)))"

definition client_recv ::
  "('h, 't) noise_lib \<Rightarrow> postcard_lib \<Rightarrow> 'b client_config \<Rightarrow> nat \<Rightarrow> bool \<Rightarrow> bytes \<Rightarrow> ('t, 'b) client_loop
     \<Rightarrow> ('t, 'b) client_loop \<times> bytes list \<times> notification list" where
  "client_recv N P c now ok buf st =
     (case parse (take MAX_PACKET_LEN buf) of
        Inl _ \<Rightarrow> (st, [], [])
      | Inr view \<Rightarrow>
          (case view_type view of
             HeartbeatAck \<Rightarrow> (client_heartbeat_ack N now view st, [], [])
           | Control \<Rightarrow> (case client_control N P c ok view st of (st', out) \<Rightarrow> (st', out, []))
           | ControlAck \<Rightarrow> (case client_control_ack N P view st of (st', ns) \<Rightarrow> (st', [], ns))
           | _ \<Rightarrow> (st, [], [])))"

text \<open>Encode and send one envelope; failures are logged only. \<open>ok\<close> gives the results of the sends.\<close>

definition send_envelope ::
  "('h, 't) noise_lib \<Rightarrow> postcard_lib \<Rightarrow> bool \<Rightarrow> control_envelope \<Rightarrow> ('t, 'b) client_loop
     \<Rightarrow> ('t, 'b) client_loop \<times> bytes list" where
  "send_envelope N P ok env st =
     (case encode_control N P env (cl_session st) of
        (s, Inl _) \<Rightarrow> (st\<lparr>cl_session := s\<rparr>, [])
      | (s, Inr (_, packet)) \<Rightarrow> (st\<lparr>cl_session := s\<rparr>, if ok then [packet] else []))"

fun send_envelopes ::
  "('h, 't) noise_lib \<Rightarrow> postcard_lib \<Rightarrow> (nat \<Rightarrow> bool) \<Rightarrow> control_envelope list \<Rightarrow> ('t, 'b) client_loop
     \<Rightarrow> ('t, 'b) client_loop \<times> bytes list" where
  "send_envelopes N P ok [] st = (st, [])"
| "send_envelopes N P ok (env # envs) st =
     (case send_envelope N P (ok 0) env st of (st1, out1) \<Rightarrow>
      case send_envelopes N P (\<lambda>n. ok (Suc n)) envs st1 of (st2, out2) \<Rightarrow> (st2, out1 @ out2))"

datatype wake =
    WakeCancelled
  | WakeReconnect
  | WakeRecv "bytes option"
  | WakeTick u64
  | WakeControl control_op
  | WakeRetransmit

record turn =
  tn_head :: nat
  tn_probe_took :: nat
  tn_head_ts :: u64
  tn_head_ok :: bool
  tn_now :: nat
  tn_ok :: "nat \<Rightarrow> bool"
  tn_wake :: wake

text \<open>
  The result of a turn: the session goes on, ends, or the task panics (the sequence numbers of
  the control channel are exhausted).
\<close>

datatype ('t, 'b) turn_result =
    Continue "('t, 'b) client_loop"
  | Ended "client_error + session_exit" "('t, 'b) client_loop"
  | Panicked

definition client_wake ::
  "('h, 't) noise_lib \<Rightarrow> postcard_lib \<Rightarrow> 'b client_config \<Rightarrow> turn \<Rightarrow> ('t, 'b) client_loop
     \<Rightarrow> ('t, 'b) turn_result \<times> bytes list \<times> notification list" where
  "client_wake N P c tn st =
     (case tn_wake tn of
        WakeCancelled \<Rightarrow> (Ended (Inr ExitCancelled) st, [], [])
      | WakeReconnect \<Rightarrow> (Ended (Inr ExitReconnectRequested) st, [], [])
      | WakeRecv None \<Rightarrow> (Ended (Inl RecvFailed) st, [], [])
      | WakeRecv (Some buf) \<Rightarrow>
          (case client_recv N P c (tn_now tn) (tn_ok tn 0) buf st of (st', out, ns) \<Rightarrow> (Continue st', out, ns))
      | WakeTick ts \<Rightarrow>
          (case encode_heartbeat N ts 0 (cl_session st) of
             (s, Inl e) \<Rightarrow> (Ended (Inl (EncodeHeartbeat e)) (st\<lparr>cl_session := s\<rparr>), [], [])
           | (s, Inr (_, packet)) \<Rightarrow>
               if \<not> tn_ok tn 0 then (Ended (Inl SendHeartbeat) (st\<lparr>cl_session := s\<rparr>), [], [])
               else (Continue (st\<lparr>cl_session := s, cl_sent := cl_sent st + 1\<rparr>), [packet], []))
      | WakeControl op \<Rightarrow>
          (case enqueue (op_body_type op) (op_body op) (op_completion op) (tn_now tn) (cl_channel st) of
             None \<Rightarrow> (Panicked, [], [])
           | Some (ch, env) \<Rightarrow>
               (case send_envelope N P (tn_ok tn 0) env (st\<lparr>cl_channel := ch\<rparr>) of (st', out) \<Rightarrow> (Continue st', out, [])))
      | WakeRetransmit \<Rightarrow>
          (case next_due (tn_now tn) (cl_channel st) of (ch, due, ns) \<Rightarrow>
             (case send_envelopes N P (tn_ok tn) due (st\<lparr>cl_channel := ch\<rparr>) of (st', out) \<Rightarrow> (Continue st', out, ns))))"

text \<open>When the session ends the channel is dropped: its leftover waiters are notified.\<close>

definition client_turn ::
  "('h, 't) noise_lib \<Rightarrow> postcard_lib \<Rightarrow> 'b client_config \<Rightarrow> turn \<Rightarrow> ('t, 'b) client_loop
     \<Rightarrow> ('t, 'b) turn_result \<times> bytes list \<times> notification list" where
  "client_turn N P c tn st =
     (case loop_head N c (tn_head tn) (tn_probe_took tn) (tn_head_ts tn) (tn_head_ok tn) st of
        (Some r, st1, out1) \<Rightarrow> (Ended r st1, out1, channel_drop (cl_channel st1))
      | (None, st1, out1) \<Rightarrow>
          (case client_wake N P c tn st1 of
             (Ended r st2, out2, ns) \<Rightarrow> (Ended r st2, out1 @ out2, ns @ channel_drop (cl_channel st2))
           | (res, out2, ns) \<Rightarrow> (res, out1 @ out2, ns)))"

fun heartbeat_loop ::
  "('h, 't) noise_lib \<Rightarrow> postcard_lib \<Rightarrow> 'b client_config \<Rightarrow> turn list \<Rightarrow> ('t, 'b) client_loop
     \<Rightarrow> ('t, 'b) turn_result \<times> bytes list \<times> notification list" where
  "heartbeat_loop N P c [] st = (Continue st, [], [])"
| "heartbeat_loop N P c (tn # tns) st =
     (case client_turn N P c tn st of
        (Continue st1, out1, ns1) \<Rightarrow>
          (case heartbeat_loop N P c tns st1 of (r, out2, ns2) \<Rightarrow> (r, out1 @ out2, ns1 @ ns2))
      | (r, out1, ns1) \<Rightarrow> (r, out1, ns1))"

section \<open>Sessions and the reconnect loop\<close>

text \<open>What one attempt meets: address resolution, socket calls, the handshake reply, the loop's turns.\<close>

datatype reply2 = Reply2Elapsed | Reply2Failed | Reply2 bytes

record attempt =
  at_resolved :: "socket_addr list option"
  at_bind_ok :: "socket_addr \<Rightarrow> bool"
  at_connect_ok :: "socket_addr \<Rightarrow> bool"
  at_session_id :: session_id
  at_send_ok :: bool
  at_reply :: reply2
  at_started :: nat
  at_turns :: "turn list"

definition resolve_endpoint :: "socket_addr list option \<Rightarrow> client_error + socket_addr" where
  "resolve_endpoint addrs =
     (case addrs of
        None \<Rightarrow> Inl ResolveFailed
      | Some [] \<Rightarrow> Inl NoAddresses
      | Some (a # _) \<Rightarrow> Inr a)"

definition bind_addr :: "ip_addr option \<Rightarrow> socket_addr \<Rightarrow> socket_addr" where
  "bind_addr local_bind tgt =
     (case (local_bind, tgt) of
        (Some (V4 ip), SockV4 _ _) \<Rightarrow> sa_new (V4 ip) 0
      | (Some (V6 ip), SockV6 _ _ _ _) \<Rightarrow> sa_new (V6 ip) 0
      | (_, SockV4 _ _) \<Rightarrow> SockV4 0 0
      | (_, SockV6 _ _ _ _) \<Rightarrow> SockV6 0 0 0 0)"

definition client_handshake ::
  "('h, 't) noise_lib \<Rightarrow> 'b client_config \<Rightarrow> attempt \<Rightarrow> (client_error + 't session) \<times> bytes list" where
  "client_handshake N c a =
     (case initiator_start N (cc_local_keys c) (cc_upstream_pubkey c) (at_session_id a) of
        Inl e \<Rightarrow> (Inl (BuildHandshake1 e), [])
      | Inr (ini, hs1) \<Rightarrow>
          if \<not> at_send_ok a then (Inl SendHandshake1, [])
          else
            (case at_reply a of
               Reply2Elapsed \<Rightarrow> Inl Handshake2Timeout
             | Reply2Failed \<Rightarrow> Inl RecvHandshake2
             | Reply2 buf \<Rightarrow>
                 rbind (map_err ParseHandshake2 (parse (take MAX_PACKET_LEN buf))) (\<lambda>view.
                   if view_type view \<noteq> Handshake2 then Inl (ExpectedHandshake2 (view_type view))
                   else map_err CompleteHandshake (initiator_complete N view ini)), [hs1]))"

text \<open>The client task: the session epoch it publishes and the state of its body handler.\<close>

record 'b client_task =
  ct_session_epoch :: u64
  ct_handler :: 'b

definition epoch_inc :: "u64 \<Rightarrow> u64" where
  "epoch_inc n = (if n = - 1 then n else n + 1)"

definition run_session_once ::
  "('h, 't) noise_lib \<Rightarrow> postcard_lib \<Rightarrow> 'b client_config \<Rightarrow> attempt \<Rightarrow> 'b client_task
     \<Rightarrow> (client_error + ('t, 'b) turn_result) \<times> 'b client_task \<times> bytes list \<times> notification list" where
  "run_session_once N P c a task =
     (case rbind (resolve_endpoint (at_resolved a)) (\<lambda>tgt.
             if \<not> at_bind_ok a (bind_addr (cc_local_bind c) tgt) then Inl BindFailed
             else if \<not> at_connect_ok a tgt then Inl ConnectFailed else Inr tgt) of
        Inl e \<Rightarrow> (Inl e, task, [], [])
      | Inr _ \<Rightarrow>
          (case client_handshake N c a of
             (Inl e, out) \<Rightarrow> (Inl e, task, out, [])
           | (Inr s, out) \<Rightarrow>
               (case heartbeat_loop N P c (at_turns a) (client_loop_new (at_started a) s (ct_handler task)) of
                  (r, out', ns) \<Rightarrow>
                    (Inr r,
                     task\<lparr>ct_session_epoch := epoch_inc (ct_session_epoch task),
                          ct_handler := (case r of Continue st \<Rightarrow> cl_handler st | Ended _ st \<Rightarrow> cl_handler st
                                         | Panicked \<Rightarrow> ct_handler task)\<rparr>,
                     out @ out', ns))))"

text \<open>
  \<open>run\<close>: the attempts in turn, with the flags whether the cancel token has fired before the attempt
  and whether it fires during the backoff sleep that follows a failure. The result lists the sleeps; it is \<open>None\<close> while the client is still running.
\<close>

fun client_run ::
  "('h, 't) noise_lib \<Rightarrow> postcard_lib \<Rightarrow> 'b client_config \<Rightarrow> (bool \<times> attempt \<times> bool) list \<Rightarrow> nat \<Rightarrow> 'b client_task
     \<Rightarrow> unit option \<times> 'b client_task \<times> nat list" where
  "client_run N P c [] backoff task = (None, task, [])"
| "client_run N P c ((stopped, a, cancelled) # as) backoff task =
     (if stopped then (Some (), task, [])
      else case run_session_once N P c a task of
        (Inr (Ended (Inr ExitRekey) _), task', _) \<Rightarrow> client_run N P c as BACKOFF_MIN task'
      | (Inr (Ended (Inr ExitReconnectRequested) _), task', _) \<Rightarrow> client_run N P c as BACKOFF_MIN task'
      | (Inr (Ended (Inr ExitCancelled) _), task', _) \<Rightarrow> (Some (), task', [])
      | (Inr (Continue _), task', _) \<Rightarrow> (None, task', [])
      | (Inr Panicked, task', _) \<Rightarrow> (None, task', [])
      | (_, task', _) \<Rightarrow>
          if cancelled then (Some (), task', [backoff])
          else (case client_run N P c as (min (backoff * 2) BACKOFF_MAX) task' of
                  (r, task'', sleeps) \<Rightarrow> (r, task'', backoff # sleeps)))"

section \<open>Liveness of the upstream\<close>

text \<open>A turn in which no heartbeat acknowledgement arrives.\<close>

definition no_ack :: "turn \<Rightarrow> bool" where
  "no_ack tn \<longleftrightarrow>
     (case tn_wake tn of
        WakeRecv (Some buf) \<Rightarrow>
          (case parse (take MAX_PACKET_LEN buf) of Inr v \<Rightarrow> view_type v \<noteq> HeartbeatAck | Inl _ \<Rightarrow> True)
      | _ \<Rightarrow> True)"

lemma send_envelopes_frame:
  "cl_last_ack (fst (send_envelopes N P ok envs st)) = cl_last_ack st"
  "cl_probe (fst (send_envelopes N P ok envs st)) = cl_probe st"
  by (induction N P ok envs st rule: send_envelopes.induct)
    (auto simp: send_envelope_def split: prod.splits sum.splits)

lemma client_wake_frame:
  assumes "no_ack tn" "client_wake N P c tn st = (Continue st', out, ns)"
  shows "cl_last_ack st' = cl_last_ack st \<and> cl_probe st' = cl_probe st"
proof (cases "tn_wake tn")
  case (WakeRecv b)
  then show ?thesis
    using assms
    by (auto simp: client_wake_def no_ack_def client_recv_def client_control_def client_control_ack_def
        split: option.splits prod.splits sum.splits packet_type.splits inbound_disposition.splits)
next
  case WakeRetransmit
  then show ?thesis
    using assms(2) by (auto simp: client_wake_def case_prod_beta send_envelopes_frame)
qed (use assms in \<open>auto simp: client_wake_def send_envelope_def split: prod.splits sum.splits if_splits option.splits\<close>)

text \<open>Silence that the head of the next turn at time \<open>h\<close> will not tolerate.\<close>

definition overdue :: "'b client_config \<Rightarrow> nat \<Rightarrow> ('t, 'b) client_loop \<Rightarrow> bool" where
  "overdue c h st \<longleftrightarrow>
     (\<exists>t. cl_last_ack st = Some t \<and> t + ack_deadline c < h) \<or>
     (\<exists>p. cl_probe st = Some p \<and> p + fast_probe_deadline c < h)"

lemma loop_head_overdue:
  assumes "overdue c now st"
  shows "fst (loop_head N c now took ts ok st) \<noteq> None"
  using assms by (auto simp: overdue_def loop_head_def Let_def case_prod_beta split: option.splits)

lemma loop_head_keeps_overdue:
  assumes "overdue c h st" "loop_head N c now took ts ok st = (None, st', out)"
  shows "overdue c h st'"
proof -
  have "cl_last_ack st' = cl_last_ack st \<and> (cl_probe st \<noteq> None \<longrightarrow> cl_probe st' = cl_probe st)"
    using assms(2)
    by (auto simp: loop_head_def Let_def send_probe_def split: option.splits if_splits prod.splits sum.splits)
  with assms(1) show ?thesis by (auto simp: overdue_def)
qed

lemma overdue_ends:
  assumes "list_all no_ack tns" "tn \<in> set tns" "overdue c (tn_head tn) st"
  shows "fst (heartbeat_loop N P c tns st) \<noteq> Continue st'"
  using assms
proof (induction tns arbitrary: st)
  case (Cons x tns)
  obtain r st1 out1 where h: "loop_head N c (tn_head x) (tn_probe_took x) (tn_head_ts x) (tn_head_ok x) st = (r, st1, out1)"
    by (metis prod_cases3)
  show ?case
  proof (cases r)
    case (Some e)
    then show ?thesis by (simp add: client_turn_def h)
  next
    case None
    then have "tn \<noteq> x" using loop_head_overdue [OF Cons.prems(3), of N "tn_probe_took x" "tn_head_ts x" "tn_head_ok x"] h by auto
    with Cons.prems(2) have tn: "tn \<in> set tns" by simp
    obtain res out2 ns where w: "client_wake N P c x st1 = (res, out2, ns)" by (metis prod_cases3)
    show ?thesis
    proof (cases res)
      case (Continue st2)
      have "overdue c (tn_head tn) st2"
        using loop_head_keeps_overdue [OF Cons.prems(3) h [unfolded None]] client_wake_frame [of x N P c st1 st2] w
          Cons.prems(1) Continue
        by (simp add: overdue_def)
      with Cons.IH tn Cons.prems(1) show ?thesis
        by (simp add: client_turn_def h None w Continue case_prod_beta)
    qed (simp_all add: client_turn_def h None w)
  qed
qed simp

text \<open>A concrete client, and a turn that only sends a heartbeat.\<close>

definition plain_client :: "unit client_config" where
  "plain_client = \<lparr>cc_endpoint = ''up:1'', cc_upstream_pubkey = X25519 (replicate 32 2), cc_local_keys = plain_key 1,
     cc_heartbeat_interval = 5, cc_rekey_interval = 1000, cc_body_handler = None, cc_local_bind = None\<rparr>"

definition plain_session :: "plain_tr session" where
  "plain_session = \<lparr>transport = (0, 0), session_id = SessionId 1 2 3 4, last_seen_counter = None\<rparr>"

definition tick_at :: "nat \<Rightarrow> turn" where
  "tick_at t = \<lparr>tn_head = t, tn_probe_took = 0, tn_head_ts = 0, tn_head_ok = True, tn_now = t, tn_ok = (\<lambda>_. True), tn_wake = WakeTick 0\<rparr>"

definition no_address :: attempt where
  "no_address = \<lparr>at_resolved = None, at_bind_ok = (\<lambda>_. True), at_connect_ok = (\<lambda>_. True), at_session_id = SessionId 1 2 3 4,
     at_send_ok = True, at_reply = Reply2Elapsed, at_started = 0, at_turns = []\<rparr>"

definition plain_task :: "unit client_task" where
  "plain_task = \<lparr>ct_session_epoch = 0, ct_handler = ()\<rparr>"

text \<open>
  C17: A dead upstream is noticed. While no heartbeat acknowledgement comes in, a session whose last
  acknowledgement is more than six heartbeat intervals old, or whose liveness probe has been out for
  more than one interval, does not survive the next turn of the loop, whatever else happens on it.
\<close>

theorem dead_upstream_detected:
  assumes "list_all no_ack tns" "tn \<in> set tns"
    "(\<exists>t. cl_last_ack st = Some t \<and> t + 6 * cc_heartbeat_interval c < tn_head tn) \<or>
     (\<exists>p. cl_probe st = Some p \<and> p + cc_heartbeat_interval c < tn_head tn)"
  shows "\<nexists>st'. fst (heartbeat_loop N P c tns st) = Continue st'"
  using overdue_ends [of tns tn c st N P] assms
  by (simp add: overdue_def ack_deadline_def fast_probe_deadline_def ACK_DEADLINE_MULTIPLIER_def
      FAST_PROBE_DEADLINE_MULTIPLIER_def mult.commute)

theorem dead_upstream_detected_witness:
  "\<nexists>st'. fst (heartbeat_loop plain_noise plain_postcard plain_client [tick_at 5, tick_at 31, tick_at 60]
     ((client_loop_new 0 plain_session ())\<lparr>cl_last_ack := Some 0\<rparr>)) = Continue st'"
  by (rule dead_upstream_detected [where tn = "tick_at 31"])
    (simp_all add: no_ack_def tick_at_def plain_client_def)

text \<open>A probe is only out while the last acknowledgement was already two intervals old when it was sent.\<close>

definition probe_wf :: "'b client_config \<Rightarrow> ('t, 'b) client_loop \<Rightarrow> bool" where
  "probe_wf c st \<longleftrightarrow>
     (\<forall>p. cl_probe st = Some p \<longrightarrow> (\<exists>t. cl_last_ack st = Some t \<and> t + fast_probe_after c < p))"

lemma probe_wf_new [simp]: "probe_wf c (client_loop_new now s h)"
  by (simp add: probe_wf_def client_loop_new_def)

lemma loop_head_probe_wf:
  "probe_wf c st \<Longrightarrow> probe_wf c (fst (snd (loop_head N c now took ts ok st)))"
  by (auto simp: probe_wf_def loop_head_def send_probe_def Let_def split: option.splits prod.splits sum.splits)

definition silent_too_long :: "'b client_config \<Rightarrow> nat \<Rightarrow> ('t, 'b) client_loop \<Rightarrow> bool" where
  "silent_too_long c h st \<longleftrightarrow>
     (case cl_last_ack st of
        Some t \<Rightarrow> t + 3 * cc_heartbeat_interval c < h
      | None \<Rightarrow> cl_sent st \<noteq> 0 \<and> cl_started st + 6 * cc_heartbeat_interval c < h)"

lemma loop_head_verdict:
  assumes "probe_wf c st" "loop_head N c now took ts ok st = (Some (Inl e), st', out)"
  shows "silent_too_long c now st'"
proof -
  note defs = fast_probe_after_def fast_probe_deadline_def ack_deadline_def FAST_PROBE_AFTER_MULTIPLIER_def
    FAST_PROBE_DEADLINE_MULTIPLIER_def ACK_DEADLINE_MULTIPLIER_def
  have "cl_last_ack st' = cl_last_ack st" "cl_last_ack st = None \<Longrightarrow> st' = st"
    using assms(2)
    by (auto simp: loop_head_def Let_def send_probe_def split: option.splits if_splits prod.splits sum.splits)
  with assms show ?thesis
    by (auto simp: loop_head_def silent_too_long_def probe_wf_def defs Let_def word_gt_0
        split: option.splits if_splits prod.splits)
qed

lemma client_recv_probe_wf:
  "probe_wf c st \<Longrightarrow> probe_wf c (fst (client_recv N P c now ok buf st))"
  by (auto simp: probe_wf_def client_recv_def client_heartbeat_ack_def client_control_def client_control_ack_def
      split: prod.splits sum.splits packet_type.splits)

lemma client_wake_probe_wf:
  assumes "probe_wf c st" "client_wake N P c tn st = (Continue st', out, ns)"
  shows "probe_wf c st'"
proof (cases "tn_wake tn")
  case (WakeRecv b)
  then show ?thesis
    using assms client_recv_probe_wf [OF assms(1)]
    by (auto simp: client_wake_def case_prod_beta split: option.splits)
next
  case WakeRetransmit
  then show ?thesis
    using assms by (auto simp: client_wake_def case_prod_beta probe_wf_def send_envelopes_frame)
qed (use assms in \<open>auto simp: client_wake_def send_envelope_def probe_wf_def
       split: prod.splits sum.splits if_splits option.splits\<close>)

lemma wake_verdict:
  "client_wake N P c tn st = (Ended (Inl e) st', out, ns) \<Longrightarrow>
     e \<notin> {ProbeUnanswered, NoAckSince, NoAckEver}"
  by (auto simp: client_wake_def split: wake.splits option.splits prod.splits sum.splits if_splits)

lemma loop_verdict:
  assumes "probe_wf c st" "fst (heartbeat_loop N P c tns st) = Ended (Inl e) st'"
    "e \<in> {ProbeUnanswered, NoAckSince, NoAckEver}"
  shows "\<exists>tn \<in> set tns. silent_too_long c (tn_head tn) st'"
  using assms(1,2)
proof (induction tns arbitrary: st)
  case (Cons x tns)
  obtain r st1 out1 where h: "loop_head N c (tn_head x) (tn_probe_took x) (tn_head_ts x) (tn_head_ok x) st = (r, st1, out1)"
    by (metis prod_cases3)
  show ?case
  proof (cases r)
    case (Some e')
    with Cons.prems(2) h have "e' = Inl e" "st1 = st'" by (simp_all add: client_turn_def)
    with loop_head_verdict [OF Cons.prems(1), of N "tn_head x"] h Some show ?thesis by auto
  next
    case None
    have wf: "probe_wf c st1"
      using loop_head_probe_wf [OF Cons.prems(1), of N "tn_head x" "tn_probe_took x" "tn_head_ts x" "tn_head_ok x"] h by simp
    obtain res out2 ns where w: "client_wake N P c x st1 = (res, out2, ns)" by (metis prod_cases3)
    show ?thesis
    proof (cases res)
      case (Continue st2)
      with Cons.IH [OF client_wake_probe_wf [OF wf w [unfolded Continue]]] Cons.prems(2) show ?thesis
        by (simp add: client_turn_def h None w case_prod_beta)
    next
      case (Ended r' st2)
      with Cons.prems(2) w have "client_wake N P c x st1 = (Ended (Inl e) st', out2, ns)"
        by (simp add: client_turn_def h None)
      from wake_verdict [OF this] assms(3) show ?thesis by blast
    next
      case Panicked
      with Cons.prems(2) show ?thesis by (simp add: client_turn_def h None w)
    qed
  qed
qed simp

text \<open>
  C18: A responsive upstream is not dropped. A session is given up as dead only at a turn that starts
  more than three heartbeat intervals after the last acknowledgement it received or, when it never
  received one, more than six intervals after it began and with a heartbeat sent.
\<close>

theorem live_upstream_kept:
  assumes "fst (heartbeat_loop N P c tns (client_loop_new now s h)) = Ended (Inl e) st'"
    "e \<in> {ProbeUnanswered, NoAckSince, NoAckEver}"
  shows "\<exists>tn \<in> set tns.
    (case cl_last_ack st' of
       Some t \<Rightarrow> t + 3 * cc_heartbeat_interval c < tn_head tn
     | None \<Rightarrow> cl_sent st' \<noteq> 0 \<and> cl_started st' + 6 * cc_heartbeat_interval c < tn_head tn)"
  using loop_verdict [OF _ assms] by (simp add: silent_too_long_def)

theorem live_upstream_kept_witness:
  "\<exists>tn st'. tn \<in> {tick_at 0, tick_at 31} \<and>
    fst (heartbeat_loop plain_noise plain_postcard plain_client [tick_at 0, tick_at 31]
      (client_loop_new 0 plain_session ())) = Ended (Inl NoAckEver) st' \<and>
    (case cl_last_ack st' of Some t \<Rightarrow> t + 3 * 5 < tn_head tn
     | None \<Rightarrow> cl_sent st' \<noteq> 0 \<and> cl_started st' + 6 * 5 < tn_head tn)"
proof -
  have "case fst (heartbeat_loop plain_noise plain_postcard plain_client [tick_at 0, tick_at 31]
      (client_loop_new 0 plain_session ())) of Ended (Inl NoAckEver) _ \<Rightarrow> True | _ \<Rightarrow> False"
    by (simp add: client_turn_def tick_at_def client_loop_new_def loop_head_def plain_client_def client_wake_def
        encode_heartbeat_def encode_packet_def plain_noise_def plain_session_def encode_heartbeat_plaintext_def
        ack_deadline_def ACK_DEADLINE_MULTIPLIER_def wire_len_defs)
  then obtain st' where r: "fst (heartbeat_loop plain_noise plain_postcard plain_client [tick_at 0, tick_at 31]
      (client_loop_new 0 plain_session ())) = Ended (Inl NoAckEver) st'"
    by (auto split: turn_result.splits sum.splits client_error.splits)
  have hb: "cc_heartbeat_interval plain_client = 5" by (simp add: plain_client_def)
  from live_upstream_kept [OF r, unfolded hb] obtain tn where "tn \<in> {tick_at 0, tick_at 31}"
    "case cl_last_ack st' of Some t \<Rightarrow> t + 3 * 5 < tn_head tn
     | None \<Rightarrow> cl_sent st' \<noteq> 0 \<and> cl_started st' + 6 * 5 < tn_head tn"
    by auto
  with r show ?thesis by blast
qed

section \<open>Callers of a session\<close>

text \<open>The completion handed over with a control operation the turn takes from the queue.\<close>

definition turn_waiter :: "turn \<Rightarrow> nat list" where
  "turn_waiter tn = (case tn_wake tn of WakeControl op \<Rightarrow> [op_completion op] | _ \<Rightarrow> [])"

definition channel_evolves :: "control_channel \<Rightarrow> nat list \<Rightarrow> control_channel \<Rightarrow> notification list \<Rightarrow> bool" where
  "channel_evolves ch ws ch' ns \<longleftrightarrow>
     channel_wf ch' \<and> waiters ch + mset ws = waiters ch' + mset (map fst ns)"

lemma channel_evolves_refl: "channel_wf ch \<Longrightarrow> channel_evolves ch [] ch []"
  by (simp add: channel_evolves_def)

lemma channel_evolves_step:
  assumes "channel_wf ch" "chan_step ch x = (ch', es, ns)"
  shows "channel_evolves ch (op_waiter ch x) ch' ns"
  using waiters_step [OF assms] channel_wf_step [OF assms(1), of x] assms(2)
  by (simp add: channel_evolves_def)

lemma channel_evolves_trans:
  assumes "channel_evolves ch ws ch' ns" "channel_evolves ch' ws' ch'' ns'"
  shows "channel_evolves ch (ws @ ws') ch'' (ns @ ns')"
proof -
  have "waiters ch + mset ws + mset ws' = waiters ch'' + mset (map fst ns) + mset (map fst ns')"
    using assms unfolding channel_evolves_def by (metis add.assoc add.commute)
  with assms(2) show ?thesis by (simp add: channel_evolves_def add.assoc)
qed

lemma channel_evolves_drop:
  assumes "channel_evolves ch ws ch' ns" "channel_wf ch"
  shows "waiters ch + mset ws = mset (map fst (ns @ channel_drop ch'))"
proof -
  have "channel_wf ch'" using assms(1) by (simp add: channel_evolves_def)
  then have "waiters ch' = mset (map fst (channel_drop ch'))"
    using waiters_step [of ch' AbortAll] by (simp add: channel_drop_def abort_all_def waiters_def bt_empty_def)
  with assms(1) show ?thesis by (simp add: channel_evolves_def ac_simps)
qed

lemma send_envelopes_channel [simp]: "cl_channel (fst (send_envelopes N P ok envs st)) = cl_channel st"
  by (induction N P ok envs st rule: send_envelopes.induct)
    (auto simp: send_envelope_def split: prod.splits sum.splits)

lemma send_envelope_channel [simp]: "cl_channel (fst (send_envelope N P ok env st)) = cl_channel st"
  by (auto simp: send_envelope_def split: prod.splits sum.splits)

lemma loop_head_channel: "cl_channel (fst (snd (loop_head N c now took ts ok st))) = cl_channel st"
  by (auto simp: loop_head_def send_probe_def Let_def split: option.splits prod.splits sum.splits)

lemma client_control_channel:
  assumes "channel_wf (cl_channel st)"
  shows "channel_evolves (cl_channel st) [] (cl_channel (fst (client_control N P c ok view st))) []"
proof -
  have "channel_evolves (cl_channel st) [] ch []" if "on_inbound e (cl_channel st) = (ch, d)" for e ch d
    using channel_evolves_step [OF assms, of "OnInbound e"] that by simp
  with channel_evolves_refl [OF assms] show ?thesis
    by (auto simp: client_control_def split: prod.splits sum.splits)
qed

lemma client_control_ack_channel:
  assumes "channel_wf (cl_channel st)" "client_control_ack N P view st = (st', ns)"
  shows "channel_evolves (cl_channel st) [] (cl_channel st') ns"
proof -
  have "channel_evolves (cl_channel st) [] ch ns" if "on_ack a (cl_channel st) = (ch, b, ns)" for a ch b ns
    using channel_evolves_step [OF assms(1), of "OnAck a"] that by simp
  with channel_evolves_refl [OF assms(1)] assms(2) show ?thesis
    by (auto simp: client_control_ack_def split: prod.splits sum.splits)
qed

lemma client_recv_channel:
  assumes "channel_wf (cl_channel st)" "client_recv N P c now ok buf st = (st', out, ns)"
  shows "channel_evolves (cl_channel st) [] (cl_channel st') ns"
proof (cases "parse (take MAX_PACKET_LEN buf)")
  case (Inr view)
  have "channel_evolves (cl_channel st) [] (cl_channel st1) []" if "client_control N P c ok view st = (st1, o1)" for st1 o1
    using client_control_channel [OF assms(1), of N P c ok view] that by simp
  with client_control_ack_channel [OF assms(1), of N P view] channel_evolves_refl [OF assms(1)] assms(2) Inr show ?thesis
    by (auto simp: client_recv_def client_heartbeat_ack_def split: prod.splits sum.splits packet_type.splits)
qed (use assms channel_evolves_refl in \<open>auto simp: client_recv_def\<close>)

lemma client_wake_channel:
  assumes "channel_wf (cl_channel st)" "client_wake N P c tn st = (Continue st', out, ns)"
  shows "channel_evolves (cl_channel st) (turn_waiter tn) (cl_channel st') ns"
proof (cases "tn_wake tn")
  case (WakeRecv b)
  then show ?thesis
    using assms client_recv_channel [OF assms(1)]
    by (auto simp: client_wake_def turn_waiter_def split: option.splits prod.splits)
next
  case WakeRetransmit
  obtain ch due ns1 where d: "next_due (tn_now tn) (cl_channel st) = (ch, due, ns1)" by (metis prod_cases3)
  with WakeRetransmit assms(2) have "cl_channel st' = ch" "ns = ns1"
    by (auto simp: client_wake_def case_prod_beta)
  with channel_evolves_step [OF assms(1), of "NextDue (tn_now tn)"] d WakeRetransmit show ?thesis
    by (simp add: turn_waiter_def)
next
  case (WakeControl op)
  obtain ch env where e: "enqueue (op_body_type op) (op_body op) (op_completion op) (tn_now tn) (cl_channel st)
      = Some (ch, env)"
    using WakeControl assms(2)
    by (cases "enqueue (op_body_type op) (op_body op) (op_completion op) (tn_now tn) (cl_channel st)")
       (auto simp: client_wake_def)
  with WakeControl assms(2) have "cl_channel st' = ch" "ns = []"
    by (auto simp: client_wake_def case_prod_beta)
  moreover have "next_seq (cl_channel st) \<noteq> - 1" using e by (auto simp: enqueue_def Let_def split: if_splits)
  ultimately show ?thesis
    using channel_evolves_step [OF assms(1), of "Enqueue (op_body_type op) (op_body op) (op_completion op) (tn_now tn)"]
      e WakeControl
    by (simp add: turn_waiter_def)
qed (use assms channel_evolves_refl [OF assms(1)] in \<open>auto simp: client_wake_def turn_waiter_def
       split: prod.splits sum.splits if_splits option.splits\<close>)

lemma client_turn_continue:
  assumes "channel_wf (cl_channel st)" "client_turn N P c tn st = (Continue st', out, ns)"
  shows "channel_evolves (cl_channel st) (turn_waiter tn) (cl_channel st') ns"
proof -
  obtain r st1 out1 where h: "loop_head N c (tn_head tn) (tn_probe_took tn) (tn_head_ts tn) (tn_head_ok tn) st = (r, st1, out1)"
    by (metis prod_cases3)
  have ch: "cl_channel st1 = cl_channel st"
    using loop_head_channel [of N c "tn_head tn" "tn_probe_took tn" "tn_head_ts tn" "tn_head_ok tn" st] h by simp
  obtain res out2 ns2 where w: "client_wake N P c tn st1 = (res, out2, ns2)" by (metis prod_cases3)
  from assms(2) h w have "r = None" "res = Continue st'" "ns = ns2"
    by (auto simp: client_turn_def split: option.splits turn_result.splits)
  with client_wake_channel [of st1 N P c tn st' out2 ns2] w ch assms(1) show ?thesis by simp
qed

lemma client_turn_ended:
  assumes "client_turn N P c tn st = (Ended r st', out, ns)"
  shows "ns = channel_drop (cl_channel st)"
proof -
  obtain x st1 out1 where h: "loop_head N c (tn_head tn) (tn_probe_took tn) (tn_head_ts tn) (tn_head_ok tn) st = (x, st1, out1)"
    by (metis prod_cases3)
  have ch: "cl_channel st1 = cl_channel st"
    using loop_head_channel [of N c "tn_head tn" "tn_probe_took tn" "tn_head_ts tn" "tn_head_ok tn" st] h by simp
  have "client_wake N P c tn st1 = (Ended r st', out2, ns2) \<Longrightarrow> ns2 = [] \<and> cl_channel st' = cl_channel st1" for out2 ns2
    by (auto simp: client_wake_def split: wake.splits option.splits prod.splits sum.splits if_splits)
  with assms h ch show ?thesis
    by (cases "client_wake N P c tn st1") (auto simp: client_turn_def split: option.splits turn_result.splits)
qed

lemma heartbeat_loop_channel:
  assumes "channel_wf (cl_channel st)" "heartbeat_loop N P c tns st = (Continue st', out, ns)"
  shows "channel_evolves (cl_channel st) (concat (map turn_waiter tns)) (cl_channel st') ns"
  using assms
proof (induction tns arbitrary: st out ns)
  case (Cons x tns)
  obtain r out1 ns1 where t: "client_turn N P c x st = (r, out1, ns1)" by (metis prod_cases3)
  obtain st1 where r: "r = Continue st1"
    using Cons.prems(2) t by (cases r) auto
  obtain r2 out2 ns2 where l: "heartbeat_loop N P c tns st1 = (r2, out2, ns2)" by (metis prod_cases3)
  note e = client_turn_continue [OF Cons.prems(1) t [unfolded r]]
  then have "channel_wf (cl_channel st1)" by (simp add: channel_evolves_def)
  from Cons.IH [OF this] l Cons.prems(2) t r
  have "channel_evolves (cl_channel st1) (concat (map turn_waiter tns)) (cl_channel st') ns2" "ns = ns1 @ ns2"
    by auto
  with channel_evolves_trans [OF e] show ?case by simp
qed (simp add: channel_evolves_refl)

text \<open>
  C19: Every caller of a session gets exactly one answer. Whatever happens in the turns of a session, once
  it ends the completions notified over its lifetime are exactly those of the control operations
  it took from the queue, each once.
\<close>

theorem session_answers_every_caller:
  assumes "heartbeat_loop N P c tns (client_loop_new now s h) = (Continue st, out, ns)"
    and "client_turn N P c tn st = (Ended r st', out', ns')"
  shows "mset (map fst (ns @ ns')) = mset (concat (map turn_waiter tns))"
proof -
  let ?st0 = "client_loop_new now s h"
  have wf: "channel_wf (cl_channel ?st0)" by (simp add: client_loop_new_def channel_wf_new)
  have "waiters (cl_channel ?st0) = {#}"
    by (simp add: client_loop_new_def waiters_def channel_new_def bt_empty_def)
  with channel_evolves_drop [OF heartbeat_loop_channel [OF wf assms(1)] wf] client_turn_ended [OF assms(2)]
  show ?thesis by simp
qed

definition control_at :: "nat \<Rightarrow> nat \<Rightarrow> turn" where
  "control_at t tx = (tick_at t)\<lparr>tn_wake := WakeControl \<lparr>op_body_type = 1, op_body = [], op_completion = tx\<rparr>\<rparr>"

theorem session_answers_every_caller_witness:
  "\<exists>st out ns r st' out' ns'.
     heartbeat_loop plain_noise plain_postcard plain_client [control_at 0 7, tick_at 1, control_at 2 8]
       (client_loop_new 0 plain_session ()) = (Continue st, out, ns) \<and>
     client_turn plain_noise plain_postcard plain_client ((tick_at 3)\<lparr>tn_wake := WakeReconnect\<rparr>) st =
       (Ended r st', out', ns') \<and>
     mset (map fst (ns @ ns')) = {#7, 8#}"
proof -
  let ?l = "heartbeat_loop plain_noise plain_postcard plain_client [control_at 0 7, tick_at 1, control_at 2 8]
       (client_loop_new 0 plain_session ())"
  have "case fst ?l of Continue st \<Rightarrow> cl_started st = 0 \<and> cl_last_ack st = None \<and> cl_probe st = None | _ \<Rightarrow> False"
    by (simp add: client_turn_def control_at_def tick_at_def client_loop_new_def loop_head_def plain_client_def
        client_wake_def encode_heartbeat_def encode_packet_def plain_noise_def plain_session_def
        encode_heartbeat_plaintext_def ack_deadline_def ACK_DEADLINE_MULTIPLIER_def wire_len_defs
        enqueue_def channel_new_def Let_def send_envelope_def encode_control_def plain_postcard_def)
  then obtain st out ns where l: "?l = (Continue st, out, ns)" and
    st: "cl_started st = 0" "cl_last_ack st = None" "cl_probe st = None"
    by (cases ?l) (auto simp del: heartbeat_loop.simps split: turn_result.splits)
  have "client_turn plain_noise plain_postcard plain_client ((tick_at 3)\<lparr>tn_wake := WakeReconnect\<rparr>) st =
      (Ended (Inr ExitReconnectRequested) st, [], channel_drop (cl_channel st))"
    by (simp add: client_turn_def loop_head_def st tick_at_def client_wake_def plain_client_def ack_deadline_def
        ACK_DEADLINE_MULTIPLIER_def)
  from l this session_answers_every_caller [OF l this] show ?thesis
    by (auto simp: turn_waiter_def control_at_def tick_at_def simp del: heartbeat_loop.simps)
qed

section \<open>Reconnecting\<close>

definition attempt_fails ::
  "('h, 't) noise_lib \<Rightarrow> postcard_lib \<Rightarrow> 'b client_config \<Rightarrow> attempt \<Rightarrow> 'b client_task \<Rightarrow> bool" where
  "attempt_fails N P c a task \<longleftrightarrow>
     (case fst (run_session_once N P c a task) of Inl _ \<Rightarrow> True | Inr (Ended (Inl _) _) \<Rightarrow> True | _ \<Rightarrow> False)"

fun all_fail ::
  "('h, 't) noise_lib \<Rightarrow> postcard_lib \<Rightarrow> 'b client_config \<Rightarrow> (bool \<times> attempt \<times> bool) list \<Rightarrow> 'b client_task \<Rightarrow> bool" where
  "all_fail N P c [] task \<longleftrightarrow> True"
| "all_fail N P c ((stopped, a, cancelled) # as) task \<longleftrightarrow>
     \<not> stopped \<and> attempt_fails N P c a task \<and> \<not> cancelled \<and> all_fail N P c as (fst (snd (run_session_once N P c a task)))"

lemma client_run_fail:
  assumes "attempt_fails N P c a task"
  shows "client_run N P c ((False, a, False) # as) backoff task =
    (case client_run N P c as (min (backoff * 2) BACKOFF_MAX) (fst (snd (run_session_once N P c a task))) of
       (r, task'', sleeps) \<Rightarrow> (r, task'', backoff # sleeps))"
  using assms
  by (auto simp: attempt_fails_def split: prod.splits sum.splits turn_result.splits session_exit.splits)

lemma sleeps_in_range:
  assumes "BACKOFF_MIN \<le> b" "b \<le> BACKOFF_MAX"
  shows "list_all (\<lambda>s. BACKOFF_MIN \<le> s \<and> s \<le> BACKOFF_MAX) (snd (snd (client_run N P c as b task)))"
  using assms
proof (induction as arbitrary: b task)
  case (Cons x as)
  obtain stopped a cancelled where x: "x = (stopped, a, cancelled)" by (metis prod_cases3)
  have dbl: "BACKOFF_MIN \<le> min (b * 2) BACKOFF_MAX" "min (b * 2) BACKOFF_MAX \<le> BACKOFF_MAX"
    using Cons.prems by (simp_all add: BACKOFF_MIN_def BACKOFF_MAX_def)
  have low: "BACKOFF_MIN \<le> BACKOFF_MIN" "BACKOFF_MIN \<le> BACKOFF_MAX" by (simp_all add: BACKOFF_MIN_def BACKOFF_MAX_def)
  show ?case
    using Cons.IH [OF dbl] Cons.IH [OF low] Cons.prems
    by (auto simp: x split: prod.splits sum.splits turn_result.splits session_exit.splits) (metis snd_conv)+
qed simp

lemma sleeps_all_fail:
  assumes "all_fail N P c as task"
  shows "snd (snd (client_run N P c as (min (b * 2 ^ j) BACKOFF_MAX) task)) =
    map (\<lambda>k. min (b * 2 ^ (j + k)) BACKOFF_MAX) [0..<length as]"
  using assms
proof (induction as arbitrary: task j)
  case (Cons x as)
  obtain a where x: "x = (False, a, False)" "attempt_fails N P c a task"
    "all_fail N P c as (fst (snd (run_session_once N P c a task)))"
    using Cons.prems by (cases x) auto
  have dbl: "min (min (b * 2 ^ j) BACKOFF_MAX * 2) BACKOFF_MAX = min (b * 2 ^ Suc j) BACKOFF_MAX"
    by (simp add: min_def)
  show ?case
    using Cons.IH [OF x(3), of "Suc j"]
    by (simp add: x(1) client_run_fail [OF x(2)] dbl case_prod_beta upt_conv_Cons map_Suc_upt [symmetric]
        del: client_run.simps upt_Suc) 
qed simp

text \<open>
  The reconnect loop backs off. Every sleep between two attempts lasts from half a second to
  thirty seconds, and while attempts keep failing the sleeps double: the sleep after the failure
  numbered \<open>k\<close> (from zero) lasts \<open>500 * 2 ^ k\<close> milliseconds, at most thirty seconds.
\<close>

theorem reconnect_backs_off:
  "list_all (\<lambda>s. 500 \<le> s \<and> s \<le> 30000) (snd (snd (client_run N P c as BACKOFF_MIN task))) \<and>
   (all_fail N P c as task \<longrightarrow>
     snd (snd (client_run N P c as BACKOFF_MIN task)) = map (\<lambda>k. min (500 * 2 ^ k) 30000) [0..<length as])"
  using sleeps_in_range [of BACKOFF_MIN N P c as task] sleeps_all_fail [of N P c as task 500 0]
  by (simp add: BACKOFF_MIN_def BACKOFF_MAX_def)

theorem reconnect_backs_off_witness:
  "snd (snd (client_run plain_noise plain_postcard plain_client
      (replicate 8 (False, no_address, False)) BACKOFF_MIN plain_task)) =
   [500, 1000, 2000, 4000, 8000, 16000, 30000, 30000]"
proof -
  have r: "run_session_once plain_noise plain_postcard plain_client no_address plain_task =
      (Inl ResolveFailed, plain_task, [], [])"
    by (simp add: run_session_once_def no_address_def resolve_endpoint_def)
  have "all_fail plain_noise plain_postcard plain_client (replicate n (False, no_address, False)) plain_task" for n
    by (induction n) (simp_all add: attempt_fails_def r)
  with reconnect_backs_off [of plain_noise plain_postcard plain_client "replicate 8 (False, no_address, False)" plain_task]
  show ?thesis by (simp add: upt_rec)
qed

end
