(* ===== verification/Chain_Link.thy ===== *)
theory Chain_Link
  imports Chain_Client
begin

text \<open>
  A client and a relay joined by a network: \<open>Chain_Client\<close> on one side, \<open>Heartbeat_Server\<close> on the other,
  after the handshake of \<open>handshake.rs\<close> and \<open>handle_handshake1\<close>. The network may lose, duplicate, delay
  and reorder packets and may add packets of its own: any packet that does not authenticate, and
  any handshake message, recorded or made up, which may replace the relay's session. The library's
  AEAD is a named hypothesis (\<open>aead_contract\<close>).
\<close>

section \<open>The AEAD behind the transport\<close>

text \<open>
  The keys of a transport and the sealing function. A ciphertext opens at a nonce only to
  the plaintext it seals at that nonce under the receiving key, and under no other key; neither
  writing nor reading changes the keys.
\<close>

record ('t, 'k) aead =
  send_key :: "'t \<Rightarrow> 'k"
  recv_key :: "'t \<Rightarrow> 'k"
  seal :: "'k \<Rightarrow> u64 \<Rightarrow> bytes \<Rightarrow> bytes"

definition aead_contract :: "('h, 't) noise_lib \<Rightarrow> ('t, 'k) aead \<Rightarrow> bool" where
  "aead_contract N A \<longleftrightarrow>
     (\<forall>t pt t' r. tr_write N t pt MAX_PACKET_LEN = (t', r) \<longrightarrow>
        send_key A t' = send_key A t \<and> recv_key A t' = recv_key A t \<and>
        (\<forall>ct. r = Inr ct \<longrightarrow> ct = seal A (send_key A t) (sending_nonce N t) pt)) \<and>
     (\<forall>t n ct t' r. tr_read N (set_receiving_nonce N t n) ct MAX_PACKET_LEN = (t', r) \<longrightarrow>
        send_key A t' = send_key A t \<and> recv_key A t' = recv_key A t \<and>
        (\<forall>pt. r = Inr pt \<longrightarrow> ct = seal A (recv_key A t) n pt)) \<and>
     (\<forall>k n p k' q. seal A k n p = seal A k' n q \<longrightarrow> k = k' \<and> p = q)"

text \<open>A session under the keys \<open>k\<close> (sending) and \<open>k'\<close> (receiving).\<close>

definition keyed :: "('t, 'k) aead \<Rightarrow> 'k \<Rightarrow> 'k \<Rightarrow> 't session \<Rightarrow> bool" where
  "keyed A k k' s \<longleftrightarrow> send_key A (transport s) = k \<and> recv_key A (transport s) = k'"

text \<open>A packet of type \<open>t\<close> that seals \<open>p\<close> under \<open>k\<close>.\<close>

definition sealed :: "('t, 'k) aead \<Rightarrow> 'k \<Rightarrow> packet_type \<Rightarrow> bytes \<Rightarrow> bytes \<Rightarrow> bool" where
  "sealed A k t p b \<longleftrightarrow>
     (\<exists>sid n. parse b = Inr \<lparr>view_type = t, view_session_id = sid, view_counter = Some n, view_body = seal A k n p\<rparr>)"

text \<open>
  A packet that does not authenticate under \<open>k\<close>: it does not parse, it carries no counter, as every
  handshake message, or it opens to nothing.
\<close>

definition forged :: "('t, 'k) aead \<Rightarrow> 'k \<Rightarrow> bytes \<Rightarrow> bool" where
  "forged A k b \<longleftrightarrow>
     (case parse b of
        Inl _ \<Rightarrow> True
      | Inr v \<Rightarrow> \<forall>n p. view_counter v = Some n \<longrightarrow> view_body v \<noteq> seal A k n p)"

lemma encode_packet_keyed:
  assumes "aead_contract N A" "keyed A k k' s" "has_counter t"
    and "encode_packet N t (sending_nonce N (transport s)) p s = (s', r)"
  shows "keyed A k k' s' \<and> (\<forall>b. r = Inr b \<longrightarrow> sealed A k t p b)"
proof -
  obtain tr w where w: "tr_write N (transport s) p MAX_PACKET_LEN = (tr, w)" by fastforce
  with assms(1) have "send_key A tr = send_key A (transport s)" "recv_key A tr = recv_key A (transport s)"
    "\<And>ct. w = Inr ct \<Longrightarrow> ct = seal A (send_key A (transport s)) (sending_nonce N (transport s)) p"
    unfolding aead_contract_def by blast+
  with assms(2-) w show ?thesis
    by (cases w) (auto simp: encode_packet_def keyed_def sealed_def parse_post_handshake)
qed

lemma send_msg_keyed:
  assumes "aead_contract N A" "keyed A k k' s" "send_msg N P m s = (s', r)"
  shows "keyed A k k' s' \<and>
    (\<forall>n b. r = Inr (n, b) \<longrightarrow> (\<exists>p. plaintext_of P m = Inr p \<and> sealed A k (type_of m) p b))"
proof (cases "plaintext_of P m")
  case (Inl e)
  with assms(2,3) show ?thesis
    by (cases m) (auto simp: encode_control_def encode_control_ack_def Let_def)
next
  case (Inr p)
  obtain s1 r1 where e: "encode_packet N (type_of m) (sending_nonce N (transport s)) p s = (s1, r1)" by fastforce
  from encode_packet_keyed [OF assms(1,2) has_counter_type_of e] assms(3) e Inr show ?thesis
    by (auto simp: send_msg_eq [OF Inr])
qed

lemma decode_packet_keyed:
  assumes "aead_contract N A" "keyed A k k' s" "decode_packet N t v s = (s', r)"
  shows "keyed A k k' s' \<and>
    (\<forall>p. r = Inr p \<longrightarrow> view_type v = t \<and> (\<exists>n. view_counter v = Some n \<and> view_body v = seal A k' n p))"
proof (cases "view_counter v")
  case None
  with assms(2,3) show ?thesis by (auto simp: decode_packet_def split: if_splits)
next
  case (Some n)
  obtain tr w where w: "tr_read N (set_receiving_nonce N (transport s) n) (view_body v) MAX_PACKET_LEN = (tr, w)"
    by fastforce
  with assms(1) have "send_key A tr = send_key A (transport s)" "recv_key A tr = recv_key A (transport s)"
    "\<And>pt. w = Inr pt \<Longrightarrow> view_body v = seal A (recv_key A (transport s)) n pt"
    unfolding aead_contract_def by blast+
  with assms(2,3) w Some show ?thesis
    by (cases w) (auto simp: decode_packet_def keyed_def Let_def split: if_splits option.splits)
qed

text \<open>
  What arrives is a packet of the history or forged; so what decodes is the plaintext of a
  packet of the history, of the same type.
\<close>

definition arrives :: "('t, 'k) aead \<Rightarrow> 'k \<Rightarrow> bytes list \<Rightarrow> bytes \<Rightarrow> bool" where
  "arrives A k hist b \<longleftrightarrow> b \<in> set hist \<or> forged A k b"

definition hist_ok :: "('t, 'k) aead \<Rightarrow> 'k \<Rightarrow> (packet_type \<Rightarrow> bytes \<Rightarrow> bool) \<Rightarrow> bytes list \<Rightarrow> bool" where
  "hist_ok A k Q hist \<longleftrightarrow> (\<forall>b\<in>set hist. \<exists>t p. sealed A k t p b \<and> Q t p)"

lemma hist_ok_simps [simp]:
  "hist_ok A k Q []"
  "hist_ok A k Q (b # bs) \<longleftrightarrow> (\<exists>t p. sealed A k t p b \<and> Q t p) \<and> hist_ok A k Q bs"
  "hist_ok A k Q (xs @ ys) \<longleftrightarrow> hist_ok A k Q xs \<and> hist_ok A k Q ys"
  by (auto simp: hist_ok_def)

lemma hist_ok_mono: "hist_ok A k Q hist \<Longrightarrow> (\<And>t p. Q t p \<Longrightarrow> Q' t p) \<Longrightarrow> hist_ok A k Q' hist"
  by (fastforce simp: hist_ok_def)

lemma arrived_plaintext:
  assumes "aead_contract N A" "keyed A k k' s" "arrives A k' hist b" "hist_ok A k' Q hist"
    and "parse b = Inr v" "decode_packet N t v s = (s', Inr p)"
  shows "Q t p"
proof -
  from decode_packet_keyed [OF assms(1,2,6)] obtain n where
    v: "view_type v = t" "view_counter v = Some n" "view_body v = seal A k' n p" by blast
  with assms(3,5) have "b \<in> set hist" by (auto simp: arrives_def forged_def)
  with assms(4) obtain t' p' where "sealed A k' t' p' b" "Q t' p'" by (auto simp: hist_ok_def)
  moreover have "seal A k' n p' = seal A k' n p \<Longrightarrow> p' = p"
    using assms(1) unfolding aead_contract_def by blast
  ultimately show ?thesis using v assms(5) by (auto simp: sealed_def)
qed

text \<open>The packets of a history that are not forged under \<open>k\<close>.\<close>

definition genuine :: "('t, 'k) aead \<Rightarrow> 'k \<Rightarrow> bytes list \<Rightarrow> bytes list" where
  "genuine A k = filter (\<lambda>b. \<not> forged A k b)"

lemma genuine_append [simp]: "genuine A k (xs @ ys) = genuine A k xs @ genuine A k ys"
  by (simp add: genuine_def)

lemma genuine_Nil [simp]: "genuine A k [] = []"
  by (simp add: genuine_def)

lemma arrives_genuine: "arrives A k hist b \<Longrightarrow> arrives A k (genuine A k hist) b"
  by (auto simp: arrives_def genuine_def)

lemma hist_ok_genuine: "hist_ok A k Q hist \<Longrightarrow> hist_ok A k Q (genuine A k hist)"
  by (simp add: hist_ok_def genuine_def)

section \<open>The linked system\<close>

text \<open>
  Both ends, the packets each has handed to the network so far, the control operations the
  client took from its queue, and the completions it notified.
\<close>

record ('t, 'b, 'a) link =
  lk_client :: "('t, 'b) client_loop"
  lk_over :: bool
  lk_server :: "('t, 'a) server"
  lk_up :: "bytes list"
  lk_down :: "bytes list"
  lk_taken :: "control_op list"
  lk_notified :: "notification list"

definition turn_ops :: "turn \<Rightarrow> control_op list" where
  "turn_ops tn = (case tn_wake tn of WakeControl op \<Rightarrow> [op] | _ \<Rightarrow> [])"

text \<open>
  What may reach the relay is judged by the keys of the session it is in. When a handshake
  message replaces the session, the responder's new ephemeral key gives it keys of its own.
\<close>

definition relay_hears :: "('t, 'k) aead \<Rightarrow> bytes list \<Rightarrow> ('t, 'a) server \<Rightarrow> bytes \<Rightarrow> bool" where
  "relay_hears A hist srv b \<longleftrightarrow>
     (case srv_session srv of
        None \<Rightarrow> True
      | Some ss \<Rightarrow> arrives A (recv_key A (transport (ss_session ss))) hist b)"

definition new_keys :: "('t, 'k) aead \<Rightarrow> 'k \<Rightarrow> 'k \<Rightarrow> ('t, 'a) server \<Rightarrow> bool" where
  "new_keys A kc ks srv \<longleftrightarrow>
     (\<exists>ss. srv_session srv = Some ss \<and> send_key A (transport (ss_session ss)) \<noteq> ks \<and>
        recv_key A (transport (ss_session ss)) \<noteq> kc)"

definition is_handshake1 :: "bytes \<Rightarrow> bool" where
  "is_handshake1 b \<longleftrightarrow> (case parse b of Inl _ \<Rightarrow> False | Inr v \<Rightarrow> view_type v = Handshake1)"

text \<open>
  A turn of the client's loop, in which a received packet is one that \<open>arrives\<close>; a datagram that
  the relay hears, answered with whatever randomness its responder draws (\<open>br\<close>); an outbound frame
  of the relay.
\<close>

inductive link_step ::
  "('h, 't) noise_lib \<Rightarrow> postcard_lib \<Rightarrow> 'b client_config \<Rightarrow> 'a dispatcher \<Rightarrow> static_key_pair
     \<Rightarrow> ('t, 'k) aead \<Rightarrow> 'k \<Rightarrow> 'k \<Rightarrow> ('t, 'b, 'a) link \<Rightarrow> ('t, 'b, 'a) link \<Rightarrow> bool"
  for N P c disp keys A kc ks where
  client_goes_on:
    "\<lbrakk>\<not> lk_over l; \<forall>b. tn_wake tn = WakeRecv (Some b) \<longrightarrow> arrives A ks (lk_down l) (take MAX_PACKET_LEN b);
      client_turn N P c tn (lk_client l) = (Continue st, out, ns)\<rbrakk>
     \<Longrightarrow> link_step N P c disp keys A kc ks l
           (l\<lparr>lk_client := st, lk_up := lk_up l @ out, lk_taken := lk_taken l @ turn_ops tn,
              lk_notified := lk_notified l @ ns\<rparr>)"
| client_ends:
    "\<lbrakk>\<not> lk_over l; client_turn N P c tn (lk_client l) = (Ended r st, out, ns)\<rbrakk>
     \<Longrightarrow> link_step N P c disp keys A kc ks l
           (l\<lparr>lk_client := st, lk_over := True, lk_up := lk_up l @ out, lk_notified := lk_notified l @ ns\<rparr>)"
| relay_datagram:
    "\<lbrakk>relay_hears A (lk_up l) (lk_server l) b;
      handle_packet (N\<lparr>build_responder := br\<rparr>) P disp keys io b src (lk_server l) = (srv, out);
      is_handshake1 b \<Longrightarrow> srv_session srv = srv_session (lk_server l) \<or> new_keys A kc ks srv\<rbrakk>
     \<Longrightarrow> link_step N P c disp keys A kc ks l (l\<lparr>lk_server := srv, lk_down := lk_down l @ map fst out\<rparr>)"
| relay_frame:
    "handle_outbound N P env (lk_server l) = (srv, out)
     \<Longrightarrow> link_step N P c disp keys A kc ks l (l\<lparr>lk_server := srv, lk_down := lk_down l @ map fst out\<rparr>)"

text \<open>
  The handshake: the client's first message reaches the relay, which answers, and the answer
  completes the client's side.
\<close>

definition established ::
  "('h, 't) noise_lib \<Rightarrow> postcard_lib \<Rightarrow> 'b client_config \<Rightarrow> 'a dispatcher \<Rightarrow> static_key_pair
     \<Rightarrow> attempt \<Rightarrow> io_env \<Rightarrow> socket_addr \<Rightarrow> 'b \<Rightarrow> ('t, 'a) server \<Rightarrow> ('t, 'b, 'a) link \<Rightarrow> bool" where
  "established N P c disp keys a io src h srv0 l \<longleftrightarrow>
     (\<exists>hs1 reply s srv.
        client_handshake N c (a\<lparr>at_reply := Reply2 reply\<rparr>) = (Inr s, [hs1]) \<and>
        handle_packet N P disp keys io hs1 src srv0 = (srv, [(reply, src)]) \<and> send_ok io \<and>
        l = \<lparr>lk_client = client_loop_new (at_started a) s h, lk_over = False, lk_server = srv,
             lk_up = [], lk_down = [], lk_taken = [], lk_notified = []\<rparr>)"

section \<open>Invariant\<close>

text \<open>The sequence number and the envelope of the operation taken at position \<open>i\<close>, and what packets and queue entries carry.\<close>

definition seq_no :: "nat \<Rightarrow> u32" where
  "seq_no i = of_nat (Suc i)"

definition env_of :: "control_op list \<Rightarrow> nat \<Rightarrow> control_envelope" where
  "env_of ops i = \<lparr>env_seq = seq_no i, env_body_type = op_body_type (ops ! i), env_body = op_body (ops ! i)\<rparr>"

definition up_ok :: "postcard_lib \<Rightarrow> control_op list \<Rightarrow> packet_type \<Rightarrow> bytes \<Rightarrow> bool" where
  "up_ok P ops t p \<longleftrightarrow> (t = Control \<longrightarrow> (\<exists>i<length ops. enc_envelope P (env_of ops i) = Inr p))"

text \<open>
  The dispatcher's state after the operations at the positions \<open>served\<close>, in that order, and the
  status it answered the operation at position \<open>i\<close> with when its turn came.
\<close>

definition dispatched :: "'a dispatcher \<Rightarrow> 'a \<Rightarrow> control_op list \<Rightarrow> nat list \<Rightarrow> 'a" where
  "dispatched disp a ops served = foldl (\<lambda>a i. fst (disp a (op_body_type (ops ! i)) (op_body (ops ! i)))) a served"

definition dispatch_answer :: "'a dispatcher \<Rightarrow> 'a \<Rightarrow> control_op list \<Rightarrow> nat list \<Rightarrow> nat \<Rightarrow> ack_status \<Rightarrow> bool" where
  "dispatch_answer disp a ops served i st \<longleftrightarrow>
     (\<exists>xs ys. served = xs @ i # ys \<and>
        st = snd (disp (dispatched disp a ops xs) (op_body_type (ops ! i)) (op_body (ops ! i))))"

text \<open>An acknowledgement is for a dispatched operation and carries the dispatcher's answer, or \<open>Ok\<close> for a duplicate.\<close>

definition down_ok ::
  "postcard_lib \<Rightarrow> 'a dispatcher \<Rightarrow> 'a \<Rightarrow> control_op list \<Rightarrow> nat list \<Rightarrow> packet_type \<Rightarrow> bytes \<Rightarrow> bool" where
  "down_ok P disp a ops served t p \<longleftrightarrow>
     (t = ControlAck \<longrightarrow>
        (\<exists>i\<in>set served. \<exists>st. (st = AckOk \<or> dispatch_answer disp a ops served i st) \<and>
           enc_ack P \<lparr>ack_seq = seq_no i, ack_status = st\<rparr> = Inr p))"

definition queued_ok :: "control_op list \<Rightarrow> u32 \<times> outbound_entry \<Rightarrow> bool" where
  "queued_ok ops = (\<lambda>(q, e). \<exists>i<length ops. q = seq_no i \<and> ent_envelope e = env_of ops i \<and>
     completion e = Some (op_completion (ops ! i)))"

definition answer_ok ::
  "'a dispatcher \<Rightarrow> 'a \<Rightarrow> control_op list \<Rightarrow> nat list \<Rightarrow> notification \<Rightarrow> bool" where
  "answer_ok disp a ops served = (\<lambda>(tx, r).
     r \<in> {Inl (Timeout RETX_MAX_ATTEMPTS), Inl ChannelClosed} \<or>
     (\<exists>i\<in>set served. tx = op_completion (ops ! i) \<and>
        (r = Inr () \<or> (\<exists>st. dispatch_answer disp a ops served i st \<and> r = ack_result st))))"

definition client_ok ::
  "('t, 'k) aead \<Rightarrow> 'k \<Rightarrow> 'k \<Rightarrow> control_op list \<Rightarrow> ('t, 'b) client_loop \<Rightarrow> bool" where
  "client_ok A kc ks ops st \<longleftrightarrow>
     keyed A kc ks (cl_session st) \<and> channel_wf (cl_channel st) \<and>
     next_seq (cl_channel st) = seq_no (length ops) \<and> list_all (queued_ok ops) (outbound (cl_channel st))"

definition relay_ok ::
  "('t, 'k) aead \<Rightarrow> 'k \<Rightarrow> 'k \<Rightarrow> 'a dispatcher \<Rightarrow> 'a \<Rightarrow> control_op list \<Rightarrow> nat list \<Rightarrow> ('t, 'a) server \<Rightarrow> bool" where
  "relay_ok A kc ks disp a ops served srv \<longleftrightarrow>
     acceptor srv = Some (dispatched disp a ops served) \<and>
     (\<exists>ss. srv_session srv = Some ss \<and> keyed A ks kc (ss_session ss) \<and>
        cap (dedup (control_channel ss)) = DEDUP_WINDOW \<and>
        seen (dedup (control_channel ss)) = map seq_no served)"

text \<open>The relay is still in the client's session, or a handshake has replaced it by one with other keys.\<close>

definition relay_inv ::
  "('t, 'k) aead \<Rightarrow> 'k \<Rightarrow> 'k \<Rightarrow> 'a dispatcher \<Rightarrow> 'a \<Rightarrow> control_op list \<Rightarrow> nat list \<Rightarrow> ('t, 'a) server \<Rightarrow> bool" where
  "relay_inv A kc ks disp a ops served srv \<longleftrightarrow>
     relay_ok A kc ks disp a ops served srv \<or>
     acceptor srv = Some (dispatched disp a ops served) \<and> new_keys A kc ks srv"

definition link_inv ::
  "postcard_lib \<Rightarrow> ('t, 'k) aead \<Rightarrow> 'k \<Rightarrow> 'k \<Rightarrow> 'a dispatcher \<Rightarrow> 'a \<Rightarrow> nat list \<Rightarrow> ('t, 'b, 'a) link \<Rightarrow> bool" where
  "link_inv P A kc ks disp a served l \<longleftrightarrow>
     (\<not> lk_over l \<longrightarrow> client_ok A kc ks (lk_taken l) (lk_client l)) \<and>
     relay_inv A kc ks disp a (lk_taken l) served (lk_server l) \<and>
     hist_ok A kc (up_ok P (lk_taken l)) (lk_up l) \<and>
     hist_ok A ks (down_ok P disp a (lk_taken l) served) (genuine A ks (lk_down l)) \<and>
     list_all (answer_ok disp a (lk_taken l) served) (lk_notified l) \<and>
     distinct served \<and> list_all (\<lambda>i. i < length (lk_taken l)) served"

lemma env_of_append [simp]: "i < length ops \<Longrightarrow> env_of (ops @ xs) i = env_of ops i"
  by (simp add: env_of_def nth_append)

lemma up_ok_append: "up_ok P ops t p \<Longrightarrow> up_ok P (ops @ xs) t p"
  unfolding up_ok_def by (metis env_of_append length_append trans_less_add1)

lemma queued_ok_append: "queued_ok ops x \<Longrightarrow> queued_ok (ops @ xs) x"
  by (fastforce simp: queued_ok_def nth_append split: prod.splits)

lemma dispatched_append:
  "list_all (\<lambda>i. i < length ops) served \<Longrightarrow> dispatched disp a (ops @ xs) served = dispatched disp a ops served"
  by (induction served rule: rev_induct) (simp_all add: dispatched_def nth_append)

lemma dispatch_answer_append:
  assumes "dispatch_answer disp a ops served i st" "list_all (\<lambda>i. i < length ops) served"
  shows "dispatch_answer disp a (ops @ xs) (served @ ys) i st"
proof -
  from assms(1) obtain us vs where
    "served = us @ i # vs" "st = snd (disp (dispatched disp a ops us) (op_body_type (ops ! i)) (op_body (ops ! i)))"
    by (auto simp: dispatch_answer_def)
  with assms(2) show ?thesis
    unfolding dispatch_answer_def
    by (intro exI [of _ us] exI [of _ "vs @ ys"]) (simp add: dispatched_append nth_append)
qed

lemma down_ok_append:
  assumes "down_ok P disp a ops served t p" "list_all (\<lambda>i. i < length ops) served"
  shows "down_ok P disp a (ops @ xs) (served @ ys) t p"
proof (cases "t = ControlAck")
  case True
  with assms(1) obtain i st where i: "i \<in> set served" "st = AckOk \<or> dispatch_answer disp a ops served i st"
    "enc_ack P \<lparr>ack_seq = seq_no i, ack_status = st\<rparr> = Inr p" by (auto simp: down_ok_def)
  then have "st = AckOk \<or> dispatch_answer disp a (ops @ xs) (served @ ys) i st"
    using dispatch_answer_append [OF _ assms(2), of disp a i st xs ys] by blast
  with i show ?thesis unfolding down_ok_def by (intro impI bexI [of _ i] exI [of _ st]) simp_all
qed (simp add: down_ok_def)

lemma answer_ok_append:
  assumes "answer_ok disp a ops served x" "list_all (\<lambda>i. i < length ops) served"
  shows "answer_ok disp a (ops @ xs) (served @ ys) x"
proof (cases "snd x \<in> {Inl (Timeout RETX_MAX_ATTEMPTS), Inl ChannelClosed}")
  case False
  with assms(1) obtain i where i: "i \<in> set served" "fst x = op_completion (ops ! i)"
    "snd x = Inr () \<or> (\<exists>st. dispatch_answer disp a ops served i st \<and> snd x = ack_result st)"
    by (auto simp: answer_ok_def case_prod_beta)
  then have "snd x = Inr () \<or> (\<exists>st. dispatch_answer disp a (ops @ xs) (served @ ys) i st \<and> snd x = ack_result st)"
    using dispatch_answer_append [OF _ assms(2), of disp a i _ xs ys] by blast
  moreover have "i < length ops" using i(1) assms(2) by (simp add: list_all_iff)
  ultimately show ?thesis
    using i unfolding answer_ok_def case_prod_beta by (intro disjI2 bexI [of _ i]) (simp_all add: nth_append)
qed (auto simp: answer_ok_def case_prod_beta)

section \<open>The client's side\<close>

lemma encode_heartbeat_sealed:
  assumes "aead_contract N A" "keyed A k k' s" "encode_heartbeat N ts fl s = (s', r)"
  shows "keyed A k k' s' \<and> (\<forall>n b. r = Inr (n, b) \<longrightarrow> hist_ok A k (up_ok P ops) [b])"
  using send_msg_keyed [OF assms(1,2), of P "HeartbeatMsg ts fl" s' r] assms(3)
  by (fastforce simp: up_ok_def)

lemma encode_control_sealed:
  assumes "aead_contract N A" "keyed A k k' s" "encode_control N P env s = (s', r)"
    and "i < length ops" "env = env_of ops i"
  shows "keyed A k k' s' \<and> (\<forall>n b. r = Inr (n, b) \<longrightarrow> hist_ok A k (up_ok P ops) [b])"
  using send_msg_keyed [OF assms(1,2), of P "ControlMsg env" s' r] assms(3-)
  by (fastforce simp: up_ok_def)

lemma encode_control_ack_sealed:
  assumes "aead_contract N A" "keyed A k k' s" "encode_control_ack N P ack s = (s', r)"
  shows "keyed A k k' s' \<and>
    (\<forall>n b. r = Inr (n, b) \<longrightarrow> (\<exists>p. enc_ack P ack = Inr p \<and> sealed A k ControlAck p b))"
  using send_msg_keyed [OF assms(1,2), of P "ControlAckMsg ack" s' r] assms(3) by simp

lemma client_ok_session:
  "client_ok A kc ks ops st \<Longrightarrow> keyed A kc ks s \<Longrightarrow> client_ok A kc ks ops (st\<lparr>cl_session := s\<rparr>)"
  by (simp add: client_ok_def)

lemma client_ok_frame [simp]:
  "client_ok A kc ks ops (st\<lparr>cl_sent := x\<rparr>) = client_ok A kc ks ops st"
  "client_ok A kc ks ops (st\<lparr>cl_acked := x\<rparr>) = client_ok A kc ks ops st"
  "client_ok A kc ks ops (st\<lparr>cl_probe := p\<rparr>) = client_ok A kc ks ops st"
  "client_ok A kc ks ops (st\<lparr>cl_last_ack := p\<rparr>) = client_ok A kc ks ops st"
  "client_ok A kc ks ops (st\<lparr>cl_handler := h\<rparr>) = client_ok A kc ks ops st"
  by (simp_all add: client_ok_def)

lemma send_probe_ok:
  assumes "aead_contract N A" "client_ok A kc ks ops st" "send_probe N now ts ok st = (st', out)"
  shows "client_ok A kc ks ops st' \<and> hist_ok A kc (up_ok P ops) out"
proof -
  obtain s r where e: "encode_heartbeat N ts 0 (cl_session st) = (s, r)" by fastforce
  have "keyed A kc ks (cl_session st)" using assms(2) by (simp add: client_ok_def)
  from encode_heartbeat_sealed [OF assms(1) this e, of P ops] assms(2,3) e show ?thesis
    by (fastforce simp: send_probe_def client_ok_def split: sum.splits if_splits)
qed

lemma loop_head_ok:
  assumes "aead_contract N A" "client_ok A kc ks ops st" "loop_head N c now took ts ok st = (r, st', out)"
  shows "client_ok A kc ks ops st' \<and> hist_ok A kc (up_ok P ops) out"
proof -
  have "st' = st \<and> out = [] \<or> send_probe N (now + took) ts ok st = (st', out)"
    using assms(3) by (auto simp: loop_head_def Let_def split: if_splits option.splits prod.splits)
  then show ?thesis using send_probe_ok [OF assms(1,2)] assms(2) by auto
qed

lemma decode_control_ack_arrived:
  assumes "aead_contract N A" "postcard_contract P" "keyed A kc ks s" "arrives A ks down b"
    "hist_ok A ks (down_ok P disp a ops served) down" "parse b = Inr v" "decode_control_ack N P v s = (s', r)"
  shows "keyed A kc ks s' \<and> (\<forall>ack. r = Inr ack \<longrightarrow> (\<exists>i\<in>set served. ack_seq ack = seq_no i \<and>
    (ack_status ack = AckOk \<or> dispatch_answer disp a ops served i (ack_status ack))))"
proof -
  obtain r1 where d: "decode_packet N ControlAck v s = (s', r1)" and r: "r = rbind r1 (\<lambda>p. map_err Postcard (dec_ack P p))"
    using assms(7) by (cases "decode_packet N ControlAck v s") (auto simp: decode_control_ack_def)
  note k = decode_packet_keyed [OF assms(1,3) d]
  show ?thesis
  proof (cases r1)
    case (Inr p)
    with arrived_plaintext [OF assms(1,3,4,5,6)] d have "down_ok P disp a ops served ControlAck p" by blast
    with assms(2) k r Inr show ?thesis by (fastforce simp: down_ok_def postcard_contract_def)
  qed (use k r in simp)
qed

lemma seq_inj:
  assumes "seq_no i = seq_no j" "i < n" "j < n" "n \<le> DEDUP_WINDOW"
  shows "i = j"
proof -
  have "unat (seq_no k) = Suc k" if "k < n" for k
    using that assms(4) by (simp add: seq_no_def unat_of_nat DEDUP_WINDOW_def del: of_nat_Suc)
  then show ?thesis using assms(1-3) by (metis Suc_inject)
qed

lemma on_ack_ok:
  assumes "channel_wf ch" "list_all (queued_ok ops) (outbound ch)" "on_ack ack ch = (ch', b, ns)"
    "i \<in> set served" "ack_seq ack = seq_no i" "list_all (\<lambda>i. i < length ops) served"
    "length ops \<le> DEDUP_WINDOW" "ack_status ack = AckOk \<or> dispatch_answer disp a ops served i (ack_status ack)"
  shows "list_all (queued_ok ops) (outbound ch') \<and> list_all (answer_ok disp a ops served) ns \<and> next_seq ch' = next_seq ch"
proof (cases "bt_get (outbound ch) (ack_seq ack)")
  case (Some e)
  then have "(ack_seq ack, e) \<in> set (outbound ch)"
    using assms(1) by (simp add: channel_wf_def bt_get_in_set)
  with assms(2) obtain j where j: "j < length ops" "ack_seq ack = seq_no j"
    "completion e = Some (op_completion (ops ! j))"
    by (auto simp: queued_ok_def list_all_iff)
  moreover have "i < length ops" using assms(4,6) by (simp add: list_all_iff)
  ultimately have "i = j" using seq_inj [OF _ _ _ assms(7)] assms(5) by metis
  moreover have "answer_ok disp a ops served (op_completion (ops ! i), ack_result (ack_status ack))"
    unfolding answer_ok_def prod.case using assms(4,8) by (intro disjI2 bexI [of _ i]) auto
  ultimately show ?thesis
    using assms(2,3,4) Some j by (auto simp: on_ack_def list_all_iff set_bt_remove notify_def)
qed (use assms in \<open>auto simp: on_ack_def\<close>)

lemma client_control_ok:
  assumes "aead_contract N A" "client_ok A kc ks ops st" "client_control N P c ok v st = (st', out)"
  shows "client_ok A kc ks ops st' \<and> hist_ok A kc (up_ok P ops) out"
proof -
  have k: "keyed A kc ks (cl_session st)" and wf: "channel_wf (cl_channel st)"
    using assms(2) by (simp_all add: client_ok_def)
  obtain s r where d: "decode_packet N Control v (cl_session st) = (s, r)" by fastforce
  note ks = decode_packet_keyed [OF assms(1) k d]
  have d': "decode_control N P v (cl_session st) = (s, rbind r (\<lambda>p. map_err Postcard (dec_envelope P p)))"
    by (simp add: decode_control_def d)
  have wf': "channel_wf (cl_channel st')"
    using client_control_channel [OF wf, of N P c ok v] assms(3) by (simp add: channel_evolves_def)
  show ?thesis
  proof (cases "rbind r (\<lambda>p. map_err Postcard (dec_envelope P p))")
    case (Inl e)
    with d' ks assms(2,3) show ?thesis by (auto simp: client_control_def client_ok_session)
  next
    case (Inr env)
    obtain ch disp where i: "on_inbound env (cl_channel st) = (ch, disp)" by fastforce
    then have ch: "next_seq ch = next_seq (cl_channel st)" "outbound ch = outbound (cl_channel st)"
      by (auto simp: on_inbound_def split: if_splits)
    obtain h status where h: "(case disp of
        Deliver e \<Rightarrow> dispatch_body (cc_body_handler c) (env_body_type e) (env_body e) (cl_handler st)
      | Duplicate \<Rightarrow> (cl_handler st, AckOk)) = (h, status)" by fastforce
    obtain s2 r2 where e: "encode_control_ack N P \<lparr>ack_seq = env_seq env, ack_status = status\<rparr> s = (s2, r2)" by fastforce
    from encode_control_ack_sealed [OF assms(1) conjunct1 [OF ks] e] have "keyed A kc ks s2"
      "\<And>n b. r2 = Inr (n, b) \<Longrightarrow> hist_ok A kc (up_ok P ops) [b]"
      by (auto simp: up_ok_def) 
    with assms(2,3) d' Inr i h e ch wf' show ?thesis
      by (auto simp: client_control_def client_ok_def split: sum.splits if_splits)
  qed
qed

lemma client_recv_ok:
  assumes "aead_contract N A" "postcard_contract P" "client_ok A kc ks ops st"
    "arrives A ks down (take MAX_PACKET_LEN b)" "hist_ok A ks (down_ok P disp a ops served) down"
    "list_all (\<lambda>i. i < length ops) served" "length ops \<le> DEDUP_WINDOW"
    "client_recv N P c now ok b st = (st', out, ns)"
  shows "client_ok A kc ks ops st' \<and> hist_ok A kc (up_ok P ops) out \<and> list_all (answer_ok disp a ops served) ns"
proof (cases "parse (take MAX_PACKET_LEN b)")
  case (Inr v)
  have k: "keyed A kc ks (cl_session st)" and wf: "channel_wf (cl_channel st)"
    using assms(3) by (simp_all add: client_ok_def)
  have wf': "channel_wf (cl_channel st')"
    using client_recv_channel [OF wf assms(8)] by (simp add: channel_evolves_def)
  show ?thesis
  proof (cases "view_type v")
    case HeartbeatAck
    obtain s r where d: "decode_packet N HeartbeatAck v (cl_session st) = (s, r)" by fastforce
    from decode_packet_keyed [OF assms(1) k d] HeartbeatAck Inr d assms(3,8) show ?thesis
      by (auto simp: client_recv_def client_heartbeat_ack_def decode_heartbeat_ack_def client_ok_session
          split: sum.splits)
  next
    case ControlAck
    obtain s r where d: "decode_control_ack N P v (cl_session st) = (s, r)" by fastforce
    note a = decode_control_ack_arrived [OF assms(1,2) k assms(4,5) Inr d]
    show ?thesis
    proof (cases r)
      case (Inr ack)
      obtain ch bb ns1 where o: "on_ack ack (cl_channel st) = (ch, bb, ns1)" by (metis prod_cases3)
      from a Inr obtain i where "i \<in> set served" "ack_seq ack = seq_no i"
        "ack_status ack = AckOk \<or> dispatch_answer disp a ops served i (ack_status ack)" by blast
      from on_ack_ok [OF wf _ o this(1,2) assms(6,7) this(3)] a assms(3,8) wf' \<open>parse _ = _\<close> ControlAck d Inr o show ?thesis
        by (auto simp: client_recv_def client_control_ack_def client_ok_def)
    qed (use a assms(3,8) Inr ControlAck d in \<open>auto simp: client_recv_def client_control_ack_def client_ok_session\<close>)
  next
    case Control
    with client_control_ok [OF assms(1,3), of P c ok v] assms(8) Inr show ?thesis
      by (auto simp: client_recv_def split: prod.splits)
  qed (use assms(3,8) Inr in \<open>auto simp: client_recv_def\<close>)
qed (use assms(3,8) in \<open>auto simp: client_recv_def\<close>)

lemma send_envelope_ok:
  assumes "aead_contract N A" "client_ok A kc ks ops st" "i < length ops" "send_envelope N P ok (env_of ops i) st = (st', out)"
  shows "client_ok A kc ks ops st' \<and> hist_ok A kc (up_ok P ops) out"
proof -
  have k: "keyed A kc ks (cl_session st)" using assms(2) by (simp add: client_ok_def)
  obtain s r where e: "encode_control N P (env_of ops i) (cl_session st) = (s, r)" by fastforce
  from encode_control_sealed [OF assms(1) k e assms(3) refl] assms(2,4) e show ?thesis
    by (auto simp: send_envelope_def client_ok_session split: sum.splits if_splits)
qed

lemma send_envelopes_ok:
  assumes "aead_contract N A" "client_ok A kc ks ops st" "\<forall>env\<in>set envs. \<exists>i<length ops. env = env_of ops i"
    "send_envelopes N P ok envs st = (st', out)"
  shows "client_ok A kc ks ops st' \<and> hist_ok A kc (up_ok P ops) out"
  using assms(2-)
proof (induction envs arbitrary: st ok out)
  case (Cons env envs)
  obtain st1 out1 where s1: "send_envelope N P (ok 0) env st = (st1, out1)" by fastforce
  obtain st2 out2 where s2: "send_envelopes N P (\<lambda>n. ok (Suc n)) envs st1 = (st2, out2)" by fastforce
  from Cons.prems(2) obtain i where "i < length ops" "env = env_of ops i" by auto
  with send_envelope_ok [OF assms(1) Cons.prems(1)] s1
  have ok1: "client_ok A kc ks ops st1" "hist_ok A kc (up_ok P ops) out1" by blast+
  have "st2 = st'" using Cons.prems(3) s1 s2 by simp
  with Cons.IH [OF ok1(1) _ s2 [unfolded \<open>st2 = st'\<close>]] Cons.prems ok1(2) s1 s2 show ?case by auto
qed simp

lemma client_ok_take:
  assumes "client_ok A kc ks ops st" "length ops < DEDUP_WINDOW"
    "enqueue (op_body_type op) (op_body op) (op_completion op) now (cl_channel st) = Some (ch, env)"
  shows "client_ok A kc ks (ops @ [op]) (st\<lparr>cl_channel := ch\<rparr>)" "env = env_of (ops @ [op]) (length ops)"
proof -
  let ?x = "Enqueue (op_body_type op) (op_body op) (op_completion op) now"
  have wf: "channel_wf (cl_channel st)" and n: "next_seq (cl_channel st) = seq_no (length ops)"
    using assms(1) by (simp_all add: client_ok_def)
  show "env = env_of (ops @ [op]) (length ops)"
    using assms(3) n by (auto simp: enqueue_def Let_def env_of_def split: if_splits)
  have "channel_wf ch" using channel_wf_step [OF wf, of ?x] assms(3) by simp
  moreover have "next_seq ch = seq_no (length (ops @ [op]))"
    using assms(3) n by (auto simp: enqueue_def Let_def seq_no_def split: if_splits)
  moreover have "list_all (queued_ok (ops @ [op])) (outbound ch)"
  proof -
    have "next_seq (cl_channel st) \<notin> fst ` set (outbound (cl_channel st))"
      using wf by (auto simp: channel_wf_def entry_ok_def)
    then have "set (outbound ch) = insert (seq_no (length ops), \<lparr>ent_envelope = env, attempts = 1,
        next_send_at = now + RETX_INITIAL, completion = Some (op_completion op)\<rparr>) (set (outbound (cl_channel st)))"
      using assms(3) n by (auto simp: enqueue_def Let_def set_bt_insert_fresh split: if_splits)
    moreover have "queued_ok (ops @ [op]) (seq_no (length ops), \<lparr>ent_envelope = env, attempts = 1,
        next_send_at = now + RETX_INITIAL, completion = Some (op_completion op)\<rparr>)"
      using \<open>env = _\<close> by (auto simp: queued_ok_def)
    ultimately show ?thesis
      using assms(1) queued_ok_append [of ops _ "[op]"] by (auto simp: client_ok_def list_all_iff)
  qed
  ultimately show "client_ok A kc ks (ops @ [op]) (st\<lparr>cl_channel := ch\<rparr>)"
    using assms(1) by (simp add: client_ok_def)
qed

lemma next_due_ok:
  assumes "channel_wf ch" "list_all (queued_ok ops) (outbound ch)" "next_due now ch = (ch', due, ns)"
  shows "list_all (queued_ok ops) (outbound ch') \<and> next_seq ch' = next_seq ch \<and>
    (\<forall>env\<in>set due. \<exists>i<length ops. env = env_of ops i) \<and> list_all (answer_ok disp a ops served) ns"
proof -
  have "bt_wf (outbound ch)" using assms(1) by (simp add: channel_wf_def)
  from next_due_eq [OF this, of now] assms(3) have
    "ch' = ch\<lparr>outbound := map (\<lambda>(s, e). (s, bump now e)) (filter (\<lambda>(s, e). \<not> expired now e) (outbound ch))\<rparr>"
    "due = map (\<lambda>(s, e). ent_envelope e) (filter (\<lambda>(s, e). resend now e) (outbound ch))"
    "ns = concat (map (\<lambda>(s, e). notify (completion e) (Inl (Timeout RETX_MAX_ATTEMPTS)))
        (filter (\<lambda>(s, e). expired now e) (outbound ch)))"
    by simp_all
  moreover have "ent_envelope (bump now e) = ent_envelope e" "completion (bump now e) = completion e" for e
    by (simp_all add: bump_def)
  ultimately show ?thesis
    using assms(2) by (fastforce simp: list_all_iff queued_ok_def answer_ok_def notify_def split: option.splits)
qed

lemma client_wake_ok:
  assumes "aead_contract N A" "postcard_contract P" "client_ok A kc ks ops st"
    "\<forall>b. tn_wake tn = WakeRecv (Some b) \<longrightarrow> arrives A ks down (take MAX_PACKET_LEN b)"
    "hist_ok A ks (down_ok P disp a ops served) down" "list_all (\<lambda>i. i < length ops) served"
    "length (ops @ turn_ops tn) \<le> DEDUP_WINDOW" "client_wake N P c tn st = (Continue st', out, ns)"
  shows "client_ok A kc ks (ops @ turn_ops tn) st' \<and> hist_ok A kc (up_ok P (ops @ turn_ops tn)) out \<and>
    list_all (answer_ok disp a (ops @ turn_ops tn) served) ns"
proof (cases "tn_wake tn")
  case (WakeRecv bo)
  then obtain b where b: "bo = Some b" using assms(8) by (cases bo) (auto simp: client_wake_def)
  with WakeRecv assms(8) have "client_recv N P c (tn_now tn) (tn_ok tn 0) b st = (st', out, ns)"
    by (auto simp: client_wake_def split: prod.splits)
  from client_recv_ok [OF assms(1-3) _ assms(5,6) _ this] WakeRecv b assms(4,7) show ?thesis
    by (simp add: turn_ops_def)
next
  case (WakeTick ts)
  obtain s r where e: "encode_heartbeat N ts 0 (cl_session st) = (s, r)" by fastforce
  have "keyed A kc ks (cl_session st)" using assms(3) by (simp add: client_ok_def)
  from encode_heartbeat_sealed [OF assms(1) this e, of P ops] assms(3,8) e WakeTick show ?thesis
    by (fastforce simp: client_wake_def turn_ops_def client_ok_session split: sum.splits if_splits)
next
  case (WakeControl op)
  obtain ch env where e: "enqueue (op_body_type op) (op_body op) (op_completion op) (tn_now tn) (cl_channel st)
      = Some (ch, env)"
    using WakeControl assms(8)
    by (cases "enqueue (op_body_type op) (op_body op) (op_completion op) (tn_now tn) (cl_channel st)")
       (auto simp: client_wake_def)
  have "length ops < DEDUP_WINDOW" using assms(7) WakeControl by (simp add: turn_ops_def)
  note t = client_ok_take [OF assms(3) this e]
  have "send_envelope N P (tn_ok tn 0) env (st\<lparr>cl_channel := ch\<rparr>) = (st', out)" "ns = []"
    using assms(8) WakeControl e by (auto simp: client_wake_def split: prod.splits)
  with send_envelope_ok [OF assms(1) t(1), of "length ops"] t(2) WakeControl show ?thesis
    by (simp add: turn_ops_def)
next
  case WakeRetransmit
  obtain ch due ns1 where d: "next_due (tn_now tn) (cl_channel st) = (ch, due, ns1)" by (metis prod_cases3)
  have wf: "channel_wf (cl_channel st)" "list_all (queued_ok ops) (outbound (cl_channel st))"
    using assms(3) by (simp_all add: client_ok_def)
  note n = next_due_ok [OF wf d, of disp a served]
  have "channel_wf ch" using channel_wf_step [OF wf(1), of "NextDue (tn_now tn)"] d by simp
  with n assms(3) have ok: "client_ok A kc ks ops (st\<lparr>cl_channel := ch\<rparr>)" by (simp add: client_ok_def)
  have "send_envelopes N P (tn_ok tn) due (st\<lparr>cl_channel := ch\<rparr>) = (st', out)" "ns = ns1"
    using assms(8) WakeRetransmit d by (auto simp: client_wake_def split: prod.splits)
  with send_envelopes_ok [OF assms(1) ok, of due P "tn_ok tn"] n WakeRetransmit show ?thesis
    by (simp add: turn_ops_def)
qed (use assms(8) in \<open>auto simp: client_wake_def\<close>)

lemma client_turn_ok:
  assumes "aead_contract N A" "postcard_contract P" "client_ok A kc ks ops st"
    "\<forall>b. tn_wake tn = WakeRecv (Some b) \<longrightarrow> arrives A ks down (take MAX_PACKET_LEN b)"
    "hist_ok A ks (down_ok P disp a ops served) down" "list_all (\<lambda>i. i < length ops) served"
    "length (ops @ turn_ops tn) \<le> DEDUP_WINDOW" "client_turn N P c tn st = (Continue st', out, ns)"
  shows "client_ok A kc ks (ops @ turn_ops tn) st' \<and> hist_ok A kc (up_ok P (ops @ turn_ops tn)) out \<and>
    list_all (answer_ok disp a (ops @ turn_ops tn) served) ns"
proof -
  obtain r st1 out1 where h: "loop_head N c (tn_head tn) (tn_probe_took tn) (tn_head_ts tn) (tn_head_ok tn) st = (r, st1, out1)"
    by (metis prod_cases3)
  note head = loop_head_ok [OF assms(1,3) h, of P]
  obtain res out2 ns2 where w: "client_wake N P c tn st1 = (res, out2, ns2)" by (metis prod_cases3)
  from assms(8) h w have "res = Continue st'" "out = out1 @ out2" "ns = ns2"
    by (auto simp: client_turn_def split: option.splits turn_result.splits)
  with client_wake_ok [OF assms(1,2) conjunct1 [OF head] assms(4-7)] w head
    hist_ok_mono [OF conjunct2 [OF head], of "up_ok P (ops @ turn_ops tn)"]
  show ?thesis by (auto intro: up_ok_append)
qed

lemma client_turn_last_packets:
  assumes "aead_contract N A" "client_ok A kc ks ops st" "client_turn N P c tn st = (Ended r st', out, ns)"
  shows "hist_ok A kc (up_ok P ops) out"
proof -
  obtain x st1 out1 where h: "loop_head N c (tn_head tn) (tn_probe_took tn) (tn_head_ts tn) (tn_head_ok tn) st = (x, st1, out1)"
    by (metis prod_cases3)
  have "client_wake N P c tn st1 = (Ended r st', out2, ns2) \<Longrightarrow> out2 = []" for out2 ns2
    by (auto simp: client_wake_def split: wake.splits option.splits prod.splits sum.splits if_splits)
  with assms(3) h have "out = out1"
    by (cases "client_wake N P c tn st1") (auto simp: client_turn_def split: option.splits turn_result.splits)
  with loop_head_ok [OF assms(1,2) h, of P] show ?thesis by simp
qed

lemma channel_drop_answers: "list_all (answer_ok disp a ops served) (channel_drop ch)"
  by (auto simp: channel_drop_def abort_all_def notify_def answer_ok_def list_all_iff split: option.splits)

section \<open>The relay's side\<close>

lemma relay_ok_session:
  assumes "relay_ok A kc ks disp a ops served srv" "srv_session srv = Some ss" "keyed A ks kc s"
  shows "relay_ok A kc ks disp a ops served (srv\<lparr>srv_session := Some (ss\<lparr>ss_session := s\<rparr>)\<rparr>)"
  using assms by (auto simp: relay_ok_def)

lemma handle_heartbeat_ok:
  assumes "aead_contract N A" "relay_ok A kc ks disp a ops served srv" "handle_heartbeat N io v src srv = (srv', out)"
  shows "relay_ok A kc ks disp a ops served srv' \<and> hist_ok A ks (down_ok P disp a ops served) (map fst out)"
proof -
  from assms(2) obtain ss where ss: "srv_session srv = Some ss" and k: "keyed A ks kc (ss_session ss)"
    by (auto simp: relay_ok_def)
  obtain s r where d: "decode_packet N Heartbeat v (ss_session ss) = (s, r)" by fastforce
  note ks = conjunct1 [OF decode_packet_keyed [OF assms(1) k d]]
  obtain r1 where d1: "decode_heartbeat N v (ss_session ss) = (s, r1)" using d by (simp add: decode_heartbeat_def)
  show ?thesis
  proof (cases r1)
    case (Inl e)
    with assms(2,3) ss d1 ks show ?thesis by (auto simp: handle_heartbeat_def relay_ok_session)
  next
    case (Inr h)
    obtain s2 r2 where e: "encode_heartbeat_ack N (hb_counter h) (clock_ms io) s = (s2, r2)" by fastforce
    from send_msg_keyed [OF assms(1) ks, of P "HeartbeatAckMsg (hb_counter h) (clock_ms io)"] e
    have "keyed A ks kc s2" "\<And>n b. r2 = Inr (n, b) \<Longrightarrow> \<exists>p. sealed A ks HeartbeatAck p b" by auto
    with assms(2,3) ss d1 Inr e show ?thesis
      by (fastforce simp: handle_heartbeat_def Let_def relay_ok_def down_ok_def
          split: sum.splits if_splits prod.splits)
  qed
qed

lemma handle_outbound_ok:
  assumes "aead_contract N A" "relay_ok A kc ks disp a ops served srv" "handle_outbound N P env srv = (srv', out)"
  shows "relay_ok A kc ks disp a ops served srv' \<and> hist_ok A ks (down_ok P disp a ops served) (map fst out)"
proof -
  from assms(2) obtain ss where ss: "srv_session srv = Some ss" and k: "keyed A ks kc (ss_session ss)"
    by (auto simp: relay_ok_def)
  let ?env = "env\<lparr>env_seq := next_outbound_seq ss\<rparr>"
  obtain s r where e: "encode_control N P ?env (ss_session ss) = (s, r)" by fastforce
  from send_msg_keyed [OF assms(1) k, of P "ControlMsg ?env"] e
  have "keyed A ks kc s" "\<And>n b. r = Inr (n, b) \<Longrightarrow> \<exists>p. sealed A ks Control p b" by auto
  with assms(2,3) ss e show ?thesis
    by (fastforce simp: handle_outbound_def Let_def relay_ok_def down_ok_def split: sum.splits)
qed

lemma inbound_status_ok:
  assumes "seen (dedup ch) = map seq_no served" "cap (dedup ch) = DEDUP_WINDOW" "distinct served"
    "list_all (\<lambda>i. i < length ops) served" "length ops \<le> DEDUP_WINDOW" "i < length ops"
    "inbound_status disp (Some (dispatched disp a ops served)) ch (env_of ops i) = (acc, ch', st)"
  shows "\<exists>served'. distinct served' \<and> list_all (\<lambda>i. i < length ops) served' \<and> i \<in> set served' \<and>
    (\<exists>xs. served' = served @ xs) \<and> acc = Some (dispatched disp a ops served') \<and>
    (st = AckOk \<or> dispatch_answer disp a ops served' i st) \<and> seen (dedup ch') = map seq_no served' \<and> cap (dedup ch') = DEDUP_WINDOW"
proof (cases "i \<in> set served")
  case True
  with assms show ?thesis
    by (intro exI [of _ served])
      (auto simp: inbound_status_def on_inbound_def dedup_contains_def list_ex_iff env_of_def)
next
  case False
  have "set served \<subseteq> {..<length ops} - {i}" using assms(4) False by (auto simp: list_all_iff)
  then have "card (set served) \<le> card ({..<length ops} - {i})" by (intro card_mono) auto
  with assms(3,5,6) have len: "length served < DEDUP_WINDOW" by (simp add: distinct_card)
  have "seq_no i \<notin> set (map seq_no served)"
    using False assms(4,6) seq_inj [OF _ _ _ assms(5)] by (auto simp: list_all_iff)
  moreover have "dispatch_answer disp a ops (served @ [i]) i
      (snd (disp (dispatched disp a ops served) (op_body_type (ops ! i)) (op_body (ops ! i))))"
    by (auto simp: dispatch_answer_def)
  ultimately show ?thesis
    using assms len False
    by (intro exI [of _ "served @ [i]"])
      (auto simp: inbound_status_def on_inbound_def dedup_contains_def dedup_insert_def list_ex_iff env_of_def
        dispatched_def Let_def split: prod.splits)
qed

lemma decode_control_arrived:
  assumes "aead_contract N A" "postcard_contract P" "keyed A ks kc s" "arrives A kc up b"
    "hist_ok A kc (up_ok P ops) up" "parse b = Inr v" "decode_control N P v s = (s', r)"
  shows "keyed A ks kc s' \<and> (\<forall>env. r = Inr env \<longrightarrow> (\<exists>i<length ops. env = env_of ops i))"
proof -
  obtain r1 where d: "decode_packet N Control v s = (s', r1)" and r: "r = rbind r1 (\<lambda>p. map_err Postcard (dec_envelope P p))"
    using assms(7) by (cases "decode_packet N Control v s") (auto simp: decode_control_def)
  note k = decode_packet_keyed [OF assms(1,3) d]
  show ?thesis
  proof (cases r1)
    case (Inr p)
    with arrived_plaintext [OF assms(1,3,4,5,6)] d have "up_ok P ops Control p" by blast
    with assms(2) k r Inr show ?thesis by (fastforce simp: up_ok_def postcard_contract_def)
  qed (use k r in simp)
qed

definition served_grows :: "control_op list \<Rightarrow> nat list \<Rightarrow> nat list \<Rightarrow> bool" where
  "served_grows ops served served' \<longleftrightarrow>
     distinct served' \<and> list_all (\<lambda>i. i < length ops) served' \<and> (\<exists>xs. served' = served @ xs)"

lemma handle_control_ok:
  assumes "aead_contract N A" "postcard_contract P" "relay_ok A kc ks disp a ops served srv"
    "arrives A kc up b" "hist_ok A kc (up_ok P ops) up" "parse b = Inr v"
    "distinct served" "list_all (\<lambda>i. i < length ops) served" "length ops \<le> DEDUP_WINDOW"
    "handle_control N P disp io v src srv = (srv', out)"
  shows "\<exists>served'. served_grows ops served served' \<and> relay_ok A kc ks disp a ops served' srv' \<and>
    hist_ok A ks (down_ok P disp a ops served') (map fst out)"
proof -
  from assms(3) obtain ss where ss: "srv_session srv = Some ss" "keyed A ks kc (ss_session ss)"
    "cap (dedup (control_channel ss)) = DEDUP_WINDOW" "seen (dedup (control_channel ss)) = map seq_no served"
    and acc: "acceptor srv = Some (dispatched disp a ops served)"
    by (auto simp: relay_ok_def)
  obtain s r where d: "decode_control N P v (ss_session ss) = (s, r)" by fastforce
  note k = decode_control_arrived [OF assms(1,2) ss(2) assms(4-6) d]
  show ?thesis
  proof (cases r)
    case (Inl e)
    with assms(3,7,8,10) ss(1) d k show ?thesis
      by (intro exI [of _ served]) (auto simp: handle_control_def served_grows_def relay_ok_session)
  next
    case (Inr env)
    with k obtain i where i: "i < length ops" "env = env_of ops i" by blast
    obtain acc' ch' st where st: "inbound_status disp (acceptor srv) (control_channel ss) env = (acc', ch', st)"
      by (metis prod_cases3)
    from inbound_status_ok [OF ss(4,3) assms(7-9) i(1) st [unfolded acc i(2)]] obtain served' where
      sv: "served_grows ops served served'" "i \<in> set served'" "acc' = Some (dispatched disp a ops served')"
        "seen (dedup ch') = map seq_no served'" "cap (dedup ch') = DEDUP_WINDOW"
        "st = AckOk \<or> dispatch_answer disp a ops served' i st"
      unfolding served_grows_def by blast
    obtain s2 r2 where e: "encode_control_ack N P \<lparr>ack_seq = env_seq env, ack_status = st\<rparr> s = (s2, r2)" by fastforce
    from encode_control_ack_sealed [OF assms(1) conjunct1 [OF k] e] sv(2,6) i(2)
    have "keyed A ks kc s2" "\<And>n b. r2 = Inr (n, b) \<Longrightarrow> hist_ok A ks (down_ok P disp a ops served') [b]"
      by (fastforce simp: down_ok_def env_of_def)+
    with assms(10) ss(1) d Inr st sv e show ?thesis
      by (intro exI [of _ served'])
        (auto simp: handle_control_def Let_def relay_ok_def split: sum.splits simp del: hist_ok_simps(2))
  qed
qed

text \<open>A handshake message leaves the dispatcher alone and is answered, if at all, by a handshake message.\<close>

lemma handle_handshake1_ok:
  assumes "handle_handshake1 N keys io v src srv = (srv', out)"
  shows "acceptor srv' = acceptor srv" "genuine A k (map fst out) = []"
proof -
  show "acceptor srv' = acceptor srv"
    using assms by (auto simp: handle_handshake1_def Let_def split: sum.splits prod.splits if_splits)
  have "forged A k b" if "half_handshake_complete N half = Inr (s, b)" for half s b
    using that by (auto simp: half_handshake_complete_def forged_def parse_handshake split: sum.splits
        prod.splits if_splits)
  with assms show "genuine A k (map fst out) = []"
    by (auto simp: handle_handshake1_def Let_def genuine_def split: sum.splits prod.splits if_splits)
qed

text \<open>In a session with other keys nothing the client sent and nothing the network makes up opens.\<close>

lemma other_session_deaf:
  assumes "aead_contract N A" "arrives A (recv_key A (transport s)) up b" "hist_ok A kc Q up"
    "recv_key A (transport s) \<noteq> kc" "parse b = Inr v" "decode_packet N t v s = (s', r)"
  shows "\<exists>e. r = Inl e" "keyed A (send_key A (transport s)) (recv_key A (transport s)) s'"
proof -
  have k: "keyed A (send_key A (transport s)) (recv_key A (transport s)) s" by (simp add: keyed_def)
  note d = decode_packet_keyed [OF assms(1) k assms(6)]
  show "keyed A (send_key A (transport s)) (recv_key A (transport s)) s'" using d by blast
  show "\<exists>e. r = Inl e"
  proof (cases r)
    case (Inr p)
    with d obtain n where n: "view_counter v = Some n" "view_body v = seal A (recv_key A (transport s)) n p" by blast
    with assms(2,5) have "b \<in> set up" by (auto simp: arrives_def forged_def)
    with assms(3,5) n obtain q where "seal A kc n q = seal A (recv_key A (transport s)) n p"
      by (fastforce simp: hist_ok_def sealed_def)
    with assms(1,4) show ?thesis unfolding aead_contract_def by blast
  qed simp
qed

lemma other_session_packet:
  assumes "aead_contract N A" "new_keys A kc ks srv" "relay_hears A up srv b" "hist_ok A kc Q up"
    "\<not> is_handshake1 b" "handle_packet N P disp keys io b src srv = (srv', out)"
  shows "new_keys A kc ks srv' \<and> acceptor srv' = acceptor srv \<and> out = []"
proof (cases "parse b")
  case (Inr v)
  from assms(2) obtain ss where ss: "srv_session srv = Some ss" "send_key A (transport (ss_session ss)) \<noteq> ks"
    "recv_key A (transport (ss_session ss)) \<noteq> kc" by (auto simp: new_keys_def)
  with assms(3) have hears: "arrives A (recv_key A (transport (ss_session ss))) up b" by (simp add: relay_hears_def)
  have deaf: "\<exists>s' e. decode_packet N t v (ss_session ss) = (s', Inl e) \<and>
      new_keys A kc ks (srv\<lparr>srv_session := Some (ss\<lparr>ss_session := s'\<rparr>)\<rparr>)" for t
    using other_session_deaf [OF assms(1) hears assms(4) ss(3) Inr] ss(2,3)
    by (cases "decode_packet N t v (ss_session ss)") (fastforce simp: keyed_def new_keys_def)
  from deaf [of Heartbeat] deaf [of Control] assms(2,5,6) Inr ss(1) show ?thesis
    by (cases "view_type v") (auto simp: handle_packet_def is_handshake1_def handle_heartbeat_def decode_heartbeat_def
        handle_control_def decode_control_def)
qed (use assms in \<open>simp add: handle_packet_def\<close>)

lemma other_session_frame:
  assumes "aead_contract N A" "new_keys A kc ks srv" "handle_outbound N P env srv = (srv', out)"
  shows "new_keys A kc ks srv' \<and> acceptor srv' = acceptor srv \<and> genuine A ks (map fst out) = []"
proof -
  from assms(2) obtain ss where ss: "srv_session srv = Some ss" "send_key A (transport (ss_session ss)) \<noteq> ks"
    "recv_key A (transport (ss_session ss)) \<noteq> kc" by (auto simp: new_keys_def)
  let ?env = "env\<lparr>env_seq := next_outbound_seq ss\<rparr>"
  obtain s r where e: "encode_control N P ?env (ss_session ss) = (s, r)" by fastforce
  have k: "keyed A (send_key A (transport (ss_session ss))) (recv_key A (transport (ss_session ss))) (ss_session ss)"
    by (simp add: keyed_def)
  from send_msg_keyed [OF assms(1) k, of P "ControlMsg ?env"] e
  have s: "send_key A (transport s) = send_key A (transport (ss_session ss))"
    "recv_key A (transport s) = recv_key A (transport (ss_session ss))"
    and p: "\<And>n b. r = Inr (n, b) \<Longrightarrow> \<exists>p. sealed A (send_key A (transport (ss_session ss))) Control p b"
    by (auto simp: keyed_def)
  have "seal A (send_key A (transport (ss_session ss))) n p \<noteq> seal A ks n q" for n p q
    using assms(1) ss(2) unfolding aead_contract_def by blast
  with p have "\<And>n b. r = Inr (n, b) \<Longrightarrow> forged A ks b" by (fastforce simp: sealed_def forged_def)
  with s ss assms(3) e show ?thesis
    by (auto simp: handle_outbound_def Let_def new_keys_def genuine_def split: sum.splits)
qed

lemma handle_packet_ok:
  assumes "aead_contract N A" "postcard_contract P" "relay_ok A kc ks disp a ops served srv"
    "relay_hears A up srv b" "hist_ok A kc (up_ok P ops) up" "\<not> is_handshake1 b"
    "distinct served" "list_all (\<lambda>i. i < length ops) served" "length ops \<le> DEDUP_WINDOW"
    "handle_packet N P disp keys io b src srv = (srv', out)"
  shows "\<exists>served'. served_grows ops served served' \<and> relay_ok A kc ks disp a ops served' srv' \<and>
    hist_ok A ks (down_ok P disp a ops served') (map fst out)"
proof -
  have same: "served_grows ops served served" using assms(7,8) by (simp add: served_grows_def)
  have hears: "arrives A kc up b" using assms(3,4) by (auto simp: relay_ok_def relay_hears_def keyed_def)
  show ?thesis
  proof (cases "parse b")
    case (Inl e)
    with assms(3,10) same show ?thesis by (auto simp: handle_packet_def)
  next
    case (Inr v)
    show ?thesis
    proof (cases "view_type v")
      case Heartbeat
      with Inr assms(10) handle_heartbeat_ok [OF assms(1,3), of io v src srv' out P] same show ?thesis
        by (auto simp: handle_packet_def)
    next
      case Control
      with Inr assms(10) handle_control_ok [OF assms(1-3) hears assms(5) Inr assms(7-9)] show ?thesis
        by (simp add: handle_packet_def)
    qed (use Inr assms(3,6,10) same in \<open>auto simp: handle_packet_def is_handshake1_def\<close>)
  qed
qed

lemma relay_step_ok:
  assumes "aead_contract N A" "postcard_contract P" "relay_inv A kc ks disp a ops served srv"
    "relay_hears A up srv b" "hist_ok A kc (up_ok P ops) up"
    "distinct served" "list_all (\<lambda>i. i < length ops) served" "length ops \<le> DEDUP_WINDOW"
    "handle_packet N P disp keys io b src srv = (srv', out)"
    "is_handshake1 b \<Longrightarrow> srv_session srv' = srv_session srv \<or> new_keys A kc ks srv'"
  shows "\<exists>served'. served_grows ops served served' \<and> relay_inv A kc ks disp a ops served' srv' \<and>
    hist_ok A ks (down_ok P disp a ops served') (genuine A ks (map fst out))"
proof (cases "is_handshake1 b")
  case True
  then obtain v where "parse b = Inr v" "view_type v = Handshake1"
    by (auto simp: is_handshake1_def split: sum.splits)
  with assms(9) have h: "handle_handshake1 N keys io v src srv = (srv', out)" by (simp add: handle_packet_def)
  from handle_handshake1_ok(1) [OF h] handle_handshake1_ok(2) [OF h, of A ks] assms(3,6,7) assms(10) [OF True] show ?thesis
    by (intro exI [of _ served]) (auto simp: served_grows_def relay_inv_def relay_ok_def new_keys_def)
next
  case False
  show ?thesis
  proof (cases "relay_ok A kc ks disp a ops served srv")
    case True
    from handle_packet_ok [OF assms(1,2) True assms(4,5) False assms(6-9)] show ?thesis
      by (auto simp: relay_inv_def intro: hist_ok_genuine)
  next
    case other: False
    with assms(3) have "new_keys A kc ks srv" by (simp add: relay_inv_def)
    from other_session_packet [OF assms(1) this assms(4,5) False assms(9)] assms(3,6,7) other show ?thesis
      by (intro exI [of _ served]) (simp add: served_grows_def relay_inv_def)
  qed
qed

lemma relay_frame_ok:
  assumes "aead_contract N A" "relay_inv A kc ks disp a ops served srv" "handle_outbound N P env srv = (srv', out)"
  shows "relay_inv A kc ks disp a ops served srv' \<and>
    hist_ok A ks (down_ok P disp a ops served) (genuine A ks (map fst out))"
proof (cases "relay_ok A kc ks disp a ops served srv")
  case True
  from handle_outbound_ok [OF assms(1) True assms(3)] show ?thesis
    by (simp add: relay_inv_def hist_ok_genuine)
next
  case False
  with assms(2) have "new_keys A kc ks srv" by (simp add: relay_inv_def)
  from other_session_frame [OF assms(1) this assms(3)] False assms(2) show ?thesis by (simp add: relay_inv_def)
qed

section \<open>Every step keeps the invariant\<close>

lemma link_step_taken:
  "link_step N P c disp keys A kc ks l l' \<Longrightarrow> length (lk_taken l) \<le> length (lk_taken l')"
  by (auto elim: link_step.cases)

lemma aead_contract_responder [simp]: "aead_contract (N\<lparr>build_responder := br\<rparr>) A = aead_contract N A"
  by (simp add: aead_contract_def)

lemma link_inv_step:
  assumes "aead_contract N A" "postcard_contract P" "link_step N P c disp keys A kc ks l l'"
    "link_inv P A kc ks disp a served l" "length (lk_taken l') \<le> DEDUP_WINDOW"
  shows "\<exists>served'. link_inv P A kc ks disp a served' l'"
  using assms(3)
proof cases
  case (client_goes_on tn st out ns)
  let ?ops = "lk_taken l" and ?down = "genuine A ks (lk_down l)"
  have inv: "client_ok A kc ks ?ops (lk_client l)" "hist_ok A ks (down_ok P disp a ?ops served) ?down"
    "list_all (\<lambda>i. i < length ?ops) served" "hist_ok A kc (up_ok P ?ops) (lk_up l)"
    "relay_inv A kc ks disp a ?ops served (lk_server l)" "list_all (answer_ok disp a ?ops served) (lk_notified l)"
    "distinct served"
    using assms(4) client_goes_on(2) by (simp_all add: link_inv_def)
  have len: "length (?ops @ turn_ops tn) \<le> DEDUP_WINDOW" using assms(5) client_goes_on(1) by simp
  have arr: "\<forall>b. tn_wake tn = WakeRecv (Some b) \<longrightarrow> arrives A ks ?down (take MAX_PACKET_LEN b)"
    using client_goes_on(3) by (simp add: arrives_genuine)
  note t = client_turn_ok [OF assms(1,2) inv(1) arr inv(2,3) len client_goes_on(4)]
  have "hist_ok A kc (up_ok P (?ops @ turn_ops tn)) (lk_up l)"
    using inv(4) up_ok_append by (rule hist_ok_mono)
  moreover have "relay_inv A kc ks disp a (?ops @ turn_ops tn) served (lk_server l)"
    using inv(3,5) by (simp add: relay_inv_def relay_ok_def dispatched_append)
  moreover have "hist_ok A ks (down_ok P disp a (?ops @ turn_ops tn) served) ?down"
    using inv(2) by (rule hist_ok_mono) (use down_ok_append [OF _ inv(3), of P disp a _ _ _ "[]"] in simp)
  moreover have "list_all (answer_ok disp a (?ops @ turn_ops tn) served) (lk_notified l)"
    using inv(6) answer_ok_append [OF _ inv(3), of disp a _ "turn_ops tn" "[]"] by (simp add: list_all_iff)
  ultimately show ?thesis
    using t inv client_goes_on(1) by (auto simp: link_inv_def list_all_iff intro!: exI [of _ served])
next
  case (client_ends tn r st out ns)
  have "client_ok A kc ks (lk_taken l) (lk_client l)" using assms(4) client_ends(2) by (simp add: link_inv_def)
  from client_turn_last_packets [OF assms(1) this client_ends(3)] client_turn_ended [OF client_ends(3)]
    channel_drop_answers [of disp a "lk_taken l" served] assms(4) client_ends(1)
  show ?thesis by (intro exI [of _ served]) (simp add: link_inv_def)
next
  case (relay_datagram b br io src srv out)
  let ?ops = "lk_taken l"
  have inv: "relay_inv A kc ks disp a ?ops served (lk_server l)" "hist_ok A kc (up_ok P ?ops) (lk_up l)"
    "distinct served" "list_all (\<lambda>i. i < length ?ops) served"
    using assms(4) by (simp_all add: link_inv_def)
  have len: "length ?ops \<le> DEDUP_WINDOW" using assms(5) relay_datagram(1) by simp
  have aead: "aead_contract (N\<lparr>build_responder := br\<rparr>) A" using assms(1) by simp
  from relay_step_ok [OF aead assms(2) inv(1) relay_datagram(2) inv(2-4) len relay_datagram(3,4)] obtain served' where
    sv: "served_grows ?ops served served'" "relay_inv A kc ks disp a ?ops served' srv"
      "hist_ok A ks (down_ok P disp a ?ops served') (genuine A ks (map fst out))" by blast
  then obtain xs where xs: "served' = served @ xs" by (auto simp: served_grows_def)
  have "hist_ok A ks (down_ok P disp a ?ops served) (genuine A ks (lk_down l))"
    using assms(4) by (simp add: link_inv_def)
  then have "hist_ok A ks (down_ok P disp a ?ops served') (genuine A ks (lk_down l))"
    by (rule hist_ok_mono) (use down_ok_append [OF _ inv(4), of P disp a _ _ "[]" xs] xs in simp)
  moreover have "list_all (answer_ok disp a ?ops served') (lk_notified l)"
    using assms(4) answer_ok_append [OF _ inv(4), of disp a _ "[]" xs] xs by (auto simp: link_inv_def list_all_iff)
  ultimately show ?thesis
    using sv assms(4) relay_datagram(1) by (auto simp: link_inv_def served_grows_def intro!: exI [of _ served'])
next
  case (relay_frame env srv out)
  have "relay_inv A kc ks disp a (lk_taken l) served (lk_server l)" using assms(4) by (simp add: link_inv_def)
  from relay_frame_ok [OF assms(1) this relay_frame(2)] assms(4) relay_frame(1) show ?thesis
    by (auto simp: link_inv_def)
qed

lemma link_inv_reach:
  assumes "aead_contract N A" "postcard_contract P" "(link_step N P c disp keys A kc ks)\<^sup>*\<^sup>* l l'"
    "link_inv P A kc ks disp a served l" "length (lk_taken l') \<le> DEDUP_WINDOW"
  shows "\<exists>served'. link_inv P A kc ks disp a served' l'"
  using assms(3,5)
proof (induction rule: rtranclp_induct)
  case base
  then show ?case using assms(4) by blast
next
  case (step l1 l2)
  from step.IH link_step_taken [OF step.hyps(2)] step.prems obtain served1 where
    "link_inv P A kc ks disp a served1 l1" by fastforce
  from link_inv_step [OF assms(1,2) step.hyps(2) this step.prems] show ?case .
qed

lemma length_write_preamble: "length (write_preamble [] t sid) \<le> 40"
  by (cases sid) (simp add: write_preamble_def)

lemma established_inv:
  assumes ik: "ik_contract N pub_of linked" and lk: "\<And>t u. linked t u \<Longrightarrow> send_key A t = recv_key A u"
    and kc: "key_pair_wf (cc_local_keys c)" "kp_public (cc_local_keys c) = pub_of (kp_secret (cc_local_keys c))"
    and kr: "key_pair_wf keys" "kp_public keys = pub_of (kp_secret keys)"
    and up: "cc_upstream_pubkey c = public_key keys"
    and enrolled: "peer_static_key (peer srv0) = Some (public_key (cc_local_keys c))"
    and acc: "acceptor srv0 = Some a0"
    and est: "established N P c disp keys a io src h srv0 l"
    and kk: "keyed A k k' (cl_session (lk_client l))"
  shows "link_inv P A k k' disp a0 [] l"
proof -
  obtain x px y py where k: "cc_local_keys c = KP_X25519 x px" "keys = KP_X25519 y py"
    by (cases "cc_local_keys c"; cases keys) blast
  with kc kr have len: "length x = X25519_SECRET_LEN" "length y = X25519_SECRET_LEN"
    and pub: "px = pub_of x" "py = pub_of y"
    by (auto simp: key_pair_wf_def)
  from ik [unfolded ik_contract_def, rule_format, OF len] obtain i0 i1 i2 r0 r1 r2 m1 m2 ti tr where
    n: "length (pub_of x) = X25519_PUBLIC_LEN"
    "build_initiator N ''Noise_IK_25519_ChaChaPoly_BLAKE2s'' x (pub_of y) = Inr i0"
    "hs_write N i0 [] 256 = (i1, Inr m1)"
    "build_responder N ''Noise_IK_25519_ChaChaPoly_BLAKE2s'' y = Inr r0"
    "hs_read N r0 m1 256 = (r1, Inr [])" "hs_remote_static N r1 = Some (pub_of x)"
    "hs_write N r1 [] 256 = (r2, Inr m2)" "hs_finished N r2" "into_transport_mode N r2 = Inr tr"
    "hs_read N i1 m2 256 = (i2, Inr [])" "hs_finished N i2" "into_transport_mode N i2 = Inr ti"
    and links: "linked ti tr" "linked tr ti" and m2: "length m2 \<le> 256"
    by blast
  let ?sid = "at_session_id a"
  let ?hs1 = "write_preamble [] Handshake1 ?sid @ m1" and ?hs2 = "write_preamble [] Handshake2 ?sid @ m2"
  let ?si = "\<lparr>transport = ti, session_id = ?sid, last_seen_counter = None\<rparr>"
  let ?sr = "\<lparr>transport = tr, session_id = ?sid, last_seen_counter = None\<rparr>"
  from est obtain hs1 reply s srv where e:
    "client_handshake N c (a\<lparr>at_reply := Reply2 reply\<rparr>) = (Inr s, [hs1])"
    "handle_packet N P disp keys io hs1 src srv0 = (srv, [(reply, src)])" "send_ok io"
    "l = \<lparr>lk_client = client_loop_new (at_started a) s h, lk_over = False, lk_server = srv,
          lk_up = [], lk_down = [], lk_taken = [], lk_notified = []\<rparr>"
    by (auto simp: established_def)
  have start: "initiator_start N (cc_local_keys c) (cc_upstream_pubkey c) ?sid =
      Inr (\<lparr>ini_inner = i1, ini_session_id = ?sid\<rparr>, ?hs1)"
    using n by (simp add: initiator_start_def k up pub)
  with e(1) have hs1: "hs1 = ?hs1" by (auto simp: client_handshake_def split: if_splits)
  have "process_handshake_1 N keys \<lparr>view_type = Handshake1, view_session_id = ?sid, view_counter = None, view_body = m1\<rparr> =
      Inr \<lparr>half_inner = r1, half_session_id = ?sid, remote_public = public_key (cc_local_keys c)\<rparr>"
    using n by (simp add: process_handshake_1_def k pub)
  moreover have "half_handshake_complete N \<lparr>half_inner = r1, half_session_id = ?sid,
      remote_public = public_key (cc_local_keys c)\<rparr> = Inr (?sr, ?hs2)"
    using n by (simp add: half_handshake_complete_def)
  ultimately have srv: "reply = ?hs2" "srv = srv0\<lparr>srv_session := Some \<lparr>ss_session = ?sr, last_peer_addr = src,
      started_at = instant io, control_channel = channel_new, next_outbound_seq = 0\<rparr>\<rparr>"
    using e(2,3) enrolled
    by (auto simp: hs1 handle_packet_def parse_handshake handle_handshake1_def)
  have fits: "take MAX_PACKET_LEN reply = ?hs2"
    using m2 length_write_preamble [of Handshake2 ?sid] by (simp add: srv(1) wire_len_defs)
  have "initiator_complete N \<lparr>view_type = Handshake2, view_session_id = ?sid, view_counter = None, view_body = m2\<rparr>
      \<lparr>ini_inner = i1, ini_session_id = ?sid\<rparr> = Inr ?si"
    using n by (simp add: initiator_complete_def)
  with e(1) start fits have s: "s = ?si"
    by (auto simp: client_handshake_def parse_handshake split: if_splits)
  show ?thesis
    using kk links lk acc channel_wf_new
    by (simp add: e(4) s srv(2) link_inv_def client_ok_def client_loop_new_def relay_inv_def relay_ok_def keyed_def
        dispatched_def channel_new_def dedup_new_def bt_empty_def seq_no_def)
qed

section \<open>Properties\<close>

text \<open>
  C1: Within a session of at most 256 control operations, the relay hands each operation to its
  dispatcher at most once. A client and a relay that hold each other's keys complete the handshake.
  Then the network loses, duplicates, delays and reorders packets, adds packets that do not
  authenticate, and adds handshake messages, recorded ones included, which may replace the relay's
  session by one with other keys. However the two sides' steps interleave, the dispatcher's state is
  the result of dispatching distinct operations the client took, each with its own body. A completion
  that the client resolves with success is that of a dispatched operation. One that it resolves with a
  rejection is that of a dispatched operation, and the rejection is what the dispatcher answered. All
  others end with a timeout or with the end of the session. Success does not say that the dispatcher
  accepted the operation: a duplicate is acknowledged with \<open>Ok\<close>, so a rejection whose acknowledgement
  is lost is reported as success.
\<close>

theorem control_dispatched_at_most_once:
  assumes "ik_contract N pub_of linked" "aead_contract N A" "postcard_contract P"
    and "\<And>t u. linked t u \<Longrightarrow> send_key A t = recv_key A u"
    and "key_pair_wf (cc_local_keys c)" "kp_public (cc_local_keys c) = pub_of (kp_secret (cc_local_keys c))"
    and "key_pair_wf keys" "kp_public keys = pub_of (kp_secret keys)"
    and "cc_upstream_pubkey c = public_key keys" "peer_static_key (peer srv0) = Some (public_key (cc_local_keys c))"
    and "acceptor srv0 = Some a0" "established N P c disp keys a io src h srv0 l0"
    and "keyed A kc ks (cl_session (lk_client l0))"
    and "(link_step N P c disp keys A kc ks)\<^sup>*\<^sup>* l0 l" "length (lk_taken l) \<le> 256"
  shows "\<exists>served. distinct served \<and> list_all (\<lambda>i. i < length (lk_taken l)) served \<and>
    acceptor (lk_server l) = Some (dispatched disp a0 (lk_taken l) served) \<and>
    list_all (\<lambda>(tx, r). r \<in> {Inl (Timeout RETX_MAX_ATTEMPTS), Inl ChannelClosed} \<or>
      (\<exists>i\<in>set served. tx = op_completion (lk_taken l ! i) \<and>
        (r = Inr () \<or> (\<exists>st. dispatch_answer disp a0 (lk_taken l) served i st \<and> r = ack_result st)))) (lk_notified l)"
proof -
  have "link_inv P A kc ks disp a0 [] l0"
    by (rule established_inv [OF assms(1,4,5,6,7,8,9,10,11,12,13)])
  from link_inv_reach [OF assms(2,3,14) this] assms(15) obtain served where
    inv: "link_inv P A kc ks disp a0 served l" by (auto simp: DEDUP_WINDOW_def)
  then have "acceptor (lk_server l) = Some (dispatched disp a0 (lk_taken l) served)"
    by (auto simp: link_inv_def relay_inv_def relay_ok_def)
  with inv show ?thesis
    by (intro exI [of _ served]) (simp add: link_inv_def answer_ok_def)
qed

text \<open>
  A concrete library with keys, and a link over it whose dispatcher counts the operations: the
  responder's ephemeral byte \<open>e\<close> becomes the key, and a ciphertext ends with the key and the nonce.
\<close>

type_synonym keyed_hs = "plain_hs \<times> u8"
type_synonym keyed_tr = "u8 \<times> u64 \<times> u64"

fun keyed_hs_write :: "keyed_hs \<Rightarrow> bytes \<Rightarrow> nat \<Rightarrow> keyed_hs \<times> (string + bytes)" where
  "keyed_hs_write ((ini, s, r, n), e) payload len = (((ini, s, r, n + 1), e), Inr (if ini then s else e # s))"

fun keyed_hs_read :: "keyed_hs \<Rightarrow> bytes \<Rightarrow> nat \<Rightarrow> keyed_hs \<times> (string + bytes)" where
  "keyed_hs_read ((ini, s, r, n), e) msg len =
     (if ini then ((ini, s, r, n + 1), hd msg) else ((ini, s, Some msg, n + 1), e), Inr [])"

definition key_seal :: "u8 \<Rightarrow> u64 \<Rightarrow> bytes \<Rightarrow> bytes" where
  "key_seal k n p = p @ k # be_bytes 8 n @ be_bytes 8 n"

fun keyed_tr_write :: "keyed_tr \<Rightarrow> bytes \<Rightarrow> nat \<Rightarrow> keyed_tr \<times> (string + bytes)" where
  "keyed_tr_write (k, n, r) pt len =
     (if length pt + 17 \<le> len then ((k, n + 1, r), Inr (key_seal k n pt)) else ((k, n, r), Inl ''input''))"

fun keyed_tr_read :: "keyed_tr \<Rightarrow> bytes \<Rightarrow> nat \<Rightarrow> keyed_tr \<times> (string + bytes)" where
  "keyed_tr_read (k, n, r) ct len =
     (if ct = key_seal k r (take (length ct - 17) ct)
      then ((k, n, r + 1), Inr (take (length ct - 17) ct)) else ((k, n, r), Inl ''decrypt''))"

definition keyed_noise :: "u8 \<Rightarrow> (keyed_hs, keyed_tr) noise_lib" where
  "keyed_noise e = \<lparr>
     build_initiator = (\<lambda>_ s r. Inr ((True, s, Some r, 0), 0)),
     build_responder = (\<lambda>_ s. Inr ((False, s, None, 0), e)),
     hs_write = keyed_hs_write, hs_read = keyed_hs_read,
     hs_finished = (\<lambda>((_, _, _, n), _). n = 2), hs_remote_static = (\<lambda>((_, _, r, _), _). r),
     into_transport_mode = (\<lambda>(_, k). Inr (k, 0, 0)),
     sending_nonce = (\<lambda>(_, n, _). n), set_receiving_nonce = (\<lambda>(k, n, _) r. (k, n, r)),
     tr_write = keyed_tr_write, tr_read = keyed_tr_read\<rparr>"

definition keyed_aead :: "(keyed_tr, u8) aead" where
  "keyed_aead = \<lparr>send_key = fst, recv_key = fst, seal = key_seal\<rparr>"

lemma keyed_aead_ok: "aead_contract (keyed_noise e) keyed_aead"
  by (auto simp: aead_contract_def keyed_aead_def keyed_noise_def key_seal_def split: if_splits)

lemma keyed_ik: "ik_contract (keyed_noise e) id (\<lambda>t u. fst t = fst u)"
  by (simp add: ik_contract_def keyed_noise_def X25519_SECRET_LEN_def X25519_PUBLIC_LEN_def ex_bool_eq)

definition keyed_session :: "u8 \<Rightarrow> keyed_tr session" where
  "keyed_session k = \<lparr>transport = (k, 0, 0), session_id = SessionId 1 2 3 4, last_seen_counter = None\<rparr>"

definition count_all :: "nat dispatcher" where
  "count_all a t b = (a + 1, AckOk)"

definition counting_server :: "(keyed_tr, nat) server" where
  "counting_server = server_new (Some (X25519 (replicate 32 1))) [] (Some 0)"

definition new_session :: "u8 \<Rightarrow> keyed_tr session_state" where
  "new_session k = \<lparr>ss_session = keyed_session k, last_peer_addr = SockV4 1 1, started_at = 0,
     control_channel = channel_new, next_outbound_seq = 0\<rparr>"

definition keyed_link :: "(keyed_tr, unit, nat) link" where
  "keyed_link = \<lparr>lk_client = client_loop_new 0 (keyed_session 0) (), lk_over = False,
     lk_server = counting_server\<lparr>srv_session := Some (new_session 0)\<rparr>,
     lk_up = [], lk_down = [], lk_taken = [], lk_notified = []\<rparr>"

text \<open>The client's first message, and what the relay does with it whenever it arrives.\<close>

definition first_message :: bytes where
  "first_message = write_preamble [] Handshake1 (SessionId 1 2 3 4) @ replicate 32 1"

definition second_message :: "u8 \<Rightarrow> bytes" where
  "second_message k = write_preamble [] Handshake2 (SessionId 1 2 3 4) @ k # replicate 32 2"

lemma first_message_parse:
  "parse first_message = Inr \<lparr>view_type = Handshake1, view_session_id = SessionId 1 2 3 4, view_counter = None,
     view_body = replicate 32 1\<rparr>"
  by (simp add: first_message_def parse_handshake)

lemma first_message_handled:
  assumes "peer_static_key (peer srv) = Some (X25519 (replicate 32 1))"
  shows "handle_packet ((keyed_noise 0)\<lparr>build_responder := build_responder (keyed_noise k)\<rparr>) plain_postcard count_all
    (plain_key 2) plain_io first_message (SockV4 1 1) srv =
    (srv\<lparr>srv_session := Some (new_session k)\<rparr>, [(second_message k, SockV4 1 1)])"
  using assms
  by (simp add: handle_packet_def first_message_parse handle_handshake1_def process_handshake_1_def plain_key_def
      keyed_noise_def X25519_PUBLIC_LEN_def half_handshake_complete_def plain_io_def new_session_def
      keyed_session_def second_message_def)

lemma keyed_established:
  "established (keyed_noise 0) plain_postcard plain_client count_all (plain_key 2) no_address plain_io (SockV4 1 1) ()
     counting_server keyed_link"
proof -
  have "client_handshake (keyed_noise 0) plain_client (no_address\<lparr>at_reply := Reply2 (second_message 0)\<rparr>)
      = (Inr (keyed_session 0), [first_message])"
    using length_write_preamble [of Handshake2 "SessionId 1 2 3 4"]
    by (simp add: client_handshake_def no_address_def plain_client_def initiator_start_def plain_key_def keyed_noise_def
        wire_len_defs parse_handshake initiator_complete_def keyed_session_def first_message_def second_message_def)
  moreover have "(keyed_noise 0)\<lparr>build_responder := build_responder (keyed_noise 0)\<rparr> = keyed_noise 0"
    by simp
  with first_message_handled [of counting_server 0] have
    "handle_packet (keyed_noise 0) plain_postcard count_all (plain_key 2) plain_io first_message (SockV4 1 1)
      counting_server = (lk_server keyed_link, [(second_message 0, SockV4 1 1)])"
    by (simp add: counting_server_def server_new_def peer_state_new_def keyed_link_def)
  ultimately show ?thesis
    by (auto simp: established_def keyed_link_def plain_io_def no_address_def)
qed

text \<open>The exchange of the concrete link: the operation's packet, and the packet that acknowledges it.\<close>

definition keyed_packet :: "packet_type \<Rightarrow> bytes \<Rightarrow> bytes" where
  "keyed_packet t p = write_counter (write_preamble [] t (SessionId 1 2 3 4)) 0 @ key_seal 0 0 p"

definition op_packet :: bytes where
  "op_packet = keyed_packet Control (be_bytes 4 (1 :: u32) @ [1])"

definition ack_packet :: bytes where
  "ack_packet = keyed_packet ControlAck (be_bytes 4 (1 :: u32) @ [0])"

lemma keyed_packet_parse:
  "has_counter t \<Longrightarrow> parse (keyed_packet t p) = Inr \<lparr>view_type = t, view_session_id = SessionId 1 2 3 4,
     view_counter = Some 0, view_body = key_seal 0 0 p\<rparr>"
  by (simp add: keyed_packet_def parse_post_handshake)

lemma ack_packet_fits [simp]: "take MAX_PACKET_LEN ack_packet = ack_packet"
  using length_write_preamble [of ControlAck "SessionId 1 2 3 4"]
  by (simp add: ack_packet_def keyed_packet_def key_seal_def write_counter_def wire_len_defs)

lemmas keyed_packets_parse =
  keyed_packet_parse [of Control "be_bytes 4 (1 :: u32) @ [1]", folded op_packet_def]
  keyed_packet_parse [of ControlAck "be_bytes 4 (1 :: u32) @ [0]", folded ack_packet_def]

lemma key_seal_open [simp]: "take (length (key_seal k n p) - 17) (key_seal k n p) = p"
  by (simp add: key_seal_def)

lemma key_seal_key [simp]: "key_seal k n p = key_seal j n q \<longleftrightarrow> k = j \<and> p = q"
  by (auto simp: key_seal_def)

lemma link_sends:
  "\<exists>st. client_turn (keyed_noise 0) plain_postcard plain_client (control_at 0 7) (lk_client keyed_link) =
     (Continue st, [op_packet], []) \<and> cl_session st = (keyed_session 0)\<lparr>transport := (0, 1, 0)\<rparr> \<and>
     cl_channel st = fst (the (enqueue 1 [] 7 0 channel_new)) \<and> cl_started st = 0 \<and> cl_last_ack st = None \<and>
     cl_probe st = None"
  by (simp add: client_turn_def control_at_def tick_at_def keyed_link_def client_loop_new_def loop_head_def
      plain_client_def client_wake_def keyed_noise_def keyed_session_def ack_deadline_def ACK_DEADLINE_MULTIPLIER_def
      wire_len_defs enqueue_def channel_new_def Let_def send_envelope_def encode_control_def encode_packet_def
      plain_postcard_def op_packet_def keyed_packet_def)

lemma link_serves:
  "\<exists>srv. handle_packet (keyed_noise 0) plain_postcard count_all (plain_key 2) plain_io op_packet (SockV4 1 1)
     (lk_server keyed_link) = (srv, [(ack_packet, SockV4 1 1)]) \<and>
     peer_static_key (peer srv) = Some (X25519 (replicate 32 1))"
  by (simp add: handle_packet_def keyed_packets_parse handle_control_def keyed_link_def new_session_def
      decode_control_def decode_packet_def keyed_session_def keyed_noise_def plain_postcard_def nth_append
      inbound_status_def on_inbound_def channel_new_def dedup_new_def dedup_contains_def counting_server_def
      server_new_def count_all_def encode_control_ack_def encode_packet_def wire_len_defs ack_packet_def
      keyed_packet_def Let_def peer_state_new_def)

lemma link_receives:
  assumes "cl_session st = (keyed_session 0)\<lparr>transport := (0, 1, 0)\<rparr>"
    "cl_channel st = fst (the (enqueue 1 [] 7 0 channel_new))" "cl_started st = 0" "cl_last_ack st = None"
    "cl_probe st = None"
  shows "\<exists>st'. client_turn (keyed_noise 0) plain_postcard plain_client
     ((tick_at 1)\<lparr>tn_wake := WakeRecv (Some ack_packet)\<rparr>) st = (Continue st', [], [(7, Inr ())])"
  by (simp add: client_turn_def tick_at_def loop_head_def assms plain_client_def ack_deadline_def
      ACK_DEADLINE_MULTIPLIER_def client_wake_def client_recv_def keyed_packets_parse client_control_ack_def
      decode_control_ack_def decode_packet_def keyed_session_def keyed_noise_def plain_postcard_def
      plain_dec_status_def on_ack_def enqueue_def channel_new_def bt_empty_def notify_def Let_def)

lemma link_deaf:
  "\<exists>s. handle_packet (keyed_noise 0) plain_postcard count_all (plain_key 2) plain_io op_packet (SockV4 1 1)
     (srv\<lparr>srv_session := Some (new_session 1)\<rparr>) = (srv\<lparr>srv_session := Some ((new_session 1)\<lparr>ss_session := s\<rparr>)\<rparr>, []) \<and>
     fst (transport s) = 1"
  by (rule exI [of _ "keyed_session 1"])
    (simp add: handle_packet_def keyed_packets_parse handle_control_def new_session_def decode_control_def
      decode_packet_def keyed_session_def keyed_noise_def)

lemma relay_hears_step:
  assumes "relay_hears A (lk_up l) (lk_server l) b"
    "handle_packet (N\<lparr>build_responder := br\<rparr>) P disp keys io b src (lk_server l) = (srv, out)"
    "is_handshake1 b \<Longrightarrow> srv_session srv = srv_session (lk_server l) \<or> new_keys A kc ks srv"
    "l' = l\<lparr>lk_server := srv, lk_down := lk_down l @ map fst out\<rparr>"
  shows "link_step N P c disp keys A kc ks l l'"
  using link_step.relay_datagram [OF assms(1-3)] assms(4) by simp

text \<open>
  The link's run: the operation is sent, served and acknowledged; then the recorded first message
  replaces the relay's session, and the recorded operation reaches it again.
\<close>

lemma keyed_run:
  "\<exists>l. (link_step (keyed_noise 0) plain_postcard plain_client count_all (plain_key 2) keyed_aead 0 0)\<^sup>*\<^sup>* keyed_link l \<and>
     lk_notified l = [(7, Inr ())] \<and> lk_taken l = turn_ops (control_at 0 7) \<and> new_keys keyed_aead 0 0 (lk_server l)"
proof -
  let ?step = "link_step (keyed_noise 0) plain_postcard plain_client count_all (plain_key 2) keyed_aead 0 0"
  let ?handle = "\<lambda>k. handle_packet ((keyed_noise 0)\<lparr>build_responder := build_responder (keyed_noise k)\<rparr>) plain_postcard
    count_all (plain_key 2) plain_io"
  let ?ops = "turn_ops (control_at 0 7)" and ?src = "SockV4 1 1"
  have same: "(keyed_noise 0)\<lparr>build_responder := build_responder (keyed_noise 0)\<rparr> = keyed_noise 0" by simp
  from link_sends obtain st where send: "client_turn (keyed_noise 0) plain_postcard plain_client (control_at 0 7)
      (lk_client keyed_link) = (Continue st, [op_packet], [])"
    and st: "cl_session st = (keyed_session 0)\<lparr>transport := (0, 1, 0)\<rparr>"
      "cl_channel st = fst (the (enqueue 1 [] 7 0 channel_new))" "cl_started st = 0" "cl_last_ack st = None"
      "cl_probe st = None" by blast
  from link_serves obtain srv where serve: "?handle 0 op_packet ?src (lk_server keyed_link) = (srv, [(ack_packet, ?src)])"
    and peer: "peer_static_key (peer srv) = Some (X25519 (replicate 32 1))" unfolding same by blast
  from link_receives [OF st] obtain st' where recv: "client_turn (keyed_noise 0) plain_postcard plain_client
      ((tick_at 1)\<lparr>tn_wake := WakeRecv (Some ack_packet)\<rparr>) st = (Continue st', [], [(7, Inr ())])" by blast
  let ?srv1 = "srv\<lparr>srv_session := Some (new_session 1)\<rparr>"
  note replay = first_message_handled [OF peer, of 1]
  from link_deaf [of srv] obtain s where
    deaf: "?handle 0 op_packet ?src ?srv1 = (srv\<lparr>srv_session := Some ((new_session 1)\<lparr>ss_session := s\<rparr>)\<rparr>, [])"
    and s: "fst (transport s) = 1" unfolding same by blast
  let ?l1 = "keyed_link\<lparr>lk_client := st, lk_up := [op_packet], lk_taken := ?ops, lk_notified := []\<rparr>"
  let ?l2 = "?l1\<lparr>lk_server := srv, lk_down := [ack_packet]\<rparr>"
  let ?l3 = "?l2\<lparr>lk_client := st', lk_up := [op_packet], lk_taken := ?ops, lk_notified := [(7, Inr ())]\<rparr>"
  let ?l4 = "?l3\<lparr>lk_server := ?srv1, lk_down := [ack_packet, second_message 1]\<rparr>"
  let ?l5 = "?l4\<lparr>lk_server := srv\<lparr>srv_session := Some ((new_session 1)\<lparr>ss_session := s\<rparr>)\<rparr>,
    lk_down := [ack_packet, second_message 1]\<rparr>"
  have l0: "\<not> lk_over keyed_link" "lk_up keyed_link = []" "lk_down keyed_link = []" "lk_taken keyed_link = []"
    "lk_notified keyed_link = []" by (simp_all add: keyed_link_def)
  note heard = l0 relay_hears_def arrives_def is_handshake1_def keyed_packets_parse first_message_parse forged_def
    new_keys_def keyed_aead_def new_session_def keyed_session_def
  have "?step keyed_link ?l1"
    using link_step.client_goes_on [OF l0(1) _ send] by (simp add: l0 control_at_def)
  moreover have "?step ?l1 ?l2"
    by (rule relay_hears_step [where b = op_packet and io = plain_io and src = ?src and srv = srv
          and out = "[(ack_packet, ?src)]" and br = "build_responder (keyed_noise 0)"])
      (use serve in \<open>simp_all add: heard split: option.split\<close>)
  moreover have "?step ?l2 ?l3"
    using link_step.client_goes_on [where l = ?l2 and tn = "(tick_at 1)\<lparr>tn_wake := WakeRecv (Some ack_packet)\<rparr>"
        and N = "keyed_noise 0" and P = plain_postcard and c = plain_client and disp = count_all and keys = "plain_key 2"
        and A = keyed_aead and kc = 0 and ks = 0] recv l0(1)
    by (simp add: arrives_def turn_ops_def)
  moreover have "?step ?l3 ?l4"
    by (rule relay_hears_step [where b = first_message and io = plain_io and src = ?src and srv = ?srv1
          and out = "[(second_message 1, ?src)]" and br = "build_responder (keyed_noise 1)"])
      (use replay in \<open>simp_all add: heard split: option.split\<close>)
  moreover have "?step ?l4 ?l5"
    by (rule relay_hears_step [where b = op_packet and io = plain_io and src = ?src
          and srv = "srv\<lparr>srv_session := Some ((new_session 1)\<lparr>ss_session := s\<rparr>)\<rparr>" and out = "[]"
          and br = "build_responder (keyed_noise 0)"])
      (use deaf in \<open>simp_all add: heard split: option.split\<close>)
  ultimately have "?step\<^sup>*\<^sup>* keyed_link ?l5" by (meson rtranclp.rtrancl_into_rtrancl rtranclp.rtrancl_refl)
  moreover have "new_keys keyed_aead 0 0 (lk_server ?l5)" using s by (simp add: new_keys_def keyed_aead_def)
  ultimately show ?thesis by (intro exI [of _ ?l5]) simp
qed

theorem control_dispatched_at_most_once_witness:
  "\<exists>l. (link_step (keyed_noise 0) plain_postcard plain_client count_all (plain_key 2) keyed_aead 0 0)\<^sup>*\<^sup>* keyed_link l \<and>
     lk_notified l = [(7, Inr ())] \<and> new_keys keyed_aead 0 0 (lk_server l) \<and> acceptor (lk_server l) = Some 1"
proof -
  from keyed_run obtain l where
    run: "(link_step (keyed_noise 0) plain_postcard plain_client count_all (plain_key 2) keyed_aead 0 0)\<^sup>*\<^sup>* keyed_link l"
    and l: "lk_notified l = [(7, Inr ())]" "lk_taken l = turn_ops (control_at 0 7)" "new_keys keyed_aead 0 0 (lk_server l)"
    by blast
  have "\<exists>served. distinct served \<and> list_all (\<lambda>i. i < length (lk_taken l)) served \<and>
    acceptor (lk_server l) = Some (dispatched count_all 0 (lk_taken l) served) \<and>
    list_all (\<lambda>(tx, r). r \<in> {Inl (Timeout RETX_MAX_ATTEMPTS), Inl ChannelClosed} \<or>
      (\<exists>i\<in>set served. tx = op_completion (lk_taken l ! i) \<and>
        (r = Inr () \<or> (\<exists>st. dispatch_answer count_all 0 (lk_taken l) served i st \<and> r = ack_result st)))) (lk_notified l)"
    by (rule control_dispatched_at_most_once [OF keyed_ik keyed_aead_ok plain_postcard_ok _ _ _ _ _ _ _ _ keyed_established _ run])
      (simp_all add: keyed_aead_def plain_key_def key_pair_wf_def plain_client_def X25519_SECRET_LEN_def l(2)
        X25519_PUBLIC_LEN_def counting_server_def server_new_def peer_state_new_def keyed_def turn_ops_def control_at_def
        keyed_link_def client_loop_new_def keyed_session_def)
  then obtain served where sv: "distinct served" "list_all (\<lambda>i. i = 0) served"
    "acceptor (lk_server l) = Some (dispatched count_all 0 (lk_taken l) served)" "served \<noteq> []"
    by (elim exE conjE) (force simp: l turn_ops_def control_at_def)
  then have "served = [0]" by (cases served; cases "tl served") auto
  with sv(3) have "acceptor (lk_server l) = Some 1" by (simp add: count_all_def dispatched_def)
  with run l show ?thesis by blast
qed

end
