(* ===== verification/Resolver.thy ===== *)
theory Resolver
  imports Peer_State Chain_Query Rules
begin

text \<open>
  Where a listener dials (crate \<open>yggdrasil\<close>, file \<open>proxy/resolver.rs\<close>): the resolver a rule gets in each
  daemon mode, its current target, and the refresh task behind a DNS target. The peer state a
  dynamic resolver shares is an argument of \<open>current_target\<close>; the latest value of the DNS watch
  channel is part of the resolver.
\<close>

section \<open>Resolvers\<close>

datatype upstream_resolver =
    ResolverDynamic u16
  | ResolverStatic socket_addr
  | ResolverDns string u16 "socket_addr option"

fun current_target :: "peer_state \<Rightarrow> upstream_resolver \<Rightarrow> socket_addr option" where
  "current_target ps (ResolverDynamic port) = map_option (\<lambda>ip. sa_new ip port) (current_ip ps)"
| "current_target ps (ResolverStatic addr) = Some addr"
| "current_target ps (ResolverDns _ _ current) = current"

datatype watch_handle = WatchDynamic | NeverFires

fun watch_ip_changes :: "upstream_resolver \<Rightarrow> watch_handle" where
  "watch_ip_changes (ResolverDynamic _) = WatchDynamic"
| "watch_ip_changes _ = NeverFires"

fun describe :: "upstream_resolver \<Rightarrow> string" where
  "describe (ResolverDynamic port) = ''dynamic:peer:'' @ show_nat (unat port)"
| "describe (ResolverStatic addr) = ''static:'' @ show_socket_addr addr"
| "describe (ResolverDns host port _) = ''dns:'' @ host @ '':'' @ show_nat (unat port)"

fun is_dynamic :: "upstream_resolver \<Rightarrow> bool" where
  "is_dynamic (ResolverDynamic _) = True"
| "is_dynamic _ = False"

section \<open>The DNS refresh task\<close>

text \<open>
  One round of the loop: the result of \<open>lookup_host\<close>, whether a receiver was left when the result
  was sent, and whether the channel was closed at the end of the round.
\<close>

record dns_round =
  dr_lookup :: "socket_addr list option"
  dr_receiver :: bool
  dr_closed :: bool

text \<open>The value of the watch channel after the rounds, and whether the task is still running.\<close>

fun dns_refresh :: "dns_round list \<Rightarrow> socket_addr option \<Rightarrow> socket_addr option \<times> bool" where
  "dns_refresh [] current = (current, True)"
| "dns_refresh (r # rs) current =
     (case dr_lookup r of
        Some (addr # _) \<Rightarrow>
          if \<not> dr_receiver r then (current, False)
          else if dr_closed r then (Some addr, False) else dns_refresh rs (Some addr)
      | _ \<Rightarrow> if dr_closed r then (current, False) else dns_refresh rs current)"

section \<open>Building a resolver for a rule\<close>

record resolver_factory =
  rf_mode :: mode
  rf_has_peer_state :: bool

definition new_relay :: resolver_factory where
  "new_relay = \<lparr>rf_mode = Relay, rf_has_peer_state = True\<rparr>"

definition new_gateway :: resolver_factory where
  "new_gateway = \<lparr>rf_mode = Gateway, rf_has_peer_state = True\<rparr>"

definition new_terminal :: resolver_factory where
  "new_terminal = \<lparr>rf_mode = Terminal, rf_has_peer_state = False\<rparr>"

datatype resolver_build_error = ModeMismatch string mode string | Internal string

definition parsed_target :: "rule \<Rightarrow> resolver_build_error + target option" where
  "parsed_target r =
     (case Rules.rule.target r of
        None \<Rightarrow> Inr None
      | Some s \<Rightarrow>
          (case target_parse s of
             Inl _ \<Rightarrow> Inl (Internal ''rule has unparseable target string (validation bug)'')
           | Inr t \<Rightarrow> Inr (Some t)))"

definition build :: "resolver_factory \<Rightarrow> rule \<Rightarrow> resolver_build_error + upstream_resolver" where
  "build f r =
     rbind (parsed_target r) (\<lambda>t.
     case (rf_mode f, target_port r, t) of
       (Terminal, None, Some (Static addr)) \<Rightarrow> Inr (ResolverStatic addr)
     | (Terminal, None, Some (Dns host port)) \<Rightarrow> Inr (ResolverDns host port None)
     | (Terminal, Some _, None) \<Rightarrow>
         Inl (ModeMismatch (rule_name r) Terminal
           ''rule has target_port (relay-style) but daemon is in terminal mode; relay rules cannot run on a terminal'')
     | (_, Some port, None) \<Rightarrow>
         if rf_has_peer_state f then Inr (ResolverDynamic port)
         else Inl (Internal ''relay-mode factory has no peer_state (logic error)'')
     | (m, None, Some _) \<Rightarrow>
         Inl (ModeMismatch (rule_name r) m
           ''rule has target (terminal-style) but daemon accepts inbound chain traffic; terminal rules cannot run on a relay or gateway'')
     | (_, Some _, Some _) \<Rightarrow> Inl (Internal ''rule has both target_port and target set (validation bug)'')
     | (_, None, None) \<Rightarrow> Inl (Internal ''rule has neither target_port nor target set (validation bug)''))"

section \<open>Properties\<close>

text \<open>
  C39: Building a resolver succeeds exactly when the rule's shape fits the mode. For every rule that
  passed validation and every factory the daemon makes, a relay or gateway gets a dynamic
  resolver on the rule's port, a terminal gets the parsed target, and the only error is the mode
  mismatch: the internal errors cannot occur.
\<close>

theorem resolver_build_exact:
  assumes "rule_validate r = Inr ()" "f \<in> {new_relay, new_gateway, new_terminal}"
  shows "case build f r of
      Inr (ResolverDynamic port) \<Rightarrow> rf_mode f \<noteq> Terminal \<and> target_port r = Some port \<and> port \<noteq> 0
    | Inr (ResolverStatic addr) \<Rightarrow>
        rf_mode f = Terminal \<and> (\<exists>s. Rules.rule.target r = Some s \<and> target_parse s = Inr (Static addr))
    | Inr (ResolverDns host port current) \<Rightarrow>
        rf_mode f = Terminal \<and> current = None \<and> (\<exists>s. Rules.rule.target r = Some s \<and> target_parse s = Inr (Dns host port))
    | Inl (ModeMismatch name m _) \<Rightarrow> name = rule_name r \<and> m = rf_mode f \<and> (m = Terminal \<longleftrightarrow> target_port r \<noteq> None)
    | Inl (Internal _) \<Rightarrow> False"
proof -
  have ok: "rule_ok r" using assms(1) by (simp add: rule_validate_ok)
  show ?thesis
  proof (cases "target_port r")
    case None
    with ok obtain s where s: "Rules.rule.target r = Some s" "is_ok (target_parse s)"
      by (auto simp: rule_ok_def)
    then obtain t where "target_parse s = Inr t" by (cases "target_parse s") (auto simp: is_ok_def)
    with s(1) None assms(2) show ?thesis
      by (cases t) (auto simp: build_def parsed_target_def new_relay_def new_gateway_def new_terminal_def)
  next
    case (Some p)
    with ok have "Rules.rule.target r = None" "p \<noteq> 0" by (auto simp: rule_ok_def)
    with Some assms(2) show ?thesis
      by (auto simp: build_def parsed_target_def new_relay_def new_gateway_def new_terminal_def)
  qed
qed

theorem resolver_build_exact_witness:
  "build new_relay (plain_rule ''a'' 1 2) = Inr (ResolverDynamic 2)"
proof -
  have v: "rule_validate (plain_rule ''a'' 1 2) = Inr ()"
    by (simp add: plain_rule_def rule_validate_def validate_l4_def utf8_chars_ascii is_whitespace_def is_control_def)
  from resolver_build_exact [OF v, of new_relay] show ?thesis
    by (auto simp: plain_rule_def new_relay_def split: sum.splits resolver_build_error.splits upstream_resolver.splits)
qed

text \<open>A failed or empty lookup keeps the target; a running task holds the latest address it found.\<close>

lemma dns_refresh_retains:
  assumes "dns_refresh rs current = (v, True)"
  shows "v = foldl (\<lambda>c r. case dr_lookup r of Some (a # _) \<Rightarrow> Some a | _ \<Rightarrow> c) current rs"
  using assms
  by (induction rs arbitrary: current) (auto split: option.splits list.splits if_splits)

end
