(* ===== verification/Canary_Table.thy ===== *)
theory Canary_Table
  imports Rules "HOL-Library.AList"
begin

text \<open>
  The canary arm table (crate \<open>yggdrasil\<close>, file \<open>proxy/canary.rs\<close>; the length of a token is a constant of
  \<open>canary.rs\<close> in \<open>ratatoskr\<close>): per listener, the tokens
  whose probe traffic is echoed, each with an expiry. The concurrent hash map is an
  association list with distinct keys; readings of the monotonic clock (milliseconds) are
  arguments. \<open>disarm\<close> releases the shard between its two accesses, so it is the composition of
  two steps.
\<close>

section \<open>Operations\<close>

definition CANARY_TOKEN_LEN :: nat where "CANARY_TOKEN_LEN = 32"

record arm_entry =
  token :: bytes
  expires_at :: nat

type_synonym arm_key = "socket_addr \<times> protocol"
type_synonym arm_table = "(arm_key \<times> arm_entry list) list"

definition live :: "nat \<Rightarrow> arm_entry \<Rightarrow> bool" where
  "live now e \<longleftrightarrow> expires_at e > now"

definition is_armed :: "nat \<Rightarrow> arm_table \<Rightarrow> arm_key \<Rightarrow> bool" where
  "is_armed now t k =
     (case map_of t k of
        Some entries \<Rightarrow> list_ex (live now) entries
      | None \<Rightarrow> False)"

definition match_token :: "nat \<Rightarrow> arm_table \<Rightarrow> arm_key \<Rightarrow> bytes \<Rightarrow> bool" where
  "match_token now t k candidate =
     (case map_of t k of
        Some entries \<Rightarrow> list_ex (\<lambda>e. live now e \<and> token e = candidate) entries
      | None \<Rightarrow> False)"

text \<open>\<open>iter_mut().find(..)\<close> on the token, or \<open>push\<close> when there is none.\<close>

fun refresh :: "bytes \<Rightarrow> nat \<Rightarrow> arm_entry list \<Rightarrow> arm_entry list" where
  "refresh tok x [] = [\<lparr>token = tok, expires_at = x\<rparr>]"
| "refresh tok x (e # es) =
     (if token e = tok then e\<lparr>expires_at := x\<rparr> # es else e # refresh tok x es)"

definition arm :: "nat \<Rightarrow> nat \<Rightarrow> arm_key \<Rightarrow> bytes \<Rightarrow> nat \<Rightarrow> arm_table \<Rightarrow> arm_table" where
  "arm t0 now k tok ttl t =
     (let expires = t0 + ttl;
          entry = (case map_of t k of Some es \<Rightarrow> es | None \<Rightarrow> [])
      in AList.update k (refresh tok expires (filter (live now) entry)) t)"

definition disarm_retain :: "arm_key \<Rightarrow> bytes \<Rightarrow> arm_table \<Rightarrow> arm_table \<times> bool" where
  "disarm_retain k tok t =
     (case map_of t k of
        None \<Rightarrow> (t, False)
      | Some es \<Rightarrow>
          let es = filter (\<lambda>e. token e \<noteq> tok) es in (AList.update k es t, es = []))"

definition disarm_remove :: "arm_key \<Rightarrow> bool \<Rightarrow> arm_table \<Rightarrow> arm_table" where
  "disarm_remove k was_empty t = (if was_empty then AList.delete k t else t)"

definition disarm :: "arm_key \<Rightarrow> bytes \<Rightarrow> arm_table \<Rightarrow> arm_table" where
  "disarm k tok t = (case disarm_retain k tok t of (t, was_empty) \<Rightarrow> disarm_remove k was_empty t)"

definition purge_expired :: "nat \<Rightarrow> arm_table \<Rightarrow> arm_table" where
  "purge_expired now t =
     filter (\<lambda>(_, es). es \<noteq> []) (map (\<lambda>(k, es). (k, filter (live now) es)) t)"

definition active_count :: "nat \<Rightarrow> arm_table \<Rightarrow> nat" where
  "active_count now t = sum_list (map (\<lambda>(_, es). length (filter (live now) es)) t)"

section \<open>Sequences of operations\<close>

datatype arm_op = Arm nat nat arm_key bytes nat | Disarm arm_key bytes | Purge nat

primrec arm_step :: "arm_table \<Rightarrow> arm_op \<Rightarrow> arm_table" where
  "arm_step t (Arm t0 now k tok ttl) = arm t0 now k tok ttl t"
| "arm_step t (Disarm k tok) = disarm k tok t"
| "arm_step t (Purge now) = purge_expired now t"

text \<open>The contract: per listener and token, the expiry of the last arm not yet disarmed.\<close>

type_synonym arm_spec = "arm_key \<Rightarrow> bytes \<Rightarrow> nat option"

primrec spec_step :: "arm_spec \<Rightarrow> arm_op \<Rightarrow> arm_spec" where
  "spec_step s (Arm t0 now k tok ttl) = s(k := (s k)(tok := Some (t0 + ttl)))"
| "spec_step s (Disarm k tok) = s(k := (s k)(tok := None))"
| "spec_step s (Purge now) = s"

text \<open>The clock readings of a run do not go back; the result is the last reading.\<close>

fun clock_run :: "nat \<Rightarrow> arm_op list \<Rightarrow> nat option" where
  "clock_run c [] = Some c"
| "clock_run c (Arm t0 now k tok ttl # ops) = (if c \<le> t0 \<and> t0 \<le> now then clock_run now ops else None)"
| "clock_run c (Disarm k tok # ops) = clock_run c ops"
| "clock_run c (Purge now # ops) = (if c \<le> now then clock_run now ops else None)"

section \<open>Refinement\<close>

declare split_paired_All [simp del] split_paired_Ex [simp del]

definition entries :: "arm_table \<Rightarrow> arm_key \<Rightarrow> arm_entry list" where
  "entries t k = (case map_of t k of Some es \<Rightarrow> es | None \<Rightarrow> [])"

definition expiry :: "arm_entry list \<Rightarrow> bytes \<Rightarrow> nat option" where
  "expiry es = map_of (map (\<lambda>e. (token e, expires_at e)) es)"

definition tokens_ok :: "arm_table \<Rightarrow> bool" where
  "tokens_ok t \<longleftrightarrow> distinct (map fst t) \<and> (\<forall>k. distinct (map token (entries t k)))"

text \<open>At clock \<open>c\<close> the table knows every expiry of the specification that is still ahead.\<close>

definition arm_sim :: "nat \<Rightarrow> arm_table \<Rightarrow> arm_spec \<Rightarrow> bool" where
  "arm_sim c t s \<longleftrightarrow> tokens_ok t \<and>
     (\<forall>k tok. expiry (entries t k) tok = s k tok
        \<or> expiry (entries t k) tok = None \<and> (\<exists>x. s k tok = Some x \<and> x \<le> c))"

lemma expiry_simps [simp]:
  "expiry [] = Map.empty"
  "expiry (e # es) = (expiry es)(token e \<mapsto> expires_at e)"
  by (simp_all add: expiry_def)

lemma expiry_None: "tok \<notin> token ` set es \<Longrightarrow> expiry es tok = None"
  by (induction es) auto

lemma expiry_mem: "distinct (map token es) \<Longrightarrow> e \<in> set es \<Longrightarrow> expiry es (token e) = Some (expires_at e)"
  by (induction es) (auto simp: image_iff)

lemma expiry_Some: "expiry es tok = Some x \<Longrightarrow> \<exists>e\<in>set es. token e = tok \<and> expires_at e = x"
  by (induction es) (auto split: if_splits)

lemma expiry_live:
  "distinct (map token es) \<Longrightarrow> expiry (filter (live now) es) tok =
     (case expiry es tok of Some x \<Rightarrow> if now < x then Some x else None | None \<Rightarrow> None)"
  by (induction es) (auto simp: live_def expiry_None split: option.splits)

lemma expiry_without:
  "expiry (filter (\<lambda>e. token e \<noteq> tok) es) = (expiry es)(tok := None)"
  by (induction es) auto

lemma expiry_refresh: "expiry (refresh tok x es) = (expiry es)(tok \<mapsto> x)"
  by (induction es) auto

lemma tokens_refresh: "token ` set (refresh tok x es) = insert tok (token ` set es)"
  by (induction es) auto

lemma distinct_refresh: "distinct (map token es) \<Longrightarrow> distinct (map token (refresh tok x es))"
proof (induction es)
  case (Cons e es)
  then show ?case using tokens_refresh [of tok x es] by (auto simp: image_iff)
qed simp

lemma distinct_token_filter: "distinct (map token es) \<Longrightarrow> distinct (map token (filter P es))"
  by (induction es) auto

lemma list_ex_live:
  "distinct (map token es) \<Longrightarrow>
     list_ex (\<lambda>e. live now e \<and> token e = tok) es \<longleftrightarrow> (\<exists>x. expiry es tok = Some x \<and> now < x)"
  by (auto simp: list_ex_iff live_def dest: expiry_mem dest!: expiry_Some)

lemma match_token_expiry:
  "tokens_ok t \<Longrightarrow> match_token now t k tok \<longleftrightarrow> (\<exists>x. expiry (entries t k) tok = Some x \<and> now < x)"
proof -
  assume "tokens_ok t"
  then have "distinct (map token (entries t k))" by (simp add: tokens_ok_def)
  from list_ex_live [OF this, of now tok] show ?thesis
    by (cases "map_of t k") (simp_all add: match_token_def entries_def)
qed

lemma is_armed_match: "is_armed now t k \<longleftrightarrow> (\<exists>tok. match_token now t k tok)"
  by (auto simp: is_armed_def match_token_def list_ex_iff split: option.splits)

lemma entries_update [simp]: "entries (AList.update k es t) = (entries t)(k := es)"
  by (auto simp: entries_def update_conv')

lemma entries_delete [simp]: "entries (AList.delete k t) = (entries t)(k := [])"
  by (auto simp: entries_def delete_conv')

lemma map_of_purge:
  "distinct (map fst t) \<Longrightarrow> map_of (purge_expired now t) k =
     (case map_of t k of None \<Rightarrow> None
      | Some es \<Rightarrow> if filter (live now) es = [] then None else Some (filter (live now) es))"
proof (induction t)
  case (Cons kes t)
  obtain k' es' where kes: "kes = (k', es')" by (cases kes)
  show ?case
  proof (cases "k = k'")
    case True
    with Cons.prems kes have "map_of t k = None" by (simp add: map_of_eq_None_iff)
    with Cons kes True show ?thesis by (auto simp: purge_expired_def)
  next
    case False
    with Cons kes show ?thesis by (auto simp: purge_expired_def)
  qed
qed (simp add: purge_expired_def)

lemma entries_purge:
  "distinct (map fst t) \<Longrightarrow> entries (purge_expired now t) k = filter (live now) (entries t k)"
  by (auto simp: entries_def map_of_purge split: option.splits)

lemma keys_purge: "distinct (map fst t) \<Longrightarrow> distinct (map fst (purge_expired now t))"
  by (simp add: purge_expired_def distinct_map_filter split_def comp_def)

lemma entries_disarm:
  "entries (disarm k tok t) = (entries t)(k := filter (\<lambda>e. token e \<noteq> tok) (entries t k))"
proof (cases "map_of t k")
  case None
  then show ?thesis
    by (auto simp: disarm_def disarm_retain_def disarm_remove_def entries_def fun_eq_iff)
next
  case (Some es)
  then have "entries t k = es" by (simp add: entries_def)
  with Some show ?thesis
    by (auto simp: disarm_def disarm_retain_def disarm_remove_def Let_def fun_eq_iff)
qed

lemma keys_disarm: "distinct (map fst t) \<Longrightarrow> distinct (map fst (disarm k tok t))"
  by (auto simp: disarm_def disarm_retain_def disarm_remove_def Let_def distinct_update distinct_delete
      split: option.splits)

text \<open>Forgetting an expiry that the clock has passed keeps the simulation.\<close>

definition forget :: "nat \<Rightarrow> nat option \<Rightarrow> nat option" where
  "forget now x = (case x of Some e \<Rightarrow> if now < e then Some e else None | None \<Rightarrow> None)"

definition tok_sim :: "nat \<Rightarrow> nat option \<Rightarrow> nat option \<Rightarrow> bool" where
  "tok_sim c a s \<longleftrightarrow> a = s \<or> a = None \<and> (\<exists>x. s = Some x \<and> x \<le> c)"

lemma tok_sim_forget: "tok_sim c a s \<Longrightarrow> c \<le> now \<Longrightarrow> tok_sim now (forget now a) s"
  by (auto simp: tok_sim_def forget_def split: option.split)

lemma tok_sim_later: "tok_sim c a s \<Longrightarrow> c \<le> now \<Longrightarrow> tok_sim now a s"
  by (auto simp: tok_sim_def)

lemma tok_sim_live: "tok_sim c a s \<Longrightarrow> c \<le> now \<Longrightarrow> (\<exists>x. a = Some x \<and> now < x) \<longleftrightarrow> (\<exists>x. s = Some x \<and> now < x)"
  by (auto simp: tok_sim_def)

lemma arm_sim_iff: "arm_sim c t s \<longleftrightarrow> tokens_ok t \<and> (\<forall>k tok. tok_sim c (expiry (entries t k) tok) (s k tok))"
  by (simp add: arm_sim_def tok_sim_def)

lemma arm_sim_arm:
  assumes "arm_sim c t s" and "c \<le> t0" and "t0 \<le> now"
  shows "arm_sim now (arm t0 now k tok ttl t) (spec_step s (Arm t0 now k tok ttl))"
proof -
  from assms(1) have wf: "tokens_ok t" and sim: "\<And>k tok. tok_sim c (expiry (entries t k) tok) (s k tok)"
    by (auto simp: arm_sim_iff)
  from assms have le: "c \<le> now" by simp
  let ?es = "refresh tok (t0 + ttl) (filter (live now) (entries t k))"
  have a: "entries (arm t0 now k tok ttl t) = (entries t)(k := ?es)"
    by (simp add: arm_def Let_def entries_def)
  have d: "distinct (map token (entries t k'))" for k' using wf by (simp add: tokens_ok_def)
  have "tokens_ok (arm t0 now k tok ttl t)"
    using wf a by (auto simp: tokens_ok_def distinct_refresh distinct_token_filter arm_def Let_def distinct_update)
  moreover have "expiry ?es tok' = (if tok' = tok then Some (t0 + ttl) else forget now (expiry (entries t k) tok'))"
    for tok' using expiry_live [OF d [of k]] by (simp add: expiry_refresh forget_def)
  moreover have "tok_sim now (Some (t0 + ttl)) (Some (t0 + ttl))" by (simp add: tok_sim_def)
  ultimately show ?thesis
    using tok_sim_forget [OF sim le] tok_sim_later [OF sim le] by (simp add: arm_sim_iff a)
qed

lemma arm_sim_disarm:
  assumes "arm_sim c t s"
  shows "arm_sim c (disarm k tok t) (spec_step s (Disarm k tok))"
proof -
  from assms have wf: "tokens_ok t" and sim: "\<And>k tok. tok_sim c (expiry (entries t k) tok) (s k tok)"
    by (auto simp: arm_sim_iff)
  from wf have "tokens_ok (disarm k tok t)"
    by (auto simp: tokens_ok_def entries_disarm keys_disarm distinct_token_filter)
  moreover have "tok_sim c None None" by (simp add: tok_sim_def)
  ultimately show ?thesis using sim by (simp add: arm_sim_iff entries_disarm expiry_without)
qed

lemma arm_sim_purge:
  assumes "arm_sim c t s" and "c \<le> now"
  shows "arm_sim now (purge_expired now t) s"
proof -
  from assms(1) have wf: "distinct (map fst t)" and d: "\<And>k. distinct (map token (entries t k))"
    and sim: "\<And>k tok. tok_sim c (expiry (entries t k) tok) (s k tok)"
    by (auto simp: arm_sim_iff tokens_ok_def)
  have "tokens_ok (purge_expired now t)"
    using wf d by (simp add: tokens_ok_def keys_purge entries_purge distinct_token_filter)
  moreover have "expiry (entries (purge_expired now t) k) tok = forget now (expiry (entries t k) tok)" for k tok
    using expiry_live [OF d [of k]] wf by (simp add: entries_purge forget_def)
  ultimately show ?thesis using tok_sim_forget [OF sim assms(2)] by (simp add: arm_sim_iff)
qed

lemma arm_sim_run:
  "arm_sim c t s \<Longrightarrow> clock_run c ops = Some c' \<Longrightarrow> arm_sim c' (foldl arm_step t ops) (foldl spec_step s ops)"
proof (induction ops arbitrary: c t s)
  case (Cons op ops)
  show ?case
  proof (cases op)
    case (Arm t0 now k tok ttl)
    with Cons.prems have "c \<le> t0" "t0 \<le> now" "clock_run now ops = Some c'" by (auto split: if_splits)
    with Cons.IH [OF arm_sim_arm [OF Cons.prems(1), of t0 now k tok ttl]] Arm show ?thesis by (simp add: fun_upd_def)
  next
    case (Disarm k tok)
    with Cons.IH [OF arm_sim_disarm [OF Cons.prems(1), of k tok]] Cons.prems(2) show ?thesis
      by (simp add: fun_upd_def)
  next
    case (Purge now)
    with Cons.prems have "c \<le> now" "clock_run now ops = Some c'" by (auto split: if_splits)
    with Cons.IH [OF arm_sim_purge [OF Cons.prems(1), of now]] Purge show ?thesis by simp
  qed
qed simp

lemma arm_sim_empty: "arm_sim 0 [] (\<lambda>k tok. None)"
  by (simp add: arm_sim_def tokens_ok_def entries_def)

section \<open>Properties\<close>

text \<open>
  C29: after any sequence of arms, disarms and sweeps with a clock that does not run back, a
  token matches exactly when the last arm of that token on that listener has not been
  disarmed and has not expired, and the listener is armed exactly when some token matches.
  Lazy purging and sweeping are therefore unobservable, and concurrent canaries on one
  listener do not interfere.
\<close>

theorem canary_table_exact:
  assumes "clock_run 0 ops = Some c" and "c \<le> now"
  shows "(match_token now (foldl arm_step [] ops) k tok \<longleftrightarrow>
      (\<exists>x. foldl spec_step (\<lambda>k tok. None) ops k tok = Some x \<and> now < x))
    \<and> (is_armed now (foldl arm_step [] ops) k \<longleftrightarrow>
      (\<exists>tok x. foldl spec_step (\<lambda>k tok. None) ops k tok = Some x \<and> now < x))"
proof -
  let ?t = "foldl arm_step [] ops" and ?s = "foldl spec_step (\<lambda>k tok. None) ops"
  have sim: "arm_sim c ?t ?s" by (rule arm_sim_run [OF arm_sim_empty assms(1)])
  have *: "match_token now ?t k tok \<longleftrightarrow> (\<exists>x. ?s k tok = Some x \<and> now < x)" for k tok
    using sim match_token_expiry [of ?t now k tok]
      tok_sim_live [OF _ assms(2), of "expiry (entries ?t k) tok" "?s k tok"] by (simp add: arm_sim_iff)
  show ?thesis by (simp add: is_armed_match *)
qed

theorem canary_table_exact_witness:
  "match_token 5 (foldl arm_step [] [Arm 0 1 (SockV4 0 80, Tcp) [1] 9, Arm 2 2 (SockV4 0 80, Tcp) [2] 1, Purge 4])
     (SockV4 0 80, Tcp) [1]
   \<and> \<not> match_token 5 (foldl arm_step [] [Arm 0 1 (SockV4 0 80, Tcp) [1] 9, Arm 2 2 (SockV4 0 80, Tcp) [2] 1, Purge 4])
     (SockV4 0 80, Tcp) [2]"
  using canary_table_exact [of "[Arm 0 1 (SockV4 0 80, Tcp) [1] 9, Arm 2 2 (SockV4 0 80, Tcp) [2] 1, Purge 4]"
      4 5 "(SockV4 0 80, Tcp)" "[1]"]
    canary_table_exact [of "[Arm 0 1 (SockV4 0 80, Tcp) [1] 9, Arm 2 2 (SockV4 0 80, Tcp) [2] 1, Purge 4]"
      4 5 "(SockV4 0 80, Tcp)" "[2]"]
  by simp

text \<open>
  \<open>disarm\<close> is not atomic. An arm installed on the same listener by another task after
  \<open>disarm\<close> has emptied the entry list and before it removes the key is deleted, although it
  was never disarmed and has not expired.
\<close>

theorem disarm_race_loses_arm:
  "match_token 2 (arm 1 1 (SockV4 0 80, Tcp) [2] 100 (fst (disarm_retain (SockV4 0 80, Tcp) [1]
     (arm 0 0 (SockV4 0 80, Tcp) [1] 100 [])))) (SockV4 0 80, Tcp) [2]
   \<and> \<not> match_token 2 (disarm_remove (SockV4 0 80, Tcp)
       (snd (disarm_retain (SockV4 0 80, Tcp) [1] (arm 0 0 (SockV4 0 80, Tcp) [1] 100 [])))
       (arm 1 1 (SockV4 0 80, Tcp) [2] 100 (fst (disarm_retain (SockV4 0 80, Tcp) [1]
          (arm 0 0 (SockV4 0 80, Tcp) [1] 100 []))))) (SockV4 0 80, Tcp) [2]"
  by (simp add: arm_def disarm_retain_def disarm_remove_def match_token_def live_def)

end
