(* ===== verification/Net_V6.thy ===== *)
theory Net_V6
  imports Net
begin

text \<open>
  The text form of IPv6 addresses (\<open>std::net\<close>) read back: the printer's compression of the
  longest run of zero groups and its IPv4-mapped form are inverted by the parser.
\<close>

section \<open>One group\<close>

lemma no_digit_head16 [simp]:
  "no_digit_head 16 (CHR '':'' # s)" "no_digit_head 16 (CHR '' '' # s)" "no_digit_head 16 (CHR '']'' # s)"
  "no_digit_head 16 (CHR ''%'' # s)" "no_digit_head 10 (CHR ''%'' # s)"
  by (simp_all add: no_digit_head_def to_digit_def)

lemma read_hex_group:
  assumes "no_digit_head 16 rest" and "g < 65536"
  shows "read_number 16 (Some 4) True 65536 (show_radix 16 g @ rest) = Some (g, rest)"
proof -
  have "take_digits 16 (show_radix 16 g @ rest) = (radix_digits 16 g, rest)"
    by (rule take_digits_show_radix) (simp_all add: assms(1))
  moreover have "length (radix_digits 16 g) \<le> 4"
    using radix_digits_length [of 16 g 3] assms(2) by simp
  ultimately show ?thesis using assms(2) by (simp add: read_number_def radix_digits_value)
qed

lemma read_hex_none: "no_digit_head 16 s \<Longrightarrow> read_number 16 m z b s = None"
  by (cases s) (auto simp: read_number_def no_digit_head_def split: option.split)

text \<open>No text of the form hex group, then not a dot, is the start of an IPv4 address.\<close>

lemma take_digits_dropWhile: "snd (take_digits r s) = dropWhile (\<lambda>c. to_digit r c \<noteq> None) s"
  by (induction r s rule: take_digits.induct) (auto split: option.split prod.split)

lemma read_ipv4_none:
  assumes "\<And>u. dropWhile (\<lambda>c. to_digit 10 c \<noteq> None) s \<noteq> CHR ''.'' # u"
  shows "read_ipv4_addr s = None"
proof -
  obtain ds t where t: "take_digits 10 s = (ds, t)" by (cases "take_digits 10 s")
  have four: "(4::nat) = Suc (Suc (Suc (Suc 0)))" by simp
  have "t = dropWhile (\<lambda>c. to_digit 10 c \<noteq> None) s" using take_digits_dropWhile [of 10 s] t by simp
  then have "t \<noteq> CHR ''.'' # u" for u using assms by simp
  then have "read_given_char (CHR ''.'') t = None" by (cases t) auto
  then show ?thesis
    unfolding read_ipv4_addr_def four
    by (auto simp: read_separator_def read_number_def t split: if_splits)
qed

lemma digit_char_not_dot: "d < 36 \<Longrightarrow> digit_char d \<noteq> CHR ''.''"
proof
  assume "d < 36" and "digit_char d = CHR ''.''"
  then have "to_digit 36 (CHR ''.'') = Some d" using to_digit_char [of d 36] by simp
  then show False by (simp add: to_digit_def)
qed

lemma show_radix_no_dot: "CHR ''.'' \<notin> set (show_radix 16 g)"
proof
  assume "CHR ''.'' \<in> set (show_radix 16 g)"
  then obtain d where d: "d \<in> set (radix_digits 16 g)" "digit_char d = CHR ''.''"
    unfolding show_radix_digits by auto
  then have "d < 36" using radix_digits_less [of 16 g] by auto
  with d(2) digit_char_not_dot show False by simp
qed

lemma read_ipv4_hex:
  assumes "no_digit_head 10 rest" and "\<And>u. rest \<noteq> CHR ''.'' # u"
  shows "read_ipv4_addr (show_radix 16 g @ rest) = None"
proof (rule read_ipv4_none)
  fix u
  let ?d = "\<lambda>c. to_digit 10 c \<noteq> None"
  have r: "dropWhile ?d rest = rest" using assms(1) by (cases rest) (simp_all add: no_digit_head_def)
  show "dropWhile ?d (show_radix 16 g @ rest) \<noteq> CHR ''.'' # u"
  proof (cases "dropWhile ?d (show_radix 16 g)")
    case Nil
    then have "dropWhile ?d (show_radix 16 g @ rest) = rest" using r
      by (simp add: dropWhile_append2 dropWhile_eq_Nil_conv)
    with assms(2) show ?thesis by simp
  next
    case (Cons c cs)
    then have "dropWhile ?d (show_radix 16 g @ rest) = c # cs @ rest"
      using dropWhile_eq_Nil_conv [of ?d "show_radix 16 g"] by (auto simp: dropWhile_append)
    moreover from Cons have "c \<in> set (show_radix 16 g)" by (metis list.set_intros(1) set_dropWhileD)
    ultimately show ?thesis using show_radix_no_dot [of g] by auto
  qed
qed

section \<open>A sequence of groups\<close>

abbreviation hex_groups :: "nat list \<Rightarrow> string" where
  "hex_groups gs \<equiv> join '':'' (map (show_radix 16) gs)"

text \<open>Text at which the group reader stops.\<close>

definition stops :: "string \<Rightarrow> bool" where
  "stops rest \<longleftrightarrow> no_digit_head 16 rest \<and> no_digit_head 10 rest \<and> (\<forall>u. rest \<noteq> CHR ''.'' # u)
     \<and> (\<forall>u. rest = CHR '':'' # u \<longrightarrow> no_digit_head 16 u \<and> no_digit_head 10 u \<and> (\<forall>v. u \<noteq> CHR ''.'' # v))"

lemma no_digit_ipv4: "no_digit_head 10 s \<Longrightarrow> (\<And>u. s \<noteq> CHR ''.'' # u) \<Longrightarrow> read_ipv4_addr s = None"
  by (rule read_ipv4_none) (cases s; simp add: no_digit_head_def)

lemma read_groups_stop:
  assumes "stops rest"
  shows "read_groups n i rest = ([], False, rest)"
proof (cases n)
  case (Suc m)
  have a: "read_ipv4_addr rest = None" and h: "read_number 16 (Some 4) True 65536 rest = None"
    using assms no_digit_ipv4 [of rest] read_hex_none [of rest] by (auto simp: stops_def)
  have "read_separator (CHR '':'') i read_ipv4_addr rest = None \<and>
      read_separator (CHR '':'') i (read_number 16 (Some 4) True 65536) rest = None"
  proof (cases rest)
    case Nil
    with a h show ?thesis by (simp add: read_separator_def)
  next
    case (Cons c u)
    show ?thesis
    proof (cases "c = CHR '':''")
      case True
      with Cons assms have "read_ipv4_addr u = None" "read_number 16 (Some 4) True 65536 u = None"
        using no_digit_ipv4 [of u] read_hex_none [of u] by (auto simp: stops_def)
      with a h Cons True show ?thesis by (simp add: read_separator_def)
    next
      case False
      with a h Cons show ?thesis by (simp add: read_separator_def)
    qed
  qed
  with Suc show ?thesis by simp
qed simp

text \<open>The groups after the first, each with its separator.\<close>

fun more_groups :: "nat list \<Rightarrow> string" where
  "more_groups [] = []"
| "more_groups (g # gs) = CHR '':'' # show_radix 16 g @ more_groups gs"

lemma hex_groups_Cons: "hex_groups (g # gs) = show_radix 16 g @ more_groups gs"
  by (induction gs arbitrary: g) simp_all

lemma more_groups_head:
  assumes "stops rest"
  shows "no_digit_head 16 (more_groups gs @ rest)" "no_digit_head 10 (more_groups gs @ rest)"
    "more_groups gs @ rest \<noteq> CHR ''.'' # u"
  using assms by (cases gs; auto simp: stops_def)+

lemma read_more_groups:
  assumes "stops rest" and "\<forall>g\<in>set gs. g < 65536" and "length gs \<le> n" and "0 < i"
  shows "read_groups n i (more_groups gs @ rest) = (gs, False, rest)"
  using assms(2-4)
proof (induction gs arbitrary: n i)
  case Nil
  show ?case using read_groups_stop [OF assms(1)] by simp
next
  case (Cons g gs)
  then obtain m where n: "n = Suc m" by (cases n) simp_all
  have "read_ipv4_addr (show_radix 16 g @ more_groups gs @ rest) = None"
    using more_groups_head [OF assms(1), of gs] by (intro read_ipv4_hex) auto
  moreover have "read_number 16 (Some 4) True 65536 (show_radix 16 g @ more_groups gs @ rest) = Some (g, more_groups gs @ rest)"
    using more_groups_head [OF assms(1), of gs] Cons.prems by (intro read_hex_group) auto
  moreover have "read_groups m (Suc i) (more_groups gs @ rest) = (gs, False, rest)"
    using Cons n by simp
  ultimately show ?case using Cons.prems n by (auto simp: read_separator_def)
qed

lemma read_hex_groups:
  assumes "stops rest" and "\<forall>g\<in>set gs. g < 65536" and "length gs \<le> n"
  shows "read_groups n 0 (hex_groups gs @ rest) = (gs, False, rest)"
proof (cases gs)
  case Nil
  then show ?thesis using read_groups_stop [OF assms(1)] by simp
next
  case (Cons g hs)
  then obtain m where n: "n = Suc m" using assms(3) by (cases n) simp_all
  have "read_ipv4_addr (show_radix 16 g @ more_groups hs @ rest) = None"
    using more_groups_head [OF assms(1), of hs] by (intro read_ipv4_hex) auto
  moreover have "read_number 16 (Some 4) True 65536 (show_radix 16 g @ more_groups hs @ rest) = Some (g, more_groups hs @ rest)"
    using more_groups_head [OF assms(1), of hs] Cons assms(2) by (intro read_hex_group) auto
  moreover have "read_groups m (Suc 0) (more_groups hs @ rest) = (hs, False, rest)"
    using Cons n assms by (intro read_more_groups) simp_all
  ultimately show ?thesis
    using assms(3) unfolding Cons n hex_groups_Cons append_assoc by (auto simp: read_separator_def)
qed


section \<open>The longest run of zeros\<close>

definition zeros_at :: "nat list \<Rightarrow> nat \<times> nat \<Rightarrow> bool" where
  "zeros_at gs r \<longleftrightarrow> (case r of (start, len) \<Rightarrow>
     start + len \<le> length gs \<and> take len (drop start gs) = replicate len 0)"

lemma zeros_at_append: "zeros_at pre r \<Longrightarrow> zeros_at (pre @ gs) r"
  by (auto simp: zeros_at_def)

lemma zero_run_zeros:
  "zeros_at pre longest \<Longrightarrow> zeros_at pre (start, len) \<Longrightarrow> len \<noteq> 0 \<longrightarrow> start + len = length pre \<Longrightarrow>
     zeros_at (pre @ gs) (zero_run (length pre) gs longest (start, len))"
proof (induction gs arbitrary: pre longest start len)
  case (Cons g gs)
  show ?case
  proof (cases "g = 0")
    case False
    have "zeros_at (pre @ [g]) (0, 0)" by (simp add: zeros_at_def)
    with Cons.IH [of "pre @ [g]" longest 0 0] Cons.prems zeros_at_append [of pre longest "[g]"] False
    show ?thesis by simp
  next
    case True
    define st where "st = (if len = 0 then length pre else start)"
    have cur: "zeros_at (pre @ [0]) (st, len + 1)" and e: "st + (len + 1) = length (pre @ [0])"
      using Cons.prems by (auto simp: zeros_at_def st_def replicate_append_same [symmetric])
    define lo where "lo = (if snd (st, len + 1) > snd longest then (st, len + 1) else longest)"
    have "zeros_at (pre @ [0]) lo"
      using cur zeros_at_append [OF Cons.prems(1), of "[0]"] by (simp add: lo_def)
    from Cons.IH [OF this cur] e have "zeros_at (pre @ g # gs) (zero_run (Suc (length pre)) gs lo (st, len + 1))"
      by (simp add: True)
    then show ?thesis
      unfolding lo_def st_def by (auto simp: True Let_def split: if_splits)
  qed
qed simp

lemma zero_run_split:
  assumes "zero_run 0 gs (0, 0) (0, 0) = (start, len)"
  shows "gs = take start gs @ replicate len 0 @ drop (start + len) gs" and "start + len \<le> length gs"
proof -
  have "zeros_at gs (start, len)"
    using zero_run_zeros [of "[]" "(0, 0)" 0 0 gs] assms by (simp add: zeros_at_def)
  then have z: "take len (drop start gs) = replicate len 0" and le: "start + len \<le> length gs"
    by (simp_all add: zeros_at_def)
  have "gs = take start gs @ take len (drop start gs) @ drop len (drop start gs)"
    by (metis append_take_drop_id)
  then show "gs = take start gs @ replicate len 0 @ drop (start + len) gs" by (simp add: z add.commute)
  show "start + len \<le> length gs" by (rule le)
qed

section \<open>Round trip\<close>

lemma segments_eq: "segments w = map (\<lambda>i. unat w div 65536 ^ i mod 65536) [7, 6, 5, 4, 3, 2, 1, 0]"
  by (simp add: segments_def upt_rec)

lemma length_segments [simp]: "length (segments w) = 8"
  by (simp add: segments_eq)

lemma segments_less: "\<forall>g\<in>set (segments w). g < 65536"
  by (auto simp: segments_def)

lemma segments_value_segments: "segments_value (segments w) = unat w"
proof -
  define q where "q i = unat w div 65536 ^ i" for i
  have "unat w < 65536 ^ 8" using unat_bound [of w] by simp
  then have top: "q 7 mod 65536 = q 7"
    unfolding q_def by (intro mod_less less_mult_imp_div_less) simp
  have step: "q (Suc i) * 65536 + q i mod 65536 = q i" for i
    by (simp add: q_def div_mult2_eq mult.commute [of 65536] div_mult_mod_eq)
  have "q 0 = unat w" by (simp add: q_def)
  moreover have "segments w = map (\<lambda>i. q i mod 65536) [7, 6, 5, 4, 3, 2, 1, 0]"
    by (simp add: segments_eq q_def)
  moreover have "q 7 * 65536 + q 6 mod 65536 = q 6" "q 6 * 65536 + q 5 mod 65536 = q 5"
    "q 5 * 65536 + q 4 mod 65536 = q 4" "q 4 * 65536 + q 3 mod 65536 = q 3"
    "q 3 * 65536 + q 2 mod 65536 = q 2" "q 2 * 65536 + q 1 mod 65536 = q 1" "q 1 * 65536 + q 0 mod 65536 = q 0"
    using step [of 6] step [of 5] step [of 4] step [of 3] step [of 2] step [of 1] step [of 0]
    by (simp_all only: Suc_numeral One_nat_def [symmetric] numeral_plus_one semiring_norm num.inject
        Suc_1 Suc_eq_plus1 add_0)
  ultimately show ?thesis
    unfolding segments_value_def by (simp only: list.map foldl.simps mult_0 add_0 top)
qed

lemma segments_value_zeros: "segments_value (replicate n 0 @ gs) = segments_value gs"
  by (induction n) (simp_all add: segments_value_def)

lemma read_ipv6_plain:
  assumes "stops rest" and "\<forall>g\<in>set gs. g < 65536" and "length gs = 8"
  shows "read_ipv6_addr (hex_groups gs @ rest) = Some (word_of_nat (segments_value gs), rest)"
  using read_hex_groups [OF assms(1,2), of 8] assms(3) by (simp add: read_ipv6_addr_def)

lemma stops_colons: "stops (CHR '':'' # CHR '':'' # s)"
  by (auto simp: stops_def)

lemma read_ipv6_compressed:
  assumes "stops rest" and "\<forall>g\<in>set (hs @ ts). g < 65536" and "length hs + len + length ts = 8" and "1 < len"
  shows "read_ipv6_addr (hex_groups hs @ ''::'' @ hex_groups ts @ rest)
    = Some (word_of_nat (segments_value (hs @ replicate len 0 @ ts)), rest)"
proof -
  have "read_groups 8 0 (hex_groups hs @ ''::'' @ hex_groups ts @ rest) = (hs, False, ''::'' @ hex_groups ts @ rest)"
    using assms by (intro read_hex_groups) (auto simp: stops_colons)
  moreover have "read_groups (8 - (length hs + 1)) 0 (hex_groups ts @ rest) = (ts, False, rest)"
    using assms by (intro read_hex_groups) auto
  moreover have "8 - length hs - length ts = len" "length hs \<noteq> 8" using assms by auto
  ultimately show ?thesis by (simp add: read_ipv6_addr_def)
qed

lemma show_ffff: "show_radix 16 65535 = ''ffff''"
proof -
  have "digit_char 15 = CHR ''f''" by code_simp
  then show ?thesis by (simp add: show_radix.simps)
qed

lemma read_ipv6_mapped:
  assumes "no_digit_head 10 rest"
  shows "read_ipv6_addr (''::ffff:'' @ show_ipv4 a @ rest) = Some (word_of_nat (0xffff * 2 ^ 32 + unat a), rest)"
proof -
  let ?t = "show_ipv4 a @ rest"
  have h: "read_groups 8 0 (''::ffff:'' @ ?t) = ([], False, ''::ffff:'' @ ?t)"
    by (rule read_groups_stop) (simp add: stops_colons)
  have "read_ipv4_addr (show_radix 16 65535 @ CHR '':'' # ?t) = None"
    by (rule read_ipv4_hex) simp_all
  moreover have "read_number 16 (Some 4) True 65536 (show_radix 16 65535 @ CHR '':'' # ?t) = Some (65535, CHR '':'' # ?t)"
    by (rule read_hex_group) simp_all
  moreover have "read_ipv4_addr ?t = Some (a, rest)" by (rule read_ipv4_show [OF assms])
  ultimately have t: "read_groups 7 0 (''ffff:'' @ ?t) = ([65535, unat a div 65536, unat a mod 65536], True, rest)"
    unfolding show_ffff by (simp add: read_groups_numeral read_separator_def)
  show ?thesis
    using h t by (simp add: read_ipv6_addr_def segments_value_zeros) (simp add: segments_value_def)
qed

lemma mapped_value:
  assumes "take 6 (segments w) = [0, 0, 0, 0, 0, 0xffff]"
  shows "0xffff * 2 ^ 32 + unat w mod 2 ^ 32 = unat w"
proof -
  obtain a b where g: "segments w = [0, 0, 0, 0, 0, 0xffff, a, b]"
    and a: "a = unat w div 65536 mod 65536" and b: "b = unat w mod 65536"
    using assms by (auto simp: segments_eq)
  have "unat w = (0xffff * 65536 + a) * 65536 + b"
    using segments_value_segments [of w] by (simp add: g segments_value_def)
  then have w: "unat w = (a * 65536 + b) + 0xffff * 2 ^ 32" by simp
  have "a < 65536" "b < 65536" by (simp_all add: a b)
  then have "a * 65536 + b < 2 ^ 32" by simp
  then have "unat w mod 2 ^ 32 = a * 65536 + b" unfolding w mod_mult_self1 by (rule mod_less)
  with w show ?thesis by simp
qed

lemma read_ipv6_show:
  assumes "stops rest"
  shows "read_ipv6_addr (show_ipv6 w @ rest) = Some (w, rest)"
proof (cases "take 6 (segments w) = [0, 0, 0, 0, 0, 0xffff]")
  case True
  let ?a = "word_of_nat (unat w mod 2 ^ 32) :: u32"
  have "unat ?a = unat w mod 2 ^ 32" by (simp add: unsigned_of_nat take_bit_eq_mod)
  then have e: "0xffff * 2 ^ 32 + unat ?a = unat w" using mapped_value [OF True] by (simp only:)
  have "word_of_nat (0xffff * 2 ^ 32 + unat ?a) = w" unfolding e by simp
  moreover have "no_digit_head 10 rest" using assms by (simp add: stops_def)
  ultimately show ?thesis
    using read_ipv6_mapped [of rest ?a] by (simp only: show_ipv6_def Let_def True if_True append_assoc simp_thms)
next
  case False
  obtain start len where z: "zero_run 0 (segments w) (0, 0) (0, 0) = (start, len)"
    by (cases "zero_run 0 (segments w) (0, 0) (0, 0)")
  note split = zero_run_split [OF z]
  show ?thesis
  proof (cases "1 < len")
    case True
    let ?hs = "take start (segments w)" and ?ts = "drop (start + len) (segments w)"
    have "\<forall>g\<in>set (?hs @ ?ts). g < 65536"
      using segments_less [of w] by (auto dest: in_set_takeD in_set_dropD)
    moreover have "length ?hs + len + length ?ts = 8" using split(2) by simp
    ultimately have "read_ipv6_addr (hex_groups ?hs @ ''::'' @ hex_groups ?ts @ rest)
        = Some (word_of_nat (segments_value (?hs @ replicate len 0 @ ?ts)), rest)"
      using assms True by (intro read_ipv6_compressed)
    then show ?thesis
      using False True z by (simp add: show_ipv6_def Let_def split(1) [symmetric] segments_value_segments)
  next
    case nz: False
    from read_ipv6_plain [OF assms segments_less length_segments] False nz z show ?thesis
      by (simp add: show_ipv6_def Let_def segments_value_segments)
  qed
qed

lemma stops_simps [simp]: "stops []" "stops (CHR '' '' # s)" "stops (CHR '']'' # s)" "stops (CHR ''%'' # s)"
  by (auto simp: stops_def)

lemma parse_ipv6_show: "parse_ipv6 (show_ipv6 w) = Some w"
  using read_ipv6_show [of "[]" w] by (simp add: parse_whole_def)

end
