(* ===== verification/Proxy_Protocol.thy ===== *)
theory Proxy_Protocol
  imports Rules Net_V6
begin

unbundle bit_operations_syntax

text \<open>
  PROXY-protocol headers (crate \<open>yggdrasil\<close>, file \<open>proxy/proxy_protocol.rs\<close>): the v1 text and
  v2 binary encoders, the decoder that peels an optional header off a TCP stream, and the
  decoder for UDP datagrams. A reader is the list of bytes still to come, ended by EOF.
\<close>

section \<open>Encoding\<close>

definition V2_SIG :: bytes where
  "V2_SIG = [0x0D, 0x0A, 0x0D, 0x0A, 0x00, 0x0D, 0x0A, 0x51, 0x55, 0x49, 0x54, 0x0A]"

definition CRLF :: bytes where "CRLF = [0x0D, 0x0A]"

text \<open>\<open>"PROXY {fam} {} {} {} {}\r\n"\<close>\<close>

definition v1_line :: "string \<Rightarrow> string \<Rightarrow> string \<Rightarrow> u16 \<Rightarrow> u16 \<Rightarrow> bytes" where
  "v1_line fam c s cp sp =
     str_bytes (''PROXY '' @ fam @ '' '' @ c @ '' '' @ s @ '' '' @ show_nat (unat cp) @ '' '' @ show_nat (unat sp)) @ CRLF"

definition encode_v1 :: "socket_addr \<Rightarrow> socket_addr \<Rightarrow> bytes" where
  "encode_v1 client server =
     (case (sa_ip client, sa_ip server) of
        (V4 c, V4 s) \<Rightarrow> v1_line ''TCP4'' (show_ipv4 c) (show_ipv4 s) (sa_port client) (sa_port server)
      | (V6 c, V6 s) \<Rightarrow> v1_line ''TCP6'' (show_ipv6 c) (show_ipv6 s) (sa_port client) (sa_port server)
      | _ \<Rightarrow> str_bytes ''PROXY UNKNOWN'' @ CRLF)"

definition encode_v2 :: "socket_addr \<Rightarrow> socket_addr \<Rightarrow> bytes" where
  "encode_v2 client server =
     (case (sa_ip client, sa_ip server) of
        (V4 c, V4 s) \<Rightarrow>
          V2_SIG @ [0x21, 0x11] @ be_bytes 2 (12 :: u16) @ be_bytes 4 c @ be_bytes 4 s
            @ be_bytes 2 (sa_port client) @ be_bytes 2 (sa_port server)
      | (V6 c, V6 s) \<Rightarrow>
          V2_SIG @ [0x21, 0x21] @ be_bytes 2 (36 :: u16) @ be_bytes 16 c @ be_bytes 16 s
            @ be_bytes 2 (sa_port client) @ be_bytes 2 (sa_port server)
      | _ \<Rightarrow> V2_SIG @ [0x20, 0x00] @ be_bytes 2 (0 :: u16))"

definition encode_header :: "proxy_proto \<Rightarrow> socket_addr \<Rightarrow> socket_addr \<Rightarrow> bytes" where
  "encode_header version client server =
     (case version of V1 \<Rightarrow> encode_v1 client server | V2 \<Rightarrow> encode_v2 client server)"

section \<open>Decoding a stream\<close>

definition V1_MAX_LINE :: nat where "V1_MAX_LINE = 107"
definition V2_MAX_ADDR :: nat where "V2_MAX_ADDR = 536"

datatype io_error = UnexpectedEof | InvalidData string

record proxy_endpoints =
  ep_client :: socket_addr
  ep_server :: socket_addr

record proxy_decode =
  endpoints :: "proxy_endpoints option"
  leftover :: bytes

type_synonym 'a reader = "bytes \<Rightarrow> io_error + 'a \<times> bytes"

definition read_exact :: "nat \<Rightarrow> bytes reader" where
  "read_exact n s = (if length s < n then Inl UnexpectedEof else Inr (take n s, drop n s))"

text \<open>The byte loop of the v1 decoder: ends at CRLF, fails once the line is too long.\<close>

fun read_line :: "bool \<Rightarrow> bytes \<Rightarrow> bytes reader" where
  "read_line saw_cr line [] = Inl UnexpectedEof"
| "read_line saw_cr line (b # s) =
     (let line = line @ [b] in
      if b = 0x0A \<and> saw_cr then Inr (line, s)
      else if length line > V1_MAX_LINE then Inl (InvalidData ''PROXY v1 header exceeds 107 bytes'')
      else read_line (b = 0x0D) line s)"

text \<open>\<open>str::from_utf8\<close>: the well-formed byte sequences of Unicode.\<close>

definition utf8_follow :: "nat \<Rightarrow> nat \<Rightarrow> bool" where
  "utf8_follow lead b =
     (if lead = 0xE0 then 0xA0 \<le> b \<and> b \<le> 0xBF
      else if lead = 0xED then 0x80 \<le> b \<and> b \<le> 0x9F
      else if lead = 0xF0 then 0x90 \<le> b \<and> b \<le> 0xBF
      else if lead = 0xF4 then 0x80 \<le> b \<and> b \<le> 0x8F
      else 0x80 \<le> b \<and> b \<le> 0xBF)"

definition utf8_tail :: "nat \<Rightarrow> nat" where
  "utf8_tail lead =
     (if 0xC2 \<le> lead \<and> lead \<le> 0xDF then 1
      else if 0xE0 \<le> lead \<and> lead \<le> 0xEF then 2
      else if 0xF0 \<le> lead \<and> lead \<le> 0xF4 then 3
      else 0)"

function utf8_valid :: "nat list \<Rightarrow> bool" where
  "utf8_valid [] = True"
| "utf8_valid (b # bs) =
     (if b < 0x80 then utf8_valid bs
      else utf8_tail b \<noteq> 0 \<and> utf8_tail b \<le> length bs \<and> utf8_follow b (hd bs)
        \<and> list_all (\<lambda>c. 0x80 \<le> c \<and> c \<le> 0xBF) (take (utf8_tail b - 1) (tl bs))
        \<and> utf8_valid (drop (utf8_tail b) bs))"
  by pat_completeness auto
termination by (relation "measure length") auto

definition from_utf8 :: "bytes \<Rightarrow> string option" where
  "from_utf8 bs = (if utf8_valid (map unat bs) then Some (map (\<lambda>b. char_of (unat b)) bs) else None)"

definition parse_v4 :: "string \<Rightarrow> string \<Rightarrow> io_error + socket_addr" where
  "parse_v4 a p =
     rbind (ok_or (InvalidData ''v1 bad ipv4'') (parse_ipv4 a)) (\<lambda>ip.
     rbind (ok_or (InvalidData ''v1 bad port'') (parse_u16 p)) (\<lambda>port.
     Inr (sa_new (V4 ip) port)))"

definition parse_v6 :: "string \<Rightarrow> string \<Rightarrow> io_error + socket_addr" where
  "parse_v6 a p =
     rbind (ok_or (InvalidData ''v1 bad ipv6'') (parse_ipv6 a)) (\<lambda>ip.
     rbind (ok_or (InvalidData ''v1 bad port'') (parse_u16 p)) (\<lambda>port.
     Inr (sa_new (V6 ip) port)))"

text \<open>The fields of a v1 line after the magic; \<open>parts.next()\<close> five times, the rest ignored.\<close>

definition v1_fields :: "string list \<Rightarrow> io_error + proxy_endpoints" where
  "v1_fields parts =
     (case parts of
        [] \<Rightarrow> Inl (InvalidData ''v1 missing family'')
      | [_] \<Rightarrow> Inl (InvalidData ''v1 missing client'')
      | [_, _] \<Rightarrow> Inl (InvalidData ''v1 missing server'')
      | [_, _, _] \<Rightarrow> Inl (InvalidData ''v1 missing cport'')
      | [_, _, _, _] \<Rightarrow> Inl (InvalidData ''v1 missing sport'')
      | fam # cli # srv # cp # sp # _ \<Rightarrow>
          if fam = ''TCP4'' then
            rbind (parse_v4 cli cp) (\<lambda>c. rbind (parse_v4 srv sp) (\<lambda>s.
              Inr \<lparr>ep_client = c, ep_server = s\<rparr>))
          else if fam = ''TCP6'' then
            rbind (parse_v6 cli cp) (\<lambda>c. rbind (parse_v6 srv sp) (\<lambda>s.
              Inr \<lparr>ep_client = c, ep_server = s\<rparr>))
          else Inl (InvalidData ''v1 unknown family''))"

definition decode_v1_body :: "bytes \<Rightarrow> io_error + proxy_decode" where
  "decode_v1_body line =
     rbind (ok_or (InvalidData ''PROXY v1 not UTF-8'') (from_utf8 (take (length line - 2) line))) (\<lambda>body.
     if \<not> starts_with ''PROXY '' body then Inl (InvalidData ''PROXY v1 prefix'')
     else
       let rest = drop 6 body in
       if starts_with ''UNKNOWN'' rest then Inr \<lparr>endpoints = None, leftover = []\<rparr>
       else rbind (v1_fields (split_on (CHR '' '') rest)) (\<lambda>ep.
         Inr \<lparr>endpoints = Some ep, leftover = []\<rparr>))"

definition decode_v1 :: "u8 \<Rightarrow> proxy_decode reader" where
  "decode_v1 fst_byte s =
     rbind (read_exact 5 s) (\<lambda>(tail, s).
     if tail \<noteq> str_bytes ''ROXY '' then Inr (\<lparr>endpoints = None, leftover = fst_byte # tail\<rparr>, s)
     else
       rbind (read_line False (str_bytes ''PROXY '') s) (\<lambda>(line, s).
       rbind (decode_v1_body line) (\<lambda>d. Inr (d, s))))"

definition v2_tcp4 :: "bytes \<Rightarrow> proxy_endpoints" where
  "v2_tcp4 p =
     \<lparr>ep_client = sa_new (V4 (of_be (take 4 p))) (of_be (take 2 (drop 8 p))),
      ep_server = sa_new (V4 (of_be (take 4 (drop 4 p)))) (of_be (take 2 (drop 10 p)))\<rparr>"

definition v2_tcp6 :: "bytes \<Rightarrow> proxy_endpoints" where
  "v2_tcp6 p =
     \<lparr>ep_client = sa_new (V6 (of_be (take 16 p))) (of_be (take 2 (drop 32 p))),
      ep_server = sa_new (V6 (of_be (take 16 (drop 16 p)))) (of_be (take 2 (drop 34 p)))\<rparr>"

definition decode_v2 :: "u8 \<Rightarrow> proxy_decode reader" where
  "decode_v2 fst_byte s =
     rbind (read_exact 11 s) (\<lambda>(rest_sig, s).
     if fst_byte # rest_sig \<noteq> V2_SIG then Inr (\<lparr>endpoints = None, leftover = fst_byte # rest_sig\<rparr>, s)
     else
       rbind (read_exact 4 s) (\<lambda>(hdr, s).
       let ver_cmd = hdr ! 0; fam_proto = hdr ! 1; addr_len = unat (of_be (drop 2 hdr) :: u16) in
       if ver_cmd AND 0xF0 \<noteq> 0x20 then Inl (InvalidData ''v2 wrong version'')
       else if addr_len > V2_MAX_ADDR then Inl (InvalidData ''v2 addr_len too large'')
       else
         rbind (read_exact addr_len s) (\<lambda>(payload, s).
         if ver_cmd AND 0x0F = 0 then Inr (\<lparr>endpoints = None, leftover = []\<rparr>, s)
         else if fam_proto = 0x11 then
           (if length payload < 12 then Inl (InvalidData ''v2 TCP4 short payload'')
            else Inr (\<lparr>endpoints = Some (v2_tcp4 payload), leftover = []\<rparr>, s))
         else if fam_proto = 0x21 then
           (if length payload < 36 then Inl (InvalidData ''v2 TCP6 short payload'')
            else Inr (\<lparr>endpoints = Some (v2_tcp6 payload), leftover = []\<rparr>, s))
         else Inr (\<lparr>endpoints = None, leftover = []\<rparr>, s))))"

definition read_optional_header :: "proxy_decode reader" where
  "read_optional_header s =
     (case s of
        [] \<Rightarrow> Inr (\<lparr>endpoints = None, leftover = []\<rparr>, [])
      | b # s \<Rightarrow>
          if b = 0x50 then decode_v1 b s
          else if b = 0x0D then decode_v2 b s
          else Inr (\<lparr>endpoints = None, leftover = [b]\<rparr>, s))"

section \<open>Decoding a datagram\<close>

definition decode_v2_from_datagram :: "bytes \<Rightarrow> proxy_endpoints option" where
  "decode_v2_from_datagram buf =
     (if length buf < 16 \<or> take 12 buf \<noteq> V2_SIG then None
      else
        let ver_cmd = buf ! 12; fam_proto = buf ! 13;
            addr_len = unat (of_be (take 2 (drop 14 buf)) :: u16) in
        if ver_cmd AND 0xF0 \<noteq> 0x20 then None
        else if addr_len > V2_MAX_ADDR then None
        else if length buf < 16 + addr_len then None
        else if ver_cmd AND 0x0F = 0 then None
        else
          let payload = take addr_len (drop 16 buf) in
          if fam_proto = 0x11 \<and> 12 \<le> length payload then Some (v2_tcp4 payload)
          else if fam_proto = 0x21 \<and> 36 \<le> length payload then Some (v2_tcp6 payload)
          else None)"


section \<open>Text headers\<close>

lemma unat_byte_of [simp]: "unat (byte_of c) = of_char c"
proof -
  have "byte_of c = word_of_nat (of_char c)"
    unfolding byte_of_def by (cases c) (simp add: of_char_def)
  moreover have "(of_char c :: nat) < 256" by (rule nat_of_char_less_256)
  ultimately show ?thesis by (simp add: unsigned_of_nat take_bit_eq_mod)
qed

lemma length_str_bytes [simp]: "length (str_bytes s) = length s"
  by (simp add: str_bytes_def)

lemma str_bytes_append [simp]: "str_bytes (s @ t) = str_bytes s @ str_bytes t"
  by (simp add: str_bytes_def)

text \<open>Printable ASCII text without spaces, and with spaces.\<close>

definition word_text :: "string \<Rightarrow> bool" where
  "word_text s \<longleftrightarrow> list_all graphic s"

definition line_text :: "string \<Rightarrow> bool" where
  "line_text s \<longleftrightarrow> list_all (\<lambda>c. graphic c \<or> c = CHR '' '') s"

lemma text_simps [simp]:
  "word_text []" "word_text (c # s) \<longleftrightarrow> graphic c \<and> word_text s" "word_text (s @ t) \<longleftrightarrow> word_text s \<and> word_text t"
  "line_text []" "line_text (c # s) \<longleftrightarrow> (graphic c \<or> c = CHR '' '') \<and> line_text s"
  "line_text (s @ t) \<longleftrightarrow> line_text s \<and> line_text t"
  by (simp_all add: word_text_def line_text_def)

lemma word_line_text: "word_text s \<Longrightarrow> line_text s"
  by (induction s) simp_all

lemma line_text_ascii: "line_text s \<Longrightarrow> c \<in> set s \<Longrightarrow> 32 \<le> (of_char c :: nat) \<and> (of_char c :: nat) < 127"
  by (induction s) (auto simp: graphic_def)

lemma from_utf8_text:
  assumes "line_text s"
  shows "from_utf8 (str_bytes s) = Some s"
proof -
  have "utf8_valid (map unat (str_bytes s))"
    using assms
  proof (induction s)
    case (Cons c s)
    then have "(of_char c :: nat) < 128" using line_text_ascii [of "c # s" c] by simp
    with Cons show ?case by (simp add: str_bytes_def)
  qed (simp add: str_bytes_def)
  then show ?thesis by (simp add: from_utf8_def) (simp add: str_bytes_def comp_def)
qed

lemma read_line_text:
  assumes "line_text t" and "length acc + length t + 2 \<le> Suc V1_MAX_LINE"
  shows "read_line False acc (str_bytes t @ CRLF @ rest) = Inr (acc @ str_bytes t @ CRLF, rest)"
  using assms
proof (induction t arbitrary: acc)
  case Nil
  then show ?case by (simp add: CRLF_def str_bytes_def)
next
  case (Cons c t)
  have "32 \<le> unat (byte_of c)" using Cons.prems line_text_ascii [of "c # t" c] by simp
  then have "byte_of c \<noteq> 0x0A" "byte_of c \<noteq> 0x0D" by (auto simp del: unat_byte_of)
  with Cons.IH [of "acc @ [byte_of c]"] Cons.prems show ?case by (simp add: str_bytes_def)
qed

lemma split_on_word:
  "word_text w \<Longrightarrow> split_on (CHR '' '') (w @ CHR '' '' # s) = w # split_on (CHR '' '') s"
  "word_text w \<Longrightarrow> split_on (CHR '' '') w = [w]"
  by (induction w) (auto simp: graphic_def)

lemma to_digit_graphic: "to_digit r c = Some d \<Longrightarrow> graphic c"
  by (auto simp: to_digit_def graphic_def Let_def split: if_splits)

lemma graphic_digit: "d < 36 \<Longrightarrow> graphic (digit_char d)"
  using to_digit_char [of d 36] to_digit_graphic by simp

lemma word_text_radix: "2 \<le> r \<Longrightarrow> r \<le> 36 \<Longrightarrow> word_text (show_radix r n)"
  using radix_digits_less [of r n] unfolding show_radix_digits word_text_def list_all_iff
  by (auto intro!: graphic_digit)

lemma word_text_nat [simp]: "word_text (show_nat n)"
  by (simp add: show_nat_def word_text_radix)

lemma word_text_join: "word_text sep \<Longrightarrow> \<forall>x\<in>set xs. word_text x \<Longrightarrow> word_text (join sep xs)"
  by (induction sep xs rule: join.induct) simp_all

lemma word_text_ipv4 [simp]: "word_text (show_ipv4 w)"
  by (auto simp: show_ipv4_def graphic_def intro!: word_text_join)

lemma word_text_ipv6 [simp]: "word_text (show_ipv6 w)"
proof -
  have "word_text (hex_groups gs)" for gs
    by (rule word_text_join) (auto simp: word_text_radix graphic_def)
  then show ?thesis by (auto simp: show_ipv6_def Let_def graphic_def split: prod.split)
qed

lemma length_show_nat: "n < 10 ^ Suc k \<Longrightarrow> length (show_nat n) \<le> Suc k"
  using radix_digits_length [of 10 n k] by (simp add: show_nat_def show_radix_digits)

lemma length_port: "length (show_nat (unat (p :: u16))) \<le> 5"
  using length_show_nat [of "unat p" 4] unat_bound [of p] by simp

lemma length_ipv4: "length (show_ipv4 w) \<le> 15"
proof -
  have "length (show_nat g) \<le> 3" if "g < 256" for g using that length_show_nat [of g 2] by simp
  then have "length (show_nat (x mod 256)) \<le> 3" for x by simp
  from this [of "unat w div 256 ^ 3"] this [of "unat w div 256 ^ 2"] this [of "unat w div 256"] this [of "unat w"]
  show ?thesis by (simp add: show_ipv4_def be_digits_4)
qed

lemma length_hex_groups: "\<forall>g\<in>set gs. g < 65536 \<Longrightarrow> length (hex_groups gs) \<le> 5 * length gs - 1"
proof (induction gs rule: induct_list012)
  case (2 g)
  then show ?case using radix_digits_length [of 16 g 3] by (simp add: show_radix_digits)
next
  case (3 g h gs)
  have "length (show_radix 16 g) \<le> 4" using 3(3) radix_digits_length [of 16 g 3] by (simp add: show_radix_digits)
  with 3 show ?case by simp
qed simp

lemma length_ipv6: "length (show_ipv6 w) \<le> 39"
proof -
  let ?gs = "segments w"
  have "length (hex_groups ?gs) \<le> 39" using length_hex_groups [OF segments_less [of w]] by simp
  moreover have "length (hex_groups (take a ?gs)) + length (hex_groups (drop (a + b) ?gs)) \<le> 32"
    if "1 < b" "a + b \<le> 8" for a b
  proof -
    have "\<forall>g\<in>set (take a ?gs). g < 65536" "\<forall>g\<in>set (drop (a + b) ?gs). g < 65536"
      using segments_less [of w] by (auto dest: in_set_takeD in_set_dropD)
    from length_hex_groups [OF this(1)] length_hex_groups [OF this(2)] that show ?thesis by simp
  qed
  ultimately show ?thesis
    using length_ipv4 [of "word_of_nat (unat w mod 2 ^ 32)"] zero_run_split(2) [of ?gs]
    by (fastforce simp: show_ipv6_def Let_def split: prod.split)
qed


lemma decode_v1_text:
  assumes "line_text t" and "length t \<le> 100"
  shows "read_optional_header (str_bytes ''PROXY '' @ str_bytes t @ CRLF @ rest) =
    rbind (decode_v1_body (str_bytes ''PROXY '' @ str_bytes t @ CRLF)) (\<lambda>d. Inr (d, rest))"
proof -
  have p: "str_bytes ''PROXY '' = 0x50 # str_bytes ''ROXY ''" "length (str_bytes ''ROXY '') = 5"
    by (simp_all add: str_bytes_def byte_of_def of_char_def)
  have l: "read_line False (str_bytes ''PROXY '') (str_bytes t @ CRLF @ rest)
      = Inr (str_bytes ''PROXY '' @ str_bytes t @ CRLF, rest)"
    using assms by (intro read_line_text) (simp_all add: V1_MAX_LINE_def)
  have "read_optional_header (str_bytes ''PROXY '' @ str_bytes t @ CRLF @ rest)
      = decode_v1 0x50 (str_bytes ''ROXY '' @ str_bytes t @ CRLF @ rest)"
    unfolding p(1) by (simp add: read_optional_header_def)
  then show ?thesis
    using l p(2) by (simp add: decode_v1_def read_exact_def)
qed

lemma decode_v1_body_text:
  assumes "line_text t"
  shows "decode_v1_body (str_bytes ''PROXY '' @ str_bytes t @ CRLF) =
    (if starts_with ''UNKNOWN'' t then Inr \<lparr>endpoints = None, leftover = []\<rparr>
     else rbind (v1_fields (split_on (CHR '' '') t)) (\<lambda>ep. Inr \<lparr>endpoints = Some ep, leftover = []\<rparr>))"
proof -
  let ?l = "''PROXY '' @ t"
  have "line_text ?l" using assms by (simp add: graphic_def)
  then have "from_utf8 (str_bytes ''PROXY '' @ str_bytes t) = Some ?l"
    using from_utf8_text [of ?l] by (simp only: str_bytes_append)
  then show ?thesis
    by (simp add: decode_v1_body_def starts_with_def Let_def CRLF_def)
qed

lemma v1_roundtrip:
  assumes f: "fam = ''TCP4'' \<or> fam = ''TCP6''" and w: "word_text c" "word_text s"
    and l: "length c \<le> 39" "length s \<le> 39"
  shows "read_optional_header (v1_line fam c s cp sp @ rest) =
    rbind (v1_fields [fam, c, s, show_nat (unat cp), show_nat (unat sp)]) (\<lambda>ep.
      Inr (\<lparr>endpoints = Some ep, leftover = []\<rparr>, rest))"
proof -
  define t where "t = fam @ '' '' @ c @ '' '' @ s @ '' '' @ show_nat (unat cp) @ '' '' @ show_nat (unat sp)"
  have fw: "word_text fam" "length fam = 4" using f by (auto simp: graphic_def)
  have "line_text t" using w fw by (simp add: t_def word_line_text)
  moreover have "length t \<le> 100"
    using l fw length_port [of cp] length_port [of sp] by (simp add: t_def)
  moreover have "split_on (CHR '' '') t = [fam, c, s, show_nat (unat cp), show_nat (unat sp)]"
    using w fw by (simp add: t_def split_on_word)
  moreover have "\<not> starts_with ''UNKNOWN'' t" using f by (auto simp: t_def starts_with_def)
  moreover have "v1_line fam c s cp sp = str_bytes ''PROXY '' @ str_bytes t @ CRLF"
    unfolding v1_line_def t_def [symmetric] str_bytes_append by simp
  ultimately show ?thesis
    using decode_v1_text [of t rest] decode_v1_body_text [of t]
    by (simp add: rbind_def split: sum.split)
qed

section \<open>Binary headers\<close>

lemma V2_SIG_split: "V2_SIG = 0x0D # tl V2_SIG" "length V2_SIG = 12" "length (tl V2_SIG) = 11"
  by (simp_all add: V2_SIG_def)

lemma read_exact_append [simp]: "length a = n \<Longrightarrow> read_exact n (a @ s) = Inr (a, s)"
  by (simp add: read_exact_def)

lemma v2_read:
  "read_optional_header (V2_SIG @ s) = decode_v2 0x0D (tl V2_SIG @ s)"
  by (subst V2_SIG_split(1)) (simp add: read_optional_header_def)

text \<open>The endpoints a header conveys: the address pair of one family, flow labels dropped.\<close>

definition conveyed :: "socket_addr \<Rightarrow> socket_addr \<Rightarrow> proxy_endpoints option" where
  "conveyed c s =
     (case (sa_ip c, sa_ip s) of
        (V4 _, V6 _) \<Rightarrow> None
      | (V6 _, V4 _) \<Rightarrow> None
      | _ \<Rightarrow> Some \<lparr>ep_client = sa_new (sa_ip c) (sa_port c), ep_server = sa_new (sa_ip s) (sa_port s)\<rparr>)"

lemma decode_v2_header:
  assumes "length p = unat n" and "unat n \<le> V2_MAX_ADDR"
  shows "decode_v2 0x0D (tl V2_SIG @ [vc, fp] @ be_bytes 2 (n :: u16) @ p @ rest) =
      (if vc AND 0xF0 \<noteq> 0x20 then Inl (InvalidData ''v2 wrong version'')
       else if vc AND 0x0F = 0 then Inr (\<lparr>endpoints = None, leftover = []\<rparr>, rest)
       else if fp = 0x11 then
         (if length p < 12 then Inl (InvalidData ''v2 TCP4 short payload'')
          else Inr (\<lparr>endpoints = Some (v2_tcp4 p), leftover = []\<rparr>, rest))
       else if fp = 0x21 then
         (if length p < 36 then Inl (InvalidData ''v2 TCP6 short payload'')
          else Inr (\<lparr>endpoints = Some (v2_tcp6 p), leftover = []\<rparr>, rest))
       else Inr (\<lparr>endpoints = None, leftover = []\<rparr>, rest))"
proof -
  have "read_exact 4 (vc # fp # be_bytes 2 n @ p @ rest) = Inr ([vc, fp] @ be_bytes 2 n, p @ rest)"
    using read_exact_append [of "[vc, fp] @ be_bytes 2 n" 4 "p @ rest"] by simp
  with assms show ?thesis
    using V2_SIG_split by (simp add: decode_v2_def Let_def)
qed

lemma v2_payloads:
  "v2_tcp4 (be_bytes 4 (a :: u32) @ be_bytes 4 (b :: u32) @ be_bytes 2 (x :: u16) @ be_bytes 2 (y :: u16))
     = \<lparr>ep_client = sa_new (V4 a) x, ep_server = sa_new (V4 b) y\<rparr>"
  "v2_tcp6 (be_bytes 16 (c :: u128) @ be_bytes 16 (d :: u128) @ be_bytes 2 (x :: u16) @ be_bytes 2 (y :: u16))
     = \<lparr>ep_client = sa_new (V6 c) x, ep_server = sa_new (V6 d) y\<rparr>"
  by (simp_all add: v2_tcp4_def v2_tcp6_def)

lemma encode_v2_roundtrip:
  "read_optional_header (encode_v2 c s @ rest) = Inr (\<lparr>endpoints = conveyed c s, leftover = []\<rparr>, rest)"
proof -
  let ?ports = "be_bytes 2 (sa_port c) @ be_bytes 2 (sa_port s)"
  note hdr = decode_v2_header [where rest = rest]
  have "sa_ip c = V4 a \<Longrightarrow> sa_ip s = V4 b \<Longrightarrow> ?thesis" for a b
    using hdr [of "be_bytes 4 a @ be_bytes 4 b @ ?ports" 12 "0x21" "0x11"]
    by (simp add: encode_v2_def v2_read conveyed_def V2_MAX_ADDR_def v2_payloads)
  moreover have "sa_ip c = V6 a \<Longrightarrow> sa_ip s = V6 b \<Longrightarrow> ?thesis" for a b
    using hdr [of "be_bytes 16 a @ be_bytes 16 b @ ?ports" 36 "0x21" "0x21"]
    by (simp add: encode_v2_def v2_read conveyed_def V2_MAX_ADDR_def v2_payloads)
  ultimately show ?thesis
    using hdr [of "[]" 0 "0x20" 0]
    by (cases "sa_ip c"; cases "sa_ip s") (simp_all add: encode_v2_def v2_read conveyed_def)
qed

lemma encode_v1_roundtrip:
  "read_optional_header (encode_v1 c s @ rest) = Inr (\<lparr>endpoints = conveyed c s, leftover = []\<rparr>, rest)"
proof -
  have unknown: "read_optional_header (str_bytes ''PROXY UNKNOWN'' @ CRLF @ rest) = Inr (\<lparr>endpoints = None, leftover = []\<rparr>, rest)"
    using decode_v1_text [of "''UNKNOWN''" rest] decode_v1_body_text [of "''UNKNOWN''"]
      str_bytes_append [of "''PROXY ''" "''UNKNOWN''"]
    by (simp add: graphic_def starts_with_def)
  have v4: "parse_v4 (show_ipv4 a) (show_nat (unat p)) = Inr (sa_new (V4 a) p)" for a p
    using read_ipv4_show [of "[]" a] parse_u16_show [of p] length_ipv4 [of a] by (simp add: parse_v4_def parse_whole_def)
  have v6: "parse_v6 (show_ipv6 a) (show_nat (unat p)) = Inr (sa_new (V6 a) p)" for a p
    by (simp add: parse_v6_def parse_ipv6_show parse_u16_show)
  have l4: "length (show_ipv4 a) \<le> 39" for a using length_ipv4 [of a] by simp
  show ?thesis
    by (cases "sa_ip c"; cases "sa_ip s")
       (simp_all add: encode_v1_def conveyed_def v1_roundtrip v1_fields_def v4 v6 l4 length_ipv6 unknown)
qed


section \<open>Datagrams and streams\<close>

lemma sig_prefix: "take 12 buf = V2_SIG \<longleftrightarrow> (\<exists>s. buf = V2_SIG @ s)"
  by (metis V2_SIG_split(2) append_eq_conv_conj append_take_drop_id)

lemma four_bytes: "4 \<le> length s \<Longrightarrow> \<exists>a b c d t. s = a # b # c # d # t"
  by (auto simp: numeral_eq_Suc Suc_le_length_iff)

lemma decode_v2_short: "length s < 4 \<Longrightarrow> decode_v2 0x0D (tl V2_SIG @ s) = Inl UnexpectedEof"
  using V2_SIG_split by (simp add: decode_v2_def) (simp add: read_exact_def)

lemma decode_v2_long:
  "decode_v2 0x0D (tl V2_SIG @ vc # fp # l1 # l2 # t) =
     (let n = unat (of_be [l1, l2] :: u16); p = take n t; rest = drop n t in
      if vc AND 0xF0 \<noteq> 0x20 then Inl (InvalidData ''v2 wrong version'')
      else if n > V2_MAX_ADDR then Inl (InvalidData ''v2 addr_len too large'')
      else if length t < n then Inl UnexpectedEof
      else if vc AND 0x0F = 0 then Inr (\<lparr>endpoints = None, leftover = []\<rparr>, rest)
      else if fp = 0x11 then
        (if length p < 12 then Inl (InvalidData ''v2 TCP4 short payload'')
         else Inr (\<lparr>endpoints = Some (v2_tcp4 p), leftover = []\<rparr>, rest))
      else if fp = 0x21 then
        (if length p < 36 then Inl (InvalidData ''v2 TCP6 short payload'')
         else Inr (\<lparr>endpoints = Some (v2_tcp6 p), leftover = []\<rparr>, rest))
      else Inr (\<lparr>endpoints = None, leftover = []\<rparr>, rest))"
proof -
  have "read_exact 4 (vc # fp # l1 # l2 # t) = Inr ([vc, fp, l1, l2], t)"
    using read_exact_append [of "[vc, fp, l1, l2]" 4 t] by simp
  then show ?thesis
    using V2_SIG_split by (simp add: decode_v2_def Let_def read_exact_def [of "unat _"])
qed

lemma datagram_long:
  "decode_v2_from_datagram (V2_SIG @ vc # fp # l1 # l2 # t) =
     (let n = unat (of_be [l1, l2] :: u16); p = take n t in
      if vc AND 0xF0 \<noteq> 0x20 \<or> n > V2_MAX_ADDR \<or> length t < n \<or> vc AND 0x0F = 0 then None
      else if fp = 0x11 \<and> 12 \<le> length p then Some (v2_tcp4 p)
      else if fp = 0x21 \<and> 36 \<le> length p then Some (v2_tcp6 p)
      else None)"
proof -
  let ?buf = "V2_SIG @ vc # fp # l1 # l2 # t"
  have f: "?buf ! 12 = vc" "?buf ! 13 = fp" "take 2 (drop 14 ?buf) = [l1, l2]" "drop 16 ?buf = t"
    "length ?buf = 16 + length t" "take 12 ?buf = V2_SIG"
    by (simp_all add: V2_SIG_def)
  show ?thesis
    unfolding decode_v2_from_datagram_def Let_def f by simp
qed

lemma read_line_split: "read_line cr acc s = Inr (line, r) \<Longrightarrow> \<exists>p. line = acc @ p \<and> s = p @ r"
proof (induction cr acc s rule: read_line.induct)
  case (2 cr acc b s)
  show ?case
  proof (cases "b = 0x0A \<and> cr")
    case True
    with 2(2) show ?thesis by auto
  next
    case False
    with 2(2) have "length (acc @ [b]) \<le> V1_MAX_LINE" "read_line (b = 0x0D) (acc @ [b]) s = Inr (line, r)"
      by (auto simp: Let_def split: if_splits)
    with 2(1) [OF refl False] obtain p where "line = (acc @ [b]) @ p" "s = p @ r" by auto
    then show ?thesis by simp
  qed
qed simp

lemma decode_v1_body_leftover: "decode_v1_body line = Inr d \<Longrightarrow> leftover d = []"
  by (auto simp: decode_v1_body_def Let_def split: if_splits)

lemma read_exact_Inr: "read_exact n s = Inr (a, r) \<longleftrightarrow> s = a @ r \<and> length a = n"
  by (auto simp: read_exact_def)

lemma conserve_v1:
  assumes "decode_v1 0x50 s = Inr (d, rest)"
  shows "0x50 # s = leftover d @ rest \<or> leftover d = [] \<and> (\<exists>p. 0x50 # s = str_bytes ''PROXY '' @ p @ rest)"
proof -
  have px: "str_bytes ''PROXY '' = 0x50 # str_bytes ''ROXY ''"
    by (simp add: str_bytes_def byte_of_def of_char_def)
  from assms obtain tail s1 where r: "s = tail @ s1"
    and k: "(if tail \<noteq> str_bytes ''ROXY '' then Inr (\<lparr>endpoints = None, leftover = 0x50 # tail\<rparr>, s1)
      else rbind (read_line False (str_bytes ''PROXY '') s1) (\<lambda>(line, s).
        rbind (decode_v1_body line) (\<lambda>d. Inr (d, s)))) = Inr (d, rest)"
    by (auto simp: decode_v1_def read_exact_Inr)
  show ?thesis
  proof (cases "tail = str_bytes ''ROXY ''")
    case False
    with k r show ?thesis by auto
  next
    case True
    with k obtain line where l: "read_line False (str_bytes ''PROXY '') s1 = Inr (line, rest)"
      and b: "decode_v1_body line = Inr d" by auto
    from read_line_split [OF l] obtain p where "s1 = p @ rest" by blast
    with True r decode_v1_body_leftover [OF b] show ?thesis by (simp add: px)
  qed
qed

lemma conserve_v2:
  assumes "decode_v2 0x0D s = Inr (d, rest)"
  shows "0x0D # s = leftover d @ rest \<or> leftover d = [] \<and> (\<exists>p. 0x0D # s = V2_SIG @ p @ rest)"
proof -
  from assms obtain sig s1 where r: "s = sig @ s1" "length sig = 11"
    by (auto simp: decode_v2_def read_exact_Inr)
  show ?thesis
  proof (cases "0x0D # sig = V2_SIG")
    case False
    with assms r show ?thesis by (auto simp: decode_v2_def)
  next
    case True
    then have s: "s = tl V2_SIG @ s1" using r by (metis list.sel(3))
    with assms have "4 \<le> length s1" using decode_v2_short [of s1] by (metis not_le sum.distinct(1))
    then obtain a b c e t where s1: "s1 = a # b # c # e # t" using four_bytes by blast
    have "leftover d = [] \<and> (\<exists>n. rest = drop n t)"
      using assms unfolding s s1 decode_v2_long by (auto simp: Let_def split: if_splits)
    then obtain n where "leftover d = []" "rest = drop n t" by blast
    then have "0x0D # s = V2_SIG @ ([a, b, c, e] @ take n t) @ rest"
      by (simp add: s s1 V2_SIG_def)
    with \<open>leftover d = []\<close> show ?thesis by blast
  qed
qed

text \<open>The length check comes after the CRLF test: a line of 108 bytes passes.\<close>

lemma v1_line_of_108_accepted:
  "is_ok (read_optional_header (str_bytes ''PROXY '' @ str_bytes (''UNKNOWN'' @ replicate 93 (CHR ''x'')) @ CRLF))
   \<and> length (str_bytes ''PROXY '' @ str_bytes (''UNKNOWN'' @ replicate 93 (CHR ''x'')) @ CRLF) = Suc V1_MAX_LINE"
proof -
  let ?t = "''UNKNOWN'' @ replicate 93 (CHR ''x'')"
  have t: "line_text ?t" "length ?t \<le> 100" by (simp_all add: line_text_def graphic_def list_all_iff)
  have "starts_with ''UNKNOWN'' ?t" by (rule starts_with_append)
  with decode_v1_text [OF t, of "[]"] decode_v1_body_text [OF t(1)] show ?thesis
    by (simp add: V1_MAX_LINE_def CRLF_def del: append_Cons)
qed

lemma read_optional_header_split:
  assumes "read_optional_header s = Inr (d, rest)"
  shows "\<exists>hdr. s = hdr @ leftover d @ rest \<and>
    (hdr = [] \<or> leftover d = [] \<and> (take 6 hdr = str_bytes ''PROXY '' \<or> take 12 hdr = V2_SIG))"
proof (cases s)
  case Nil
  with assms show ?thesis by (auto simp: read_optional_header_def)
next
  case (Cons b t)
  consider "b = 0x50" | "b = 0x0D" | "b \<noteq> 0x50" "b \<noteq> 0x0D" by blast
  then show ?thesis
  proof cases
    case 1
    with assms Cons have "decode_v1 0x50 t = Inr (d, rest)" by (simp add: read_optional_header_def)
    from conserve_v1 [OF this] consider "s = [] @ leftover d @ rest"
      | p where "leftover d = []" "s = (str_bytes ''PROXY '' @ p) @ leftover d @ rest"
      by (auto simp: Cons 1)
    then show ?thesis by cases (blast, force)
  next
    case 2
    with assms Cons have "decode_v2 0x0D t = Inr (d, rest)" by (simp add: read_optional_header_def)
    from conserve_v2 [OF this] consider "s = [] @ leftover d @ rest"
      | p where "leftover d = []" "s = (V2_SIG @ p) @ leftover d @ rest"
      by (auto simp: Cons 2)
    then show ?thesis by cases (blast, force simp: V2_SIG_split(2))
  next
    case 3
    with assms Cons show ?thesis by (auto simp: read_optional_header_def)
  qed
qed

lemma datagram_stream_iff:
  "decode_v2_from_datagram buf = Some ep \<longleftrightarrow>
     take 12 buf = V2_SIG \<and> (\<exists>rest. read_optional_header buf = Inr (\<lparr>endpoints = Some ep, leftover = []\<rparr>, rest))"
proof (cases "take 12 buf = V2_SIG")
  case False
  then show ?thesis by (simp add: decode_v2_from_datagram_def)
next
  case True
  then obtain s where buf: "buf = V2_SIG @ s" by (auto simp: sig_prefix)
  show ?thesis
  proof (cases "length s < 4")
    case short: True
    then have "decode_v2_from_datagram buf = None"
      by (simp add: decode_v2_from_datagram_def buf V2_SIG_split(2))
    with short show ?thesis by (simp add: buf v2_read decode_v2_short)
  next
    case False
    then obtain a b c d t where s: "s = a # b # c # d # t" using four_bytes [of s] by auto
    from True show ?thesis
      unfolding buf s v2_read decode_v2_long datagram_long by (auto simp: Let_def)
  qed
qed

lemma datagram_decodes_header: "decode_v2_from_datagram (encode_v2 c s) = conveyed c s"
proof -
  have "take 12 (encode_v2 c s) = V2_SIG"
    by (simp add: encode_v2_def V2_SIG_split(2) split: ip_addr.split)
  moreover have "read_optional_header (encode_v2 c s) = Inr (\<lparr>endpoints = conveyed c s, leftover = []\<rparr>, [])"
    using encode_v2_roundtrip [of c s "[]"] by simp
  ultimately have "decode_v2_from_datagram (encode_v2 c s) = Some ep \<longleftrightarrow> conveyed c s = Some ep" for ep
    by (simp only: datagram_stream_iff) auto
  then show ?thesis by (metis not_Some_eq)
qed

section \<open>Properties\<close>

text \<open>
  C33: a header written in front of a connection is read back exactly, in both versions and for
  all addresses: the decoder returns the client and server address and port (IPv6 flow label
  and scope are not part of the protocol), or no endpoints when the families differ, leaves no
  bytes over, and stops exactly at the first byte of application data.
\<close>

theorem proxy_header_roundtrip:
  "read_optional_header (encode_header v c s @ rest) = Inr (\<lparr>endpoints = conveyed c s, leftover = []\<rparr>, rest)"
  by (cases v) (simp_all add: encode_header_def encode_v1_roundtrip encode_v2_roundtrip)

text \<open>
  the datagram decoder and the stream decoder agree: a datagram yields endpoints exactly
  when it starts with the v2 signature and the stream decoder, run over its bytes, yields the
  same endpoints.
\<close>

theorem datagram_stream_agree:
  "decode_v2_from_datagram buf = Some ep \<longleftrightarrow>
     take 12 buf = V2_SIG \<and> (\<exists>rest. read_optional_header buf = Inr (\<lparr>endpoints = Some ep, leftover = []\<rparr>, rest))"
  by (rule datagram_stream_iff)

text \<open>
  peeling an optional header loses and invents nothing. Whatever the stream starts with,
  on success the bytes handed back and the bytes still unread are the stream itself, or the
  stream without a leading header that starts with the v1 or v2 magic.
\<close>

theorem optional_header_conserves_stream:
  assumes "read_optional_header s = Inr (d, rest)"
  shows "\<exists>hdr. s = hdr @ leftover d @ rest \<and>
    (hdr = [] \<or> leftover d = [] \<and> (take 6 hdr = str_bytes ''PROXY '' \<or> take 12 hdr = V2_SIG))"
  by (rule read_optional_header_split [OF assms])

theorem optional_header_conserves_stream_witness:
  "\<exists>hdr. [0x47, 0x45, 0x54] = hdr @ [0x47] @ [0x45, 0x54 :: u8] \<and>
    (hdr = [] \<or> ([0x47] :: u8 list) = [] \<and> (take 6 hdr = str_bytes ''PROXY '' \<or> take 12 hdr = V2_SIG))"
  using optional_header_conserves_stream [of "[0x47, 0x45, 0x54]" "\<lparr>endpoints = None, leftover = [0x47]\<rparr>" "[0x45, 0x54]"]
  by (simp add: read_optional_header_def)

end
