(* ===== verification/Udp_Proxy.thy ===== *)
theory Udp_Proxy
  imports Resolver Canary_Table Proxy_Protocol
begin

text \<open>
  The UDP proxy of one rule (crate \<open>yggdrasil\<close>, file \<open>proxy/udp/mod.rs\<close>): the workers with their flow
  tables, the shared flow budget, the per-flow upstream loops, the reaper and the watcher that
  drains the flows when the peer's address changes. The machine steps at the await points of the
  code: a worker receives a batch, takes the next datagram of its slow path, or resumes after it has
  bound an upstream socket; an upstream loop handles what its socket delivers; the reaper and the
  watcher sweep. Sockets are numbered in the order they are bound; clock readings and the
  results of socket calls are inputs; what is handed to the sockets is the output.
\<close>

section \<open>State\<close>

definition MAX_FLOWS_PER_RULE_DEFAULT :: u64 where "MAX_FLOWS_PER_RULE_DEFAULT = 65536"
definition PENDING_PROXY_TTL :: nat where "PENDING_PROXY_TTL = 5000"

definition resolve_workers :: "nat option \<Rightarrow> nat option \<Rightarrow> nat" where
  "resolve_workers available server_default =
     max (case server_default of Some n \<Rightarrow> n | None \<Rightarrow> (case available of Some n \<Rightarrow> n | None \<Rightarrow> 1)) 1"

text \<open>A flow; \<open>upstream_peer\<close> is the address its upstream socket is connected to.\<close>

record flow_entry =
  upstream_sock :: nat
  upstream_peer :: socket_addr
  frontend :: nat
  last_seen_ms :: u64

text \<open>
  A worker: its shard of the flow table, the real clients announced by PROXY datagrams, the
  canary flag sampled for the current batch, the datagrams of the batch still on the slow path,
  and the datagram for which it is binding a socket.
\<close>

record udp_worker =
  flows :: "(socket_addr \<times> flow_entry) list"
  pending_real_clients :: "(socket_addr \<times> socket_addr \<times> nat) list"
  arm_active :: bool
  slow_path :: "(bytes \<times> socket_addr) list"
  creating :: "(bytes \<times> socket_addr \<times> socket_addr) option"

text \<open>\<open>upstream_tasks\<close>: the running upstream loops, as socket, worker and client.\<close>

record udp_proxy =
  up_rule :: rule
  up_local_addr :: socket_addr
  up_resolver :: upstream_resolver
  up_max_flows :: u64
  expect_inbound_proxy :: bool
  up_workers :: "udp_worker list"
  flow_count :: u64
  next_sock :: nat
  upstream_tasks :: "(nat \<times> nat \<times> socket_addr) list"

text \<open>
  What the proxy hands to its sockets: a datagram of a client sent on a flow's upstream socket
  (\<open>ToUpstream\<close>), the PROXY header that opens a flow (\<open>ToUpstreamHeader\<close>), a datagram returned to a client on
  a worker's frontend socket (\<open>ToClient\<close>), a canary echo.
\<close>

datatype udp_out =
    ToUpstream socket_addr nat bytes
  | ToUpstreamHeader socket_addr nat bytes
  | ToClient nat nat socket_addr bytes
  | CanaryEcho nat socket_addr bytes

datatype send_result = Sent | WouldBlock | SendFailed

definition worker_new :: udp_worker where
  "worker_new = \<lparr>flows = [], pending_real_clients = [], arm_active = False, slow_path = [], creating = None\<rparr>"

text \<open>The first bind with the address the kernel gave it, then the binds of the other workers to that address.\<close>

definition build_frontend_std_sockets :: "socket_addr option \<Rightarrow> bool list \<Rightarrow> nat \<Rightarrow> socket_addr option" where
  "build_frontend_std_sockets first others workers =
     (case first of
        None \<Rightarrow> None
      | Some bind_addr \<Rightarrow> if list_all (\<lambda>ok. ok) (take (workers - 1) others) then Some bind_addr else None)"

definition spawn_with_arm_table ::
  "rule \<Rightarrow> socket_addr \<Rightarrow> upstream_resolver \<Rightarrow> u64 \<Rightarrow> nat \<Rightarrow> bool \<Rightarrow> udp_proxy option" where
  "spawn_with_arm_table r local_addr resolver max_flows workers expect_proxy =
     (if workers = 0 then None
      else Some \<lparr>up_rule = r, up_local_addr = local_addr, up_resolver = resolver, up_max_flows = max_flows,
        expect_inbound_proxy = expect_proxy, up_workers = replicate workers worker_new, flow_count = 0,
        next_sock = 0, upstream_tasks = []\<rparr>)"

definition active_flows :: "udp_proxy \<Rightarrow> nat" where
  "active_flows u = sum_list (map (\<lambda>w. length (flows w)) (up_workers u))"

abbreviation upd_worker :: "nat \<Rightarrow> (udp_worker \<Rightarrow> udp_worker) \<Rightarrow> udp_proxy \<Rightarrow> udp_proxy" where
  "upd_worker i f u \<equiv> u\<lparr>up_workers := (up_workers u)[i := f (up_workers u ! i)]\<rparr>"

text \<open>\<open>entry.last_seen_ms.store(now)\<close> on the flow of a client, if there is one.\<close>

definition touch :: "nat \<Rightarrow> socket_addr \<Rightarrow> u64 \<Rightarrow> udp_proxy \<Rightarrow> udp_proxy" where
  "touch i client now =
     upd_worker i (\<lambda>w. w\<lparr>flows := AList.map_entry client (\<lambda>e. e\<lparr>last_seen_ms := now\<rparr>) (flows w)\<rparr>)"

definition drop_task :: "nat \<Rightarrow> udp_proxy \<Rightarrow> udp_proxy" where
  "drop_task sock u = u\<lparr>upstream_tasks := filter (\<lambda>(s, _). s \<noteq> sock) (upstream_tasks u)\<rparr>"

section \<open>Frontend workers\<close>

text \<open>What a datagram of a batch meets: the arm table and the clocks, the result of \<open>try_send\<close>.\<close>

record fast_io =
  fi_arms :: arm_table
  fi_clock :: nat
  fi_now_ms :: u64
  fi_try :: send_result

definition canary_hit :: "udp_proxy \<Rightarrow> bool \<Rightarrow> arm_table \<Rightarrow> nat \<Rightarrow> bytes \<Rightarrow> bool" where
  "canary_hit u active arms clock payload \<longleftrightarrow>
     active \<and> CANARY_TOKEN_LEN \<le> length payload \<and>
     match_token clock arms (up_local_addr u, Udp) (take CANARY_TOKEN_LEN payload)"

definition try_handle_inbound_fast ::
  "nat \<Rightarrow> fast_io \<Rightarrow> bytes \<Rightarrow> socket_addr \<Rightarrow> udp_proxy \<Rightarrow> udp_proxy \<times> udp_out list \<times> bool" where
  "try_handle_inbound_fast i io payload client u =
     (case map_of (flows (up_workers u ! i)) client of
        None \<Rightarrow> (u, [], False)
      | Some e \<Rightarrow>
          (let u = touch i client (fi_now_ms io) u in
           case fi_try io of
             Sent \<Rightarrow> (u, [ToUpstream client (upstream_sock e) payload], True)
           | WouldBlock \<Rightarrow> (u, [], False)
           | SendFailed \<Rightarrow> (u, [], True)))"

text \<open>The loop over a batch; datagrams that need an await are collected for the slow path.\<close>

fun dispatch_batch ::
  "nat \<Rightarrow> bool \<Rightarrow> (bytes \<times> socket_addr \<times> fast_io) list \<Rightarrow> udp_proxy
     \<Rightarrow> udp_proxy \<times> udp_out list \<times> (bytes \<times> socket_addr) list" where
  "dispatch_batch i active [] u = (u, [], [])"
| "dispatch_batch i active ((payload, from, io) # ds) u =
     (case (if canary_hit u active (fi_arms io) (fi_clock io) payload then
              (case fi_try io of
                 Sent \<Rightarrow> (u, [CanaryEcho i from payload], True)
               | WouldBlock \<Rightarrow> (u, [], False)
               | SendFailed \<Rightarrow> (u, [], True))
            else try_handle_inbound_fast i io payload from u) of
        (u1, out1, handled) \<Rightarrow>
          (case dispatch_batch i active ds u1 of
             (u2, out2, slow) \<Rightarrow> (u2, out1 @ out2, (if handled then slow else (payload, from) # slow))))"

text \<open>A received batch, with the arm table and the clock at which \<open>is_armed\<close> is sampled.\<close>

definition recv_batch ::
  "nat \<Rightarrow> arm_table \<Rightarrow> nat \<Rightarrow> (bytes \<times> socket_addr \<times> fast_io) list \<Rightarrow> udp_proxy \<Rightarrow> udp_proxy \<times> udp_out list" where
  "recv_batch i arms clock ds u =
     (let active = is_armed clock arms (up_local_addr u, Udp) in
      case dispatch_batch i active ds u of
        (u, out, slow) \<Rightarrow> (upd_worker i (\<lambda>w. w\<lparr>arm_active := active, slow_path := slow\<rparr>) u, out))"

text \<open>What the slow path meets: the arm table and the clocks, the peer, the results of the sends.\<close>

record slow_io =
  si_arms :: arm_table
  si_clock :: nat
  si_now_ms :: u64
  si_send_ok :: bool
  si_header_ok :: bool
  si_bind_ok :: bool
  si_connect_ok :: bool

text \<open>\<open>handle_inbound\<close> up to the call of \<open>create_flow\<close>.\<close>

definition handle_inbound ::
  "nat \<Rightarrow> peer_state \<Rightarrow> slow_io \<Rightarrow> bytes \<Rightarrow> socket_addr \<Rightarrow> udp_proxy \<Rightarrow> udp_proxy \<times> udp_out list" where
  "handle_inbound i ps io payload client u =
     (case map_of (flows (up_workers u ! i)) client of
        Some e \<Rightarrow>
          (touch i client (si_now_ms io) u, if si_send_ok io then [ToUpstream client (upstream_sock e) payload] else [])
      | None \<Rightarrow>
          (case if expect_inbound_proxy u then decode_v2_from_datagram payload else None of
             Some eps \<Rightarrow>
               (upd_worker i (\<lambda>w. w\<lparr>pending_real_clients :=
                  AList.update client (ep_client eps, si_clock io) (pending_real_clients w)\<rparr>) u, [])
           | None \<Rightarrow>
               (case current_target ps (up_resolver u) of
                  None \<Rightarrow> (u, [])
                | Some tgt \<Rightarrow>
                    if up_max_flows u \<le> flow_count u then (u, [])
                    else (upd_worker i (\<lambda>w. w\<lparr>creating := Some (payload, client, tgt)\<rparr>) u, []))))"

text \<open>The next datagram of the slow path.\<close>

definition service_slow ::
  "nat \<Rightarrow> peer_state \<Rightarrow> slow_io \<Rightarrow> udp_proxy \<Rightarrow> udp_proxy \<times> udp_out list" where
  "service_slow i ps io u =
     (case slow_path (up_workers u ! i) of
        [] \<Rightarrow> (u, [])
      | (payload, client) # rest \<Rightarrow>
          (let active = arm_active (up_workers u ! i);
               u = upd_worker i (\<lambda>w. w\<lparr>slow_path := rest\<rparr>) u in
           if canary_hit u active (si_arms io) (si_clock io) payload
           then (u, if si_send_ok io then [CanaryEcho i client payload] else [])
           else handle_inbound i ps io payload client u))"

definition try_reserve_flow :: "udp_proxy \<Rightarrow> udp_proxy \<times> bool" where
  "try_reserve_flow u =
     (if up_max_flows u \<le> flow_count u then (u, False) else (u\<lparr>flow_count := flow_count u + 1\<rparr>, True))"

text \<open>
  \<open>create_flow\<close> after its awaits: the socket is bound and connected or not; on success the new flow
  is entered in the table, or an entry that is already there is used and the new loop aborted.
\<close>

definition create_flow ::
  "nat \<Rightarrow> slow_io \<Rightarrow> socket_addr \<Rightarrow> socket_addr \<Rightarrow> udp_proxy \<Rightarrow> udp_proxy \<times> flow_entry option" where
  "create_flow i io client tgt u =
     (if \<not> si_bind_ok io \<or> \<not> si_connect_ok io then (u, None)
      else
        let sock = next_sock u;
            u = u\<lparr>next_sock := sock + 1, upstream_tasks := (sock, i, client) # upstream_tasks u\<rparr>;
            entry = \<lparr>upstream_sock = sock, upstream_peer = tgt, frontend = i, last_seen_ms = si_now_ms io\<rparr>
        in case map_of (flows (up_workers u ! i)) client of
             Some existing \<Rightarrow> (drop_task sock u, Some existing)
           | None \<Rightarrow>
               (case try_reserve_flow u of
                  (u, False) \<Rightarrow> (drop_task sock u, None)
                | (u, True) \<Rightarrow>
                    (upd_worker i (\<lambda>w. w\<lparr>flows := AList.update client entry (flows w)\<rparr>) u, Some entry)))"

text \<open>The address announced to the next hop: a fresh pending entry, else the observed client.\<close>

definition outbound_client :: "nat \<Rightarrow> socket_addr \<Rightarrow> udp_worker \<Rightarrow> socket_addr" where
  "outbound_client clock client w =
     (case map_of (pending_real_clients w) client of
        Some (real, stashed_at) \<Rightarrow> if clock - stashed_at \<le> PENDING_PROXY_TTL then real else client
      | None \<Rightarrow> client)"

text \<open>\<open>handle_inbound\<close> from the call of \<open>create_flow\<close> on.\<close>

definition finish_inbound :: "nat \<Rightarrow> slow_io \<Rightarrow> udp_proxy \<Rightarrow> udp_proxy \<times> udp_out list" where
  "finish_inbound i io u =
     (case creating (up_workers u ! i) of
        None \<Rightarrow> (u, [])
      | Some (payload, client, tgt) \<Rightarrow>
          (let u = upd_worker i (\<lambda>w. w\<lparr>creating := None\<rparr>) u in
           case create_flow i io client tgt u of
             (u, None) \<Rightarrow> (u, [])
           | (u, Some e) \<Rightarrow>
               (let real = outbound_client (si_clock io) client (up_workers u ! i);
                    u = upd_worker i (\<lambda>w. w\<lparr>pending_real_clients := AList.delete client (pending_real_clients w)\<rparr>) u
                in (u,
                    (if proxy_protocol (up_rule u) = Some V2 \<and> si_header_ok io
                     then [ToUpstreamHeader client (upstream_sock e) (encode_header V2 real (up_local_addr u))] else []) @
                    (if si_send_ok io then [ToUpstream client (upstream_sock e) payload] else [])))))"

section \<open>Reaper and IP-change watcher\<close>

text \<open>\<open>shard.remove(&client)\<close> with the decrement of the flow count.\<close>

definition remove_flow :: "nat \<Rightarrow> socket_addr \<Rightarrow> udp_proxy \<Rightarrow> udp_proxy \<times> flow_entry option" where
  "remove_flow i client u =
     (case map_of (flows (up_workers u ! i)) client of
        None \<Rightarrow> (u, None)
      | Some e \<Rightarrow>
          ((upd_worker i (\<lambda>w. w\<lparr>flows := AList.delete client (flows w)\<rparr>) u)\<lparr>flow_count := flow_count u - 1\<rparr>, Some e))"

definition idle_ms :: "udp_proxy \<Rightarrow> u64" where
  "idle_ms u = of_nat (resolved_idle_timeout (up_rule u) div 1000000)"

definition is_idle :: "u64 \<Rightarrow> u64 \<Rightarrow> flow_entry \<Rightarrow> bool" where
  "is_idle now idle e \<longleftrightarrow> idle \<le> (if last_seen_ms e \<le> now then now - last_seen_ms e else 0)"

definition reap_one :: "nat \<Rightarrow> socket_addr \<Rightarrow> udp_proxy \<Rightarrow> udp_proxy" where
  "reap_one i client u =
     (case remove_flow i client u of (u, None) \<Rightarrow> u | (u, Some e) \<Rightarrow> drop_task (upstream_sock e) u)"

definition reap_shard :: "u64 \<Rightarrow> nat \<Rightarrow> udp_proxy \<Rightarrow> udp_proxy" where
  "reap_shard now i u =
     (let victims = map fst (filter (\<lambda>(_, e). is_idle now (idle_ms u) e) (flows (up_workers u ! i)))
      in fold (reap_one i) victims u)"

definition reap_idle :: "u64 \<Rightarrow> udp_proxy \<Rightarrow> udp_proxy" where
  "reap_idle now u = fold (reap_shard now) [0..<length (up_workers u)] u"

text \<open>
  A shard is drained in one step. In the code the table is emptied first and the counter lowered
  after it, so that in between the counter is too high and a worker may refuse a new flow.
\<close>

definition drain_shard :: "nat \<Rightarrow> udp_proxy \<Rightarrow> udp_proxy" where
  "drain_shard i u =
     (let es = flows (up_workers u ! i);
          u = fold (\<lambda>(_, e). drop_task (upstream_sock e)) es u;
          u = upd_worker i (\<lambda>w. w\<lparr>flows := []\<rparr>) u
      in u\<lparr>flow_count := flow_count u - of_nat (length es)\<rparr>)"

definition drain_all_flows :: "udp_proxy \<Rightarrow> udp_proxy" where
  "drain_all_flows u = fold drain_shard [0..<length (up_workers u)] u"

text \<open>The end of \<open>run\<close>: straggler loops are aborted and the tables cleared.\<close>

definition shutdown :: "udp_proxy \<Rightarrow> udp_proxy" where
  "shutdown u =
     (let u = fold (\<lambda>w. fold (\<lambda>(_, e). drop_task (upstream_sock e)) (flows w)) (up_workers u) u
      in u\<lparr>up_workers := map (\<lambda>w. w\<lparr>flows := []\<rparr>) (up_workers u), flow_count := 0\<rparr>)"

section \<open>Upstream loops\<close>

datatype batch_send = NoSender | BatchFailed | BatchSent nat

definition return_frontend :: "nat \<Rightarrow> socket_addr \<Rightarrow> udp_proxy \<Rightarrow> nat" where
  "return_frontend i client u =
     (case map_of (flows (up_workers u ! i)) client of Some e \<Rightarrow> frontend e | None \<Rightarrow> i)"

text \<open>
  A batch from the upstream: \<open>sendmmsg\<close> where the flow answers on the loop's own frontend, then
  one send per datagram that is left; \<open>oks\<close> are the results of those sends.
\<close>

definition upstream_batch_forward ::
  "nat \<Rightarrow> nat \<Rightarrow> socket_addr \<Rightarrow> bytes list \<Rightarrow> batch_send \<Rightarrow> bool list \<Rightarrow> u64 \<Rightarrow> udp_proxy \<Rightarrow> udp_proxy \<times> udp_out list" where
  "upstream_batch_forward sock i client payloads mm oks now u =
     (let f = return_frontend i client u;
          each = (\<lambda>ps. map (\<lambda>(p, _). ToClient f sock client p) (filter snd (zip ps oks)));
          out = (case mm of
                   BatchSent sent \<Rightarrow>
                     if f = i then map (ToClient f sock client) (take sent payloads) @ each (drop sent payloads)
                     else each payloads
                 | _ \<Rightarrow> each payloads)
      in (touch i client now u, out))"

definition upstream_recv_single ::
  "nat \<Rightarrow> nat \<Rightarrow> socket_addr \<Rightarrow> bytes \<Rightarrow> bool \<Rightarrow> u64 \<Rightarrow> udp_proxy \<Rightarrow> udp_proxy \<times> udp_out list" where
  "upstream_recv_single sock i client payload ok now u =
     (if ok then (touch i client now u, [ToClient (return_frontend i client u) sock client payload]) else (u, []))"

definition upstream_recv_failed :: "nat \<Rightarrow> nat \<Rightarrow> socket_addr \<Rightarrow> udp_proxy \<Rightarrow> udp_proxy" where
  "upstream_recv_failed sock i client u = drop_task sock (fst (remove_flow i client u))"

section \<open>The machine\<close>

datatype udp_event =
    RecvBatch nat arm_table nat "(bytes \<times> socket_addr \<times> fast_io) list"
  | ServiceSlow nat peer_state slow_io
  | SocketReady nat slow_io
  | UpstreamBatch nat "bytes list" batch_send "bool list" u64
  | UpstreamDatagram nat bytes bool u64
  | UpstreamFailed nat
  | ReapTick u64
  | PeerIpChanged

definition worker_at :: "nat \<Rightarrow> (udp_worker \<Rightarrow> bool) \<Rightarrow> udp_proxy \<Rightarrow> bool" where
  "worker_at i P u \<longleftrightarrow> i < length (up_workers u) \<and> P (up_workers u ! i)"

text \<open>The loop of a socket, as worker and client.\<close>

abbreviation task_of :: "udp_proxy \<Rightarrow> nat \<Rightarrow> (nat \<times> socket_addr) option" where
  "task_of u \<equiv> map_of (upstream_tasks u)"

fun udp_step :: "udp_proxy \<Rightarrow> udp_event \<Rightarrow> udp_proxy \<times> udp_out list" where
  "udp_step u (RecvBatch i arms clock ds) =
     (if worker_at i (\<lambda>w. slow_path w = [] \<and> creating w = None) u then recv_batch i arms clock ds u else (u, []))"
| "udp_step u (ServiceSlow i ps io) =
     (if worker_at i (\<lambda>w. creating w = None) u then service_slow i ps io u else (u, []))"
| "udp_step u (SocketReady i io) =
     (if worker_at i (\<lambda>_. True) u then finish_inbound i io u else (u, []))"
| "udp_step u (UpstreamBatch sock payloads mm oks now) =
     (case task_of u sock of
        None \<Rightarrow> (u, []) | Some (i, client) \<Rightarrow> upstream_batch_forward sock i client payloads mm oks now u)"
| "udp_step u (UpstreamDatagram sock payload ok now) =
     (case task_of u sock of
        None \<Rightarrow> (u, []) | Some (i, client) \<Rightarrow> upstream_recv_single sock i client payload ok now u)"
| "udp_step u (UpstreamFailed sock) =
     (case task_of u sock of
        None \<Rightarrow> (u, []) | Some (i, client) \<Rightarrow> (upstream_recv_failed sock i client u, []))"
| "udp_step u (ReapTick now) = (reap_idle now u, [])"
| "udp_step u PeerIpChanged = (drain_all_flows u, [])"

fun udp_run :: "udp_proxy \<Rightarrow> udp_event list \<Rightarrow> udp_proxy \<times> udp_out list" where
  "udp_run u [] = (u, [])"
| "udp_run u (ev # evs) =
     (case udp_step u ev of (u1, out1) \<Rightarrow> case udp_run u1 evs of (u2, out2) \<Rightarrow> (u2, out1 @ out2))"

text \<open>
  \<open>ipchange_loop\<close>: spawned for dynamic resolvers only; each round drains the flows when the watched
  value has a version the watcher has not seen.
\<close>

definition ipchange_poll :: "peer_state \<Rightarrow> nat \<times> udp_proxy \<Rightarrow> nat \<times> udp_proxy" where
  "ipchange_poll ps = (\<lambda>(seen, u).
     if is_dynamic (up_resolver u) \<and> watch_version ps \<noteq> seen then (watch_version ps, drain_all_flows u) else (seen, u))"

section \<open>Invariant\<close>

text \<open>The flow of a client on a worker.\<close>

abbreviation flow_at :: "udp_proxy \<Rightarrow> nat \<Rightarrow> socket_addr \<Rightarrow> flow_entry option" where
  "flow_at u i \<equiv> map_of (flows (up_workers u ! i))"

definition shard_ok :: "nat \<Rightarrow> udp_worker \<Rightarrow> bool" where
  "shard_ok i w \<longleftrightarrow>
     distinct (map fst (flows w)) \<and> (\<forall>c e. map_of (flows w) c = Some e \<longrightarrow> frontend e = i) \<and>
     (\<forall>p c t. creating w = Some (p, c, t) \<longrightarrow> map_of (flows w) c = None)"

definition tables_ok :: "udp_proxy \<Rightarrow> bool" where
  "tables_ok u \<longleftrightarrow> (\<forall>i<length (up_workers u). shard_ok i (up_workers u ! i))"

text \<open>The running loops are exactly the loops of the flows in the tables.\<close>

definition tasks_ok :: "udp_proxy \<Rightarrow> bool" where
  "tasks_ok u \<longleftrightarrow>
     distinct (map fst (upstream_tasks u)) \<and> (\<forall>(s, _)\<in>set (upstream_tasks u). s < next_sock u) \<and>
     (\<forall>s i c. (s, i, c) \<in> set (upstream_tasks u) \<longleftrightarrow>
        i < length (up_workers u) \<and> (\<exists>e. flow_at u i c = Some e \<and> upstream_sock e = s))"

definition udp_wf :: "udp_proxy \<Rightarrow> bool" where
  "udp_wf u \<longleftrightarrow> tables_ok u \<and> tasks_ok u \<and> unat (flow_count u) = active_flows u \<and> flow_count u \<le> up_max_flows u"

lemma udp_wf_spawn:
  "spawn_with_arm_table r local res mx n ex = Some u \<Longrightarrow> udp_wf u"
  by (auto simp: spawn_with_arm_table_def udp_wf_def tables_ok_def shard_ok_def tasks_ok_def active_flows_def worker_new_def
      map_replicate_const sum_list_replicate split: if_splits)

lemma active_flows_update:
  assumes "i < length (up_workers u)"
  shows "active_flows (u\<lparr>up_workers := (up_workers u)[i := w]\<rparr>) + length (flows (up_workers u ! i)) =
    active_flows u + length (flows w)"
proof -
  have "length (flows (up_workers u ! i)) \<le> active_flows u"
    unfolding active_flows_def using assms by (intro member_le_sum_list) auto
  moreover have "active_flows (u\<lparr>up_workers := (up_workers u)[i := w]\<rparr>) =
      active_flows u + length (flows w) - length (flows (up_workers u ! i))"
    using assms by (simp add: active_flows_def map_update sum_list_update)
  ultimately show ?thesis by simp
qed

lemma active_flows_frame [simp]:
  "active_flows (u\<lparr>flow_count := n\<rparr>) = active_flows u"
  "active_flows (u\<lparr>upstream_tasks := ts\<rparr>) = active_flows u"
  "active_flows (u\<lparr>next_sock := k\<rparr>) = active_flows u"
  by (simp_all add: active_flows_def)

text \<open>Updates of a worker that leave its flows alone.\<close>

lemma udp_wf_worker:
  assumes "udp_wf u" "i < length (up_workers u)" "flows w = flows (up_workers u ! i)"
    "\<And>p c t. creating w = Some (p, c, t) \<Longrightarrow> flow_at u i c = None"
  shows "udp_wf (u\<lparr>up_workers := (up_workers u)[i := w]\<rparr>)"
proof -
  have "active_flows (u\<lparr>up_workers := (up_workers u)[i := w]\<rparr>) = active_flows u"
    using active_flows_update [OF assms(2), of w] assms(3) by simp
  moreover have "flows ((up_workers u)[i := w] ! j) = flows (up_workers u ! j)" for j
    using assms(2,3) by (cases "i = j") simp_all
  ultimately show ?thesis
    using assms by (auto simp: udp_wf_def tables_ok_def shard_ok_def tasks_ok_def nth_list_update)
qed

lemma map_of_map_entry: "map_of (AList.map_entry k f m) j = (if j = k then map_option f (map_of m k) else map_of m j)"
  by (induction m) auto

lemma length_map_entry [simp]: "length (AList.map_entry k f m) = length m"
  by (induction m) auto

lemma udp_wf_touch:
  assumes "udp_wf u" "i < length (up_workers u)"
  shows "udp_wf (touch i c now u)"
proof -
  let ?u = "touch i c now u"
  have n: "length (up_workers ?u) = length (up_workers u)" "upstream_tasks ?u = upstream_tasks u"
    "next_sock ?u = next_sock u" "flow_count ?u = flow_count u" "up_max_flows ?u = up_max_flows u"
    by (simp_all add: touch_def)
  have fl: "flow_at ?u j d = (if j = i \<and> d = c then map_option (\<lambda>e. e\<lparr>last_seen_ms := now\<rparr>) (flow_at u i c)
      else flow_at u j d)" for j d
    using assms(2) by (simp add: touch_def nth_list_update map_of_map_entry)
  have "active_flows ?u = active_flows u"
    using active_flows_update [OF assms(2), of "(up_workers u ! i)\<lparr>flows :=
        AList.map_entry c (\<lambda>e. e\<lparr>last_seen_ms := now\<rparr>) (flows (up_workers u ! i))\<rparr>"]
    by (simp add: touch_def)
  moreover have "tables_ok ?u"
    using assms fl n(1) unfolding udp_wf_def tables_ok_def
    by (auto simp: touch_def nth_list_update shard_ok_def distinct_map_entry map_of_map_entry)
  ultimately show ?thesis
    using assms(1) unfolding udp_wf_def tasks_ok_def n fl by auto
qed

lemma drop_task_simps [simp]:
  "up_workers (drop_task s u) = up_workers u" "next_sock (drop_task s u) = next_sock u"
  "flow_count (drop_task s u) = flow_count u" "up_max_flows (drop_task s u) = up_max_flows u"
  "active_flows (drop_task s u) = active_flows u" "up_resolver (drop_task s u) = up_resolver u"
  "up_rule (drop_task s u) = up_rule u"
  "set (upstream_tasks (drop_task s u)) = {(t, i, c). (t, i, c) \<in> set (upstream_tasks u) \<and> t \<noteq> s}"
  by (auto simp: drop_task_def)

lemma distinct_drop_task: "distinct (map fst (upstream_tasks u)) \<Longrightarrow> distinct (map fst (upstream_tasks (drop_task s u)))"
  by (simp add: drop_task_def distinct_map_filter)

lemma length_delete:
  assumes "distinct (map fst m)" "map_of m k = Some v"
  shows "length (AList.delete k m) + 1 = length m"
  using assms
proof (induction m)
  case (Cons x m)
  show ?case
  proof (cases "fst x = k")
    case True
    with Cons.prems have "AList.delete k m = m" by (intro delete_id) auto
    with True show ?thesis by simp
  next
    case False
    with Cons show ?thesis by (cases x) simp
  qed
qed simp

lemma sock_unique:
  assumes "tasks_ok u" "flow_at u i c = Some e" "flow_at u j d = Some f" "upstream_sock e = upstream_sock f"
    "i < length (up_workers u)" "j < length (up_workers u)"
  shows "i = j \<and> c = d"
proof -
  have "(upstream_sock e, i, c) \<in> set (upstream_tasks u)" "(upstream_sock e, j, d) \<in> set (upstream_tasks u)"
    using assms by (auto simp: tasks_ok_def)
  moreover have "distinct (map fst (upstream_tasks u))" using assms(1) by (simp add: tasks_ok_def)
  ultimately show ?thesis by (metis eq_key_imp_eq_value prod.inject)
qed

lemma remove_flow_simps [simp]:
  "length (up_workers (fst (remove_flow i c u))) = length (up_workers u)"
  "next_sock (fst (remove_flow i c u)) = next_sock u" "upstream_tasks (fst (remove_flow i c u)) = upstream_tasks u"
  "up_max_flows (fst (remove_flow i c u)) = up_max_flows u" "up_rule (fst (remove_flow i c u)) = up_rule u"
  by (simp_all add: remove_flow_def split: option.splits)

lemma shard_ok_delete: "shard_ok i w \<Longrightarrow> shard_ok i (w\<lparr>flows := AList.delete c (flows w)\<rparr>)"
  unfolding shard_ok_def by (auto simp: distinct_delete delete_conv' simp del: map_of_eq_Some_iff)

text \<open>A flow leaves the table together with its loop.\<close>

lemma udp_wf_remove:
  assumes "udp_wf u" "i < length (up_workers u)" "flow_at u i c = Some e"
  shows "udp_wf (drop_task (upstream_sock e) (fst (remove_flow i c u)))"
proof -
  let ?w = "(up_workers u ! i)\<lparr>flows := AList.delete c (flows (up_workers u ! i))\<rparr>"
  let ?u = "drop_task (upstream_sock e) (fst (remove_flow i c u))"
  have tk: "tasks_ok u" and tb: "tables_ok u" using assms(1) by (simp_all add: udp_wf_def)
  have u: "up_workers ?u = (up_workers u)[i := ?w]" "flow_count ?u = flow_count u - 1" "next_sock ?u = next_sock u"
    "up_max_flows ?u = up_max_flows u"
    "set (upstream_tasks ?u) = {(t, i, c). (t, i, c) \<in> set (upstream_tasks u) \<and> t \<noteq> upstream_sock e}"
    by (simp_all add: remove_flow_def assms(3))
  have fl: "flow_at ?u j d = (if j = i \<and> d = c then None else flow_at u j d)" for j d
    using assms(2) by (simp add: remove_flow_def assms(3) nth_list_update delete_conv')
  have "active_flows ?u + 1 = active_flows u"
  proof -
    have "active_flows ?u = active_flows (u\<lparr>up_workers := (up_workers u)[i := ?w]\<rparr>)"
      by (simp add: active_flows_def remove_flow_def assms(3))
    moreover have "length (AList.delete c (flows (up_workers u ! i))) + 1 = length (flows (up_workers u ! i))"
      using tb assms(2) by (intro length_delete [OF _ assms(3)]) (simp add: tables_ok_def shard_ok_def)
    ultimately show ?thesis using active_flows_update [OF assms(2), of ?w] by simp
  qed
  moreover from this assms(1) have "1 \<le> flow_count u" by (auto simp: udp_wf_def word_le_nat_alt)
  ultimately have count: "unat (flow_count ?u) = active_flows ?u" "flow_count ?u \<le> up_max_flows ?u"
    unfolding u(2,4) using assms(1) by (auto simp: udp_wf_def unat_sub word_le_nat_alt)
  have "tables_ok ?u"
    using tb assms(2) shard_ok_delete [of i "up_workers u ! i" c] unfolding tables_ok_def
    by (auto simp: remove_flow_def assms(3) nth_list_update)
  moreover have "tasks_ok ?u"
    unfolding tasks_ok_def u(3,5) fl
  proof (intro conjI allI)
    show "distinct (map fst (upstream_tasks ?u))"
      using tk by (simp add: tasks_ok_def remove_flow_def assms(3) distinct_drop_task)
    fix s j d
    have "t = upstream_sock e" if "flow_at u i c = Some f" "upstream_sock f = t" for t f
      using that assms(3) by simp
    moreover have "\<not> (j = i \<and> d = c)" if "flow_at u j d = Some f" "upstream_sock f \<noteq> upstream_sock e" for f
      using that assms(3) by auto
    moreover have "upstream_sock f \<noteq> upstream_sock e" if "flow_at u j d = Some f" "\<not> (j = i \<and> d = c)" "j < length (up_workers u)" for f
      using sock_unique [OF tk that(1) assms(3) _ that(3) assms(2)] that(2) by auto
    ultimately show "((s, j, d) \<in> {(t, i, c). (t, i, c) \<in> set (upstream_tasks u) \<and> t \<noteq> upstream_sock e}) =
        (j < length (up_workers ?u) \<and> (\<exists>f. (if j = i \<and> d = c then None else flow_at u j d) = Some f \<and> upstream_sock f = s))"
      using tk by (auto simp: tasks_ok_def u(1))
    have "\<forall>(s, _)\<in>set (upstream_tasks u). s < next_sock u" using tk by (simp add: tasks_ok_def)
    then show "\<forall>(s, _)\<in>{(t, i, c). (t, i, c) \<in> set (upstream_tasks u) \<and> t \<noteq> upstream_sock e}. s < next_sock u" by auto
  qed
  ultimately show ?thesis using count by (simp add: udp_wf_def)
qed

lemma udp_wf_reap_one: "udp_wf u \<Longrightarrow> i < length (up_workers u) \<Longrightarrow> udp_wf (reap_one i c u)"
  using udp_wf_remove [of u i c] by (auto simp: reap_one_def remove_flow_def split: option.splits)

lemma reap_one_simps [simp]:
  "length (up_workers (reap_one i c u)) = length (up_workers u)" "next_sock (reap_one i c u) = next_sock u"
  "up_rule (reap_one i c u) = up_rule u" "up_max_flows (reap_one i c u) = up_max_flows u"
  by (auto simp: reap_one_def remove_flow_def split: option.splits)

lemma reap_fold_simps [simp]:
  "length (up_workers (fold (reap_one i) cs u)) = length (up_workers u)"
  "next_sock (fold (reap_one i) cs u) = next_sock u" "up_rule (fold (reap_one i) cs u) = up_rule u"
  "up_max_flows (fold (reap_one i) cs u) = up_max_flows u"
  by (induction cs arbitrary: u) simp_all

lemma udp_wf_reap_fold: "udp_wf u \<Longrightarrow> i < length (up_workers u) \<Longrightarrow> udp_wf (fold (reap_one i) cs u)"
  by (induction cs arbitrary: u) (simp_all add: udp_wf_reap_one)

text \<open>A sweep over the shards.\<close>

lemma fold_shards:
  assumes "\<And>i u. P u \<Longrightarrow> i < length (up_workers u) \<Longrightarrow> P (f i u) \<and> length (up_workers (f i u)) = length (up_workers u)"
    and "P u" "set is \<subseteq> {..<length (up_workers u)}"
  shows "P (fold f is u) \<and> length (up_workers (fold f is u)) = length (up_workers u)"
  using assms(2,3)
proof (induction "is" arbitrary: u)
  case (Cons i "is")
  then have "P (f i u)" "length (up_workers (f i u)) = length (up_workers u)" using assms(1) [of u i] by auto
  with Cons.IH [of "f i u"] Cons.prems show ?case by simp
qed simp

lemma udp_wf_reap: "udp_wf u \<Longrightarrow> udp_wf (reap_idle now u) \<and> length (up_workers (reap_idle now u)) = length (up_workers u)"
  unfolding reap_idle_def
  by (rule fold_shards [where P = udp_wf]) (auto simp: reap_shard_def Let_def udp_wf_reap_fold)

text \<open>Draining a shard is reaping all of its clients.\<close>

lemma fold_drop_task:
  "fold (\<lambda>(_, e). drop_task (upstream_sock e)) es u =
     u\<lparr>upstream_tasks := filter (\<lambda>(s, _). s \<notin> upstream_sock ` snd ` set es) (upstream_tasks u)\<rparr>"
proof (induction es arbitrary: u)
  case (Cons x es)
  obtain c e where x: "x = (c, e)" by fastforce
  show ?case using Cons.IH [of "drop_task (upstream_sock e) u"]
    by (simp add: x) (simp add: drop_task_def case_prod_beta conj_commute)
qed simp

lemma worker_flows_id: "flows w = fs \<Longrightarrow> w\<lparr>flows := fs\<rparr> = w"
  by (cases w) simp

lemma drain_shard_reap:
  assumes "distinct (map fst (flows (up_workers u ! i)))" "i < length (up_workers u)"
  shows "drain_shard i u = fold (reap_one i) (map fst (flows (up_workers u ! i))) u"
  using assms
proof (induction "flows (up_workers u ! i)" arbitrary: u)
  case Nil
  then show ?case by (simp add: drain_shard_def worker_flows_id)
next
  case (Cons x fs)
  obtain c e where x: "x = (c, e)" by fastforce
  let ?w = "up_workers u ! i"
  have fl: "flows ?w = (c, e) # fs" using Cons.hyps(2) x by simp
  have del: "AList.delete c fs = fs"
    using Cons.prems(1) unfolding fl by (simp add: delete_id)
  let ?u = "reap_one i c u"
  have u: "?u = drop_task (upstream_sock e) ((upd_worker i (\<lambda>w. w\<lparr>flows := fs\<rparr>) u)\<lparr>flow_count := flow_count u - 1\<rparr>)"
    by (simp add: reap_one_def remove_flow_def fl del)
  have fl': "flows (up_workers ?u ! i) = fs" using Cons.prems(2) by (simp add: u)
  have "drain_shard i ?u = fold (reap_one i) (map fst fs) ?u"
    using Cons.hyps(1) [of ?u] Cons.prems fl fl' by simp
  moreover have "drain_shard i ?u = drain_shard i u"
    using Cons.prems(2)
    by (simp add: drain_shard_def fold_drop_task fl fl' Let_def)
       (simp add: u drop_task_def case_prod_unfold diff_diff_eq)
  ultimately show ?case by (simp add: fl)
qed

lemma drain_shard_length [simp]: "length (up_workers (drain_shard i u)) = length (up_workers u)"
  by (simp add: drain_shard_def fold_drop_task Let_def)

lemma udp_wf_drain:
  "udp_wf u \<Longrightarrow> udp_wf (drain_all_flows u) \<and> length (up_workers (drain_all_flows u)) = length (up_workers u)"
  unfolding drain_all_flows_def
proof (rule fold_shards [where P = udp_wf])
  fix i v
  assume v: "udp_wf v" "i < length (up_workers v)"
  then have "distinct (map fst (flows (up_workers v ! i)))" by (auto simp: udp_wf_def tables_ok_def shard_ok_def)
  with v show "udp_wf (drain_shard i v) \<and> length (up_workers (drain_shard i v)) = length (up_workers v)"
    by (simp add: drain_shard_reap udp_wf_reap_fold)
qed auto

text \<open>A new flow enters the table together with its loop; the branch for an entry that is already there is dead.\<close>

lemma create_flow_wf:
  assumes "udp_wf u" "i < length (up_workers u)" "flow_at u i c = None" "create_flow i io c tgt u = (u', r)"
    "creating (up_workers u ! i) = None"
  shows "udp_wf u'"
proof (cases "si_bind_ok io \<and> si_connect_ok io \<and> flow_count u < up_max_flows u")
  case False
  let ?v = "u\<lparr>next_sock := next_sock u + 1, upstream_tasks := (next_sock u, i, c) # upstream_tasks u\<rparr>"
  have t: "\<forall>(s, _)\<in>set (upstream_tasks u). s < next_sock u" using assms(1) by (simp add: udp_wf_def tasks_ok_def)
  then have "filter (\<lambda>(s, _). s \<noteq> next_sock u) (upstream_tasks u) = upstream_tasks u" by (intro filter_True) auto
  then have d: "drop_task (next_sock u) ?v = u\<lparr>next_sock := next_sock u + 1\<rparr>" by (simp add: drop_task_def)
  have "udp_wf (u\<lparr>next_sock := next_sock u + 1\<rparr>)"
    using assms(1) t by (force simp: udp_wf_def tables_ok_def tasks_ok_def)
  with False assms d show ?thesis
    by (auto simp: create_flow_def Let_def try_reserve_flow_def split: if_splits)
next
  case True
  let ?e = "\<lparr>upstream_sock = next_sock u, upstream_peer = tgt, frontend = i, last_seen_ms = si_now_ms io\<rparr>"
  let ?w = "(up_workers u ! i)\<lparr>flows := AList.update c ?e (flows (up_workers u ! i))\<rparr>"
  have u': "up_workers u' = (up_workers u)[i := ?w]" "flow_count u' = flow_count u + 1" "next_sock u' = next_sock u + 1"
    "upstream_tasks u' = (next_sock u, i, c) # upstream_tasks u" "up_max_flows u' = up_max_flows u"
    using True assms(3,4) by (auto simp: create_flow_def Let_def try_reserve_flow_def split: if_splits)
  have tk: "tasks_ok u" and tb: "tables_ok u" using assms(1) by (simp_all add: udp_wf_def)
  have fl: "flow_at u' j d = (if j = i \<and> d = c then Some ?e else flow_at u j d)" for j d
    using assms(2) by (simp add: u'(1) nth_list_update update_conv')
  have up: "AList.update c ?e m = m @ [(c, ?e)]" if "map_of m c = None" for m
    using that by (induction m) (auto split: if_splits)
  have "active_flows u' = active_flows u + 1"
    using active_flows_update [OF assms(2), of ?w] up [OF assms(3)] u'(1) by (simp add: active_flows_def)
  moreover have "unat (flow_count u + 1) = unat (flow_count u) + 1" "flow_count u + 1 \<le> up_max_flows u"
  proof -
    have "unat (flow_count u) + 1 \<le> unat (up_max_flows u)" using True by (simp add: word_less_nat_alt)
    moreover have "unat (up_max_flows u) < 2 ^ 64" using unsigned_less [of "up_max_flows u"] by simp
    ultimately show "unat (flow_count u + 1) = unat (flow_count u) + 1" by (simp add: unat_word_ariths)
    with \<open>unat (flow_count u) + 1 \<le> _\<close> show "flow_count u + 1 \<le> up_max_flows u" by (simp add: word_le_nat_alt)
  qed
  ultimately have count: "unat (flow_count u') = active_flows u'" "flow_count u' \<le> up_max_flows u'"
    using assms(1) by (auto simp: u' udp_wf_def)
  have "shard_ok i (up_workers u ! i)" using tb assms(2) by (simp add: tables_ok_def)
  then have "shard_ok i ?w"
    using assms(5) by (auto simp: shard_ok_def distinct_update update_conv' simp del: map_of_eq_Some_iff)
  then have "tables_ok u'" using tb assms(2) by (auto simp: tables_ok_def u'(1) nth_list_update)
  moreover have "tasks_ok u'"
    unfolding tasks_ok_def u'(3,4) fl
  proof (intro conjI allI)
    have old: "\<forall>(s, _)\<in>set (upstream_tasks u). s < next_sock u" using tk by (simp add: tasks_ok_def)
    then show "distinct (map fst ((next_sock u, i, c) # upstream_tasks u))" using tk by (auto simp: tasks_ok_def)
    show "\<forall>(s, _)\<in>set ((next_sock u, i, c) # upstream_tasks u). s < next_sock u + 1" using old by auto
    fix s j d
    show "((s, j, d) \<in> set ((next_sock u, i, c) # upstream_tasks u)) = (j < length (up_workers u') \<and>
        (\<exists>f. (if j = i \<and> d = c then Some ?e else flow_at u j d) = Some f \<and> upstream_sock f = s))"
      using tk assms(2,3) by (auto simp: tasks_ok_def u'(1))
  qed
  ultimately show ?thesis using count by (simp add: udp_wf_def)
qed

section \<open>Every step keeps the invariant, and speaks for a flow of the table\<close>

text \<open>The flow an output belongs to, as socket and client.\<close>

fun out_flow :: "udp_out \<Rightarrow> (nat \<times> socket_addr) option" where
  "out_flow (ToUpstream c s _) = Some (s, c)"
| "out_flow (ToUpstreamHeader c s _) = Some (s, c)"
| "out_flow (ToClient _ s c _) = Some (s, c)"
| "out_flow (CanaryEcho _ _ _) = None"

definition out_ok :: "udp_proxy \<Rightarrow> udp_out list \<Rightarrow> bool" where
  "out_ok u out \<longleftrightarrow> (\<forall>x\<in>set out. \<forall>s c. out_flow x = Some (s, c) \<longrightarrow> (\<exists>i. (s, i, c) \<in> set (upstream_tasks u)))"

lemma out_ok_simps [simp]:
  "out_ok u []"
  "out_ok u (x # xs) \<longleftrightarrow> (\<forall>s c. out_flow x = Some (s, c) \<longrightarrow> (\<exists>i. (s, i, c) \<in> set (upstream_tasks u))) \<and> out_ok u xs"
  "out_ok u (xs @ ys) \<longleftrightarrow> out_ok u xs \<and> out_ok u ys"
  by (auto simp: out_ok_def)

lemma out_ok_tasks: "upstream_tasks u = upstream_tasks v \<Longrightarrow> out_ok u xs = out_ok v xs"
  by (simp add: out_ok_def)

lemma touch_simps [simp]:
  "length (up_workers (touch i c now u)) = length (up_workers u)" "upstream_tasks (touch i c now u) = upstream_tasks u"
  "next_sock (touch i c now u) = next_sock u" "up_max_flows (touch i c now u) = up_max_flows u" "up_local_addr (touch i c now u) = up_local_addr u"
  by (simp_all add: touch_def)

lemma flow_task:
  "udp_wf u \<Longrightarrow> i < length (up_workers u) \<Longrightarrow> flow_at u i c = Some e \<Longrightarrow> (upstream_sock e, i, c) \<in> set (upstream_tasks u)"
  by (auto simp: udp_wf_def tasks_ok_def)

definition quiet_step :: "udp_proxy \<Rightarrow> udp_proxy \<Rightarrow> udp_out list \<Rightarrow> bool" where
  "quiet_step u u' out \<longleftrightarrow>
     udp_wf u' \<and> length (up_workers u') = length (up_workers u) \<and> upstream_tasks u' = upstream_tasks u \<and>
     next_sock u' = next_sock u \<and> up_max_flows u' = up_max_flows u \<and> out_ok u out"

lemma quiet_step_trans:
  "quiet_step u u1 o1 \<Longrightarrow> quiet_step u1 u2 o2 \<Longrightarrow> quiet_step u u2 (o1 @ o2)"
  by (auto simp: quiet_step_def out_ok_def)

lemma fast_quiet:
  assumes "udp_wf u" "i < length (up_workers u)" "try_handle_inbound_fast i io p c u = (u', out, h)"
  shows "quiet_step u u' out"
  using assms udp_wf_touch [OF assms(1,2)] flow_task [OF assms(1,2)]
  by (fastforce simp: try_handle_inbound_fast_def Let_def quiet_step_def split: option.splits send_result.splits)

lemma dispatch_quiet:
  assumes "udp_wf u" "i < length (up_workers u)" "dispatch_batch i active ds u = (u', out, slow)"
  shows "quiet_step u u' out"
  using assms
proof (induction ds arbitrary: u out slow)
  case Nil
  then show ?case by (simp add: quiet_step_def)
next
  case (Cons d ds)
  obtain p c io where d: "d = (p, c, io)" by (metis prod_cases3)
  obtain u1 out1 h where s1: "(if canary_hit u active (fi_arms io) (fi_clock io) p then
              (case fi_try io of
                 Sent \<Rightarrow> (u, [CanaryEcho i c p], True) | WouldBlock \<Rightarrow> (u, [], False) | SendFailed \<Rightarrow> (u, [], True))
            else try_handle_inbound_fast i io p c u) = (u1, out1, h)" by (metis prod_cases3)
  have q1: "quiet_step u u1 out1"
  proof (cases "canary_hit u active (fi_arms io) (fi_clock io) p")
    case True
    with s1 Cons.prems(1) show ?thesis by (auto simp: quiet_step_def split: send_result.splits)
  next
    case False
    with s1 fast_quiet [OF Cons.prems(1,2)] show ?thesis by simp
  qed
  obtain u2 out2 sl where s2: "dispatch_batch i active ds u1 = (u2, out2, sl)" by (metis prod_cases3)
  have "u2 = u'" "out = out1 @ out2" using Cons.prems(3) d s1 s2 by (auto split: if_splits)
  moreover have "quiet_step u1 u2 out2"
    using Cons.IH [OF _ _ s2 [unfolded \<open>u2 = u'\<close>]] q1 Cons.prems(2) \<open>u2 = u'\<close> by (simp add: quiet_step_def)
  ultimately show ?case using quiet_step_trans [OF q1] by simp
qed

lemma recv_batch_quiet:
  assumes "udp_wf u" "worker_at i (\<lambda>w. slow_path w = [] \<and> creating w = None) u" "recv_batch i arms clock ds u = (u', out)"
  shows "quiet_step u u' out"
proof -
  obtain v o1 sl where d: "dispatch_batch i (is_armed clock arms (up_local_addr u, Udp)) ds u = (v, o1, sl)"
    by (metis prod_cases3)
  have i: "i < length (up_workers u)" using assms(2) by (simp add: worker_at_def)
  note q = dispatch_quiet [OF assms(1) i d]
  have u': "u' = upd_worker i (\<lambda>w. w\<lparr>arm_active := is_armed clock arms (up_local_addr u, Udp), slow_path := sl\<rparr>) v" "out = o1"
    using assms(3) d by (simp_all add: recv_batch_def)
  have "udp_wf v" "i < length (up_workers v)" using q i by (simp_all add: quiet_step_def)
  then have "udp_wf u'" unfolding u'
    by (rule udp_wf_worker) (use \<open>udp_wf v\<close> \<open>i < length (up_workers v)\<close> in \<open>auto simp: udp_wf_def tables_ok_def shard_ok_def\<close>)
  with q show ?thesis by (simp add: quiet_step_def u')
qed

lemma handle_inbound_quiet:
  assumes "udp_wf u" "i < length (up_workers u)" "creating (up_workers u ! i) = None" "handle_inbound i ps io p c u = (u', out)"
  shows "quiet_step u u' out"
proof (cases "flow_at u i c")
  case (Some e)
  with assms udp_wf_touch [OF assms(1,2)] flow_task [OF assms(1,2)] show ?thesis
    by (fastforce simp: handle_inbound_def quiet_step_def)
next
  case None
  have "udp_wf (upd_worker i (\<lambda>w. w\<lparr>creating := Some (p, c, tgt)\<rparr>) u)"
    "udp_wf (upd_worker i (\<lambda>w. w\<lparr>pending_real_clients := x\<rparr>) u)" for tgt x
    using assms(3) None by (auto intro!: udp_wf_worker [OF assms(1,2)])
  with None assms(1,2,4) show ?thesis
    by (auto simp: handle_inbound_def quiet_step_def split: option.splits if_splits)
qed

lemma service_slow_quiet:
  assumes "udp_wf u" "worker_at i (\<lambda>w. creating w = None) u" "service_slow i ps io u = (u', out)"
  shows "quiet_step u u' out"
proof (cases "slow_path (up_workers u ! i)")
  case Nil
  with assms(1,3) show ?thesis by (auto simp: service_slow_def quiet_step_def)
next
  case (Cons x rest)
  obtain p c where x: "x = (p, c)" by fastforce
  let ?v = "upd_worker i (\<lambda>w. w\<lparr>slow_path := rest\<rparr>) u"
  have i: "i < length (up_workers u)" "creating (up_workers u ! i) = None" using assms(2) by (simp_all add: worker_at_def)
  have v: "udp_wf ?v" by (rule udp_wf_worker [OF assms(1) i(1)]) (use i in auto)
  have v': "i < length (up_workers ?v)" "creating (up_workers ?v ! i) = None" using i by simp_all
  have "quiet_step ?v u' out"
  proof (cases "canary_hit ?v (arm_active (up_workers u ! i)) (si_arms io) (si_clock io) p")
    case True
    with assms(3) Cons x v show ?thesis by (auto simp: service_slow_def quiet_step_def Let_def split: if_splits)
  next
    case False
    with assms(3) Cons x have "handle_inbound i ps io p c ?v = (u', out)" by (simp add: service_slow_def Let_def)
    then show ?thesis by (rule handle_inbound_quiet [OF v v'])
  qed
  moreover have "quiet_step u ?v []" using v by (simp add: quiet_step_def)
  ultimately show ?thesis using quiet_step_trans by fastforce
qed

lemma create_flow_tasks:
  assumes "udp_wf u" "i < length (up_workers u)" "create_flow i io c tgt u = (u', r)"
  shows "next_sock u \<le> next_sock u' \<and> up_max_flows u' = up_max_flows u"
    "(s, j, d) \<in> set (upstream_tasks u') \<Longrightarrow> (s, j, d) \<in> set (upstream_tasks u) \<or> next_sock u \<le> s"
    "r = Some e \<Longrightarrow> (upstream_sock e, i, c) \<in> set (upstream_tasks u')"
proof -
  have t: "\<forall>(s, _)\<in>set (upstream_tasks u). s < next_sock u" using assms(1) by (simp add: udp_wf_def tasks_ok_def)
  show "next_sock u \<le> next_sock u' \<and> up_max_flows u' = up_max_flows u"
    "(s, j, d) \<in> set (upstream_tasks u') \<Longrightarrow> (s, j, d) \<in> set (upstream_tasks u) \<or> next_sock u \<le> s"
    using assms(3)
    by (auto simp: create_flow_def Let_def try_reserve_flow_def split: if_splits option.splits)
  show "(upstream_sock e, i, c) \<in> set (upstream_tasks u')" if "r = Some e"
    using assms(3) that flow_task [OF assms(1,2), of c] t
    by (fastforce simp: create_flow_def Let_def try_reserve_flow_def split: if_splits option.splits)
qed

text \<open>What every step does to the flows: the old ones or new sockets, and outputs for one of them.\<close>

definition udp_evolves :: "udp_proxy \<Rightarrow> udp_proxy \<Rightarrow> udp_out list \<Rightarrow> bool" where
  "udp_evolves u u' out \<longleftrightarrow>
     udp_wf u' \<and> next_sock u \<le> next_sock u' \<and> up_max_flows u' = up_max_flows u \<and>
     (\<forall>s i c. (s, i, c) \<in> set (upstream_tasks u') \<longrightarrow> (s, i, c) \<in> set (upstream_tasks u) \<or> next_sock u \<le> s) \<and>
     (out_ok u out \<or> out_ok u' out)"

lemma quiet_evolves: "quiet_step u u' out \<Longrightarrow> udp_evolves u u' out"
  by (auto simp: quiet_step_def udp_evolves_def)

lemma finish_inbound_evolves:
  assumes "udp_wf u" "i < length (up_workers u)" "finish_inbound i io u = (u', out)"
  shows "udp_evolves u u' out"
proof (cases "creating (up_workers u ! i)")
  case None
  with assms(1,3) show ?thesis by (auto simp: finish_inbound_def udp_evolves_def)
next
  case (Some x)
  obtain p c tgt where x: "x = (p, c, tgt)" by (metis prod_cases3)
  let ?v = "upd_worker i (\<lambda>w. w\<lparr>creating := None\<rparr>) u"
  have v: "udp_wf ?v" by (rule udp_wf_worker [OF assms(1,2)]) auto
  have v': "i < length (up_workers ?v)" "creating (up_workers ?v ! i) = None" using assms(2) by simp_all
  have fr: "flow_at ?v i c = None" using assms(1,2) Some x by (simp add: udp_wf_def tables_ok_def shard_ok_def)
  obtain w r where cf: "create_flow i io c tgt ?v = (w, r)" by fastforce
  note wf = create_flow_wf [OF v v'(1) fr cf v'(2)]
  note t = create_flow_tasks [OF v v'(1) cf]
  have w: "i < length (up_workers w)" "creating (up_workers w ! i) = None"
    using cf v' by (auto simp: create_flow_def Let_def try_reserve_flow_def split: if_splits option.splits)
  show ?thesis
  proof (cases r)
    case None
    with assms(3) Some x cf wf t show ?thesis by (auto simp: finish_inbound_def Let_def udp_evolves_def)
  next
    case (Some e)
    let ?u' = "upd_worker i (\<lambda>w. w\<lparr>pending_real_clients := AList.delete c (pending_real_clients w)\<rparr>) w"
    have "udp_wf ?u'" by (rule udp_wf_worker [OF wf w(1)]) (use w(2) in auto)
    moreover have "u' = ?u'" "out_ok ?u' out"
      using assms(3) \<open>creating _ = Some x\<close> x cf Some t(3) [OF Some]
      by (auto simp: finish_inbound_def Let_def split: if_splits)
    ultimately show ?thesis using t(1,2) by (auto simp: udp_evolves_def)
  qed
qed

lemma upstream_batch_evolves:
  assumes "udp_wf u" "task_of u s = Some (i, c)" "upstream_batch_forward s i c ps mm oks now u = (u', out)"
  shows "udp_evolves u u' out"
proof -
  have m: "(s, i, c) \<in> set (upstream_tasks u)" using assms(2) by (rule map_of_SomeD)
  then have i: "i < length (up_workers u)" using assms(1) by (auto simp: udp_wf_def tasks_ok_def)
  have m': "\<exists>i. (s, i, c) \<in> set (upstream_tasks u)" using m by blast
  have "out_ok u out" "u' = touch i c now u"
    using assms(3) by (auto simp: m'  upstream_batch_forward_def Let_def out_ok_def split: batch_send.splits if_splits)
  with udp_wf_touch [OF assms(1) i] show ?thesis by (simp add: udp_evolves_def)
qed

lemma upstream_failed_evolves:
  assumes "udp_wf u" "task_of u s = Some (i, c)"
  shows "udp_evolves u (upstream_recv_failed s i c u) []"
proof -
  have "(s, i, c) \<in> set (upstream_tasks u)" using assms(2) by (rule map_of_SomeD)
  then obtain e where "i < length (up_workers u)" "flow_at u i c = Some e" "upstream_sock e = s"
    using assms(1) by (auto simp: udp_wf_def tasks_ok_def)
  with udp_wf_remove [OF assms(1)] show ?thesis by (auto simp: udp_evolves_def upstream_recv_failed_def)
qed

lemma reap_tasks:
  "set (upstream_tasks (reap_one i c u)) \<subseteq> set (upstream_tasks u)"
  "set (upstream_tasks (fold (reap_one i) cs u)) \<subseteq> set (upstream_tasks u)"
proof -
  show one: "set (upstream_tasks (reap_one i c u)) \<subseteq> set (upstream_tasks u)" for c u
    by (auto simp: reap_one_def remove_flow_def split: option.splits)
  show "set (upstream_tasks (fold (reap_one i) cs u)) \<subseteq> set (upstream_tasks u)"
    by (induction cs arbitrary: u) (use one in fastforce)+
qed

lemma reap_shard_evolves:
  assumes "udp_wf u" "i < length (up_workers u)"
  shows "udp_wf (fold (reap_one i) cs u) \<and> next_sock (fold (reap_one i) cs u) = next_sock u \<and>
    set (upstream_tasks (fold (reap_one i) cs u)) \<subseteq> set (upstream_tasks u)"
  using assms reap_tasks(2) udp_wf_reap_fold by simp

lemma sweep_evolves:
  assumes "\<And>i v. udp_wf v \<Longrightarrow> i < length (up_workers v) \<Longrightarrow> \<exists>cs. f i v = fold (reap_one i) cs v" "udp_wf u"
  shows "udp_evolves u (fold f [0..<length (up_workers u)] u) []"
proof -
  let ?P = "\<lambda>v. udp_wf v \<and> next_sock v = next_sock u \<and> up_max_flows v = up_max_flows u \<and> set (upstream_tasks v) \<subseteq> set (upstream_tasks u)"
  have "?P (fold f [0..<length (up_workers u)] u) \<and>
      length (up_workers (fold f [0..<length (up_workers u)] u)) = length (up_workers u)"
  proof (rule fold_shards [where P = ?P])
    fix i v
    assume v: "?P v" "i < length (up_workers v)"
    then obtain cs where "f i v = fold (reap_one i) cs v" using assms(1) by blast
    with v reap_shard_evolves [of v i cs] show "?P (f i v) \<and> length (up_workers (f i v)) = length (up_workers v)"
      by auto
  qed (use assms(2) in auto)
  then show ?thesis by (auto simp: udp_evolves_def)
qed

lemma udp_step_evolves:
  assumes "udp_wf u" "udp_step u ev = (u', out)"
  shows "udp_evolves u u' out"
proof -
  have same: "udp_evolves u u []" using assms(1) by (simp add: udp_evolves_def)
  show ?thesis
  proof (cases ev)
    case (RecvBatch i arms clock ds)
    with assms same show ?thesis using recv_batch_quiet quiet_evolves by (fastforce split: if_splits)
  next
    case (ServiceSlow i ps io)
    with assms same show ?thesis using service_slow_quiet quiet_evolves by (fastforce split: if_splits)
  next
    case (SocketReady i io)
    with assms same show ?thesis using finish_inbound_evolves by (fastforce simp: worker_at_def split: if_splits)
  next
    case (UpstreamBatch s ps mm oks now)
    with assms same show ?thesis by (auto split: option.splits intro: upstream_batch_evolves)
  next
    case (UpstreamDatagram s p ok now)
    have "udp_evolves u (touch i c now u) [ToClient f s c p]" if "task_of u s = Some (i, c)" for i c f
    proof -
      have m: "(s, i, c) \<in> set (upstream_tasks u)" using that by (rule map_of_SomeD)
      then have "i < length (up_workers u)" using assms(1) by (auto simp: udp_wf_def tasks_ok_def)
      from udp_wf_touch [OF assms(1) this] m show ?thesis by (auto simp: udp_evolves_def)
    qed
    with assms same UpstreamDatagram show ?thesis
      by (auto simp: upstream_recv_single_def split: option.splits if_splits)
  next
    case (UpstreamFailed s)
    with assms same show ?thesis using upstream_failed_evolves [OF assms(1)] by (auto split: option.splits)
  next
    case (ReapTick now)
    have "udp_evolves u (reap_idle now u) []"
      unfolding reap_idle_def by (rule sweep_evolves) (auto simp: reap_shard_def Let_def assms(1))
    with ReapTick assms(2) show ?thesis by auto
  next
    case PeerIpChanged
    have "udp_evolves u (drain_all_flows u) []"
      unfolding drain_all_flows_def
      by (rule sweep_evolves) (use drain_shard_reap assms(1) in \<open>auto simp: udp_wf_def tables_ok_def shard_ok_def\<close>)
    with PeerIpChanged assms(2) show ?thesis by auto
  qed
qed

lemma udp_run_evolves:
  assumes "udp_wf u" "udp_run u evs = (u', out)"
  shows "udp_wf u' \<and> up_max_flows u' = up_max_flows u"
  using assms
proof (induction evs arbitrary: u out)
  case (Cons ev evs)
  obtain u1 o1 where s1: "udp_step u ev = (u1, o1)" by fastforce
  obtain u2 o2 where s2: "udp_run u1 evs = (u2, o2)" by fastforce
  have "udp_wf u1" "up_max_flows u1 = up_max_flows u"
    using udp_step_evolves [OF Cons.prems(1) s1] by (simp_all add: udp_evolves_def)
  with Cons.IH [of u1 o2] Cons.prems(2) s1 s2 show ?case by simp
qed simp

text \<open>The pairs of socket and client a run speaks about.\<close>

definition mentions :: "udp_proxy \<Rightarrow> udp_out list \<Rightarrow> (nat \<times> socket_addr) set" where
  "mentions u out = {(s, c). \<exists>i. (s, i, c) \<in> set (upstream_tasks u)} \<union> {(s, c). \<exists>x\<in>set out. out_flow x = Some (s, c)}"

lemma tasks_single_valued: "udp_wf u \<Longrightarrow> (s, i, c) \<in> set (upstream_tasks u) \<Longrightarrow> (s, j, d) \<in> set (upstream_tasks u) \<Longrightarrow> c = d"
  by (metis eq_key_imp_eq_value prod.inject tasks_ok_def udp_wf_def)

lemma tasks_old: "udp_wf u \<Longrightarrow> (s, i, c) \<in> set (upstream_tasks u) \<Longrightarrow> s < next_sock u"
  by (fastforce simp: udp_wf_def tasks_ok_def)

lemma run_mentions:
  assumes "udp_wf u" "udp_run u evs = (u', out)"
  shows "single_valued (mentions u out) \<and>
    (\<forall>s c. (s, c) \<in> mentions u out \<longrightarrow> (\<exists>i. (s, i, c) \<in> set (upstream_tasks u)) \<or> next_sock u \<le> s)"
  using assms
proof (induction evs arbitrary: u out)
  case Nil
  then show ?case using tasks_single_valued [OF Nil.prems(1)] by (auto simp: mentions_def single_valued_def)
next
  case (Cons ev evs)
  obtain u1 o1 where s1: "udp_step u ev = (u1, o1)" by fastforce
  obtain u2 o2 where s2: "udp_run u1 evs = (u2, o2)" by fastforce
  have e: "udp_wf u1" "next_sock u \<le> next_sock u1"
    "\<And>s i c. (s, i, c) \<in> set (upstream_tasks u1) \<Longrightarrow> (s, i, c) \<in> set (upstream_tasks u) \<or> next_sock u \<le> s"
    "out_ok u o1 \<or> out_ok u1 o1"
    using udp_step_evolves [OF Cons.prems(1) s1] by (auto simp: udp_evolves_def)
  have "u2 = u'" "out = o1 @ o2" using Cons.prems(2) s1 s2 by auto
  with Cons.IH [OF e(1)] s2 have IH: "single_valued (mentions u1 o2)"
    "\<And>s c. (s, c) \<in> mentions u1 o2 \<Longrightarrow> (\<exists>i. (s, i, c) \<in> set (upstream_tasks u1)) \<or> next_sock u1 \<le> s"
    by auto
  have sub: "mentions u out \<subseteq> {(s, c). \<exists>i. (s, i, c) \<in> set (upstream_tasks u)} \<union> mentions u1 o2"
    using e(4) \<open>out = _\<close> by (auto simp: mentions_def out_ok_def)
  have later: "(\<exists>i. (s, i, c) \<in> set (upstream_tasks u)) \<or> next_sock u \<le> s" if "(s, c) \<in> mentions u1 o2" for s c
    using IH(2) [OF that] e(2,3) by fastforce
  have "c = d" if "(s, i, c) \<in> set (upstream_tasks u)" "(s, d) \<in> mentions u1 o2" for s i c d
    using later [OF that(2)] tasks_single_valued [OF Cons.prems(1) that(1)] tasks_old [OF Cons.prems(1) that(1)] by auto
  then have "single_valued ({(s, c). \<exists>i. (s, i, c) \<in> set (upstream_tasks u)} \<union> mentions u1 o2)"
    using IH(1) tasks_single_valued [OF Cons.prems(1)] unfolding single_valued_def by blast
  from single_valued_subset [OF sub this] have "single_valued (mentions u out)" .
  moreover have "(\<exists>i. (s, i, c) \<in> set (upstream_tasks u)) \<or> next_sock u \<le> s" if "(s, c) \<in> mentions u out" for s c
    using subsetD [OF sub that] later by blast
  ultimately show ?case by blast
qed

section \<open>Sweeps in closed form\<close>

lemma reap_one_flows:
  assumes "i < length (up_workers u)"
  shows "flow_at (reap_one i c u) j d = (if j = i \<and> d = c then None else flow_at u j d)"
  using assms
  by (auto simp: reap_one_def remove_flow_def nth_list_update delete_conv' split: option.splits)

lemma reap_fold_flows:
  assumes "i < length (up_workers u)"
  shows "flow_at (fold (reap_one i) cs u) j d = (if j = i \<and> d \<in> set cs then None else flow_at u j d)"
  using assms by (induction cs arbitrary: u) (auto simp: reap_one_flows)

lemma reap_shard_flows:
  assumes "udp_wf u" "i < length (up_workers u)"
  shows "flow_at (reap_shard now i u) j d =
    (case flow_at u j d of Some e \<Rightarrow> if j = i \<and> is_idle now (idle_ms u) e then None else Some e | None \<Rightarrow> None)"
proof -
  let ?vs = "map fst (filter (\<lambda>(_, e). is_idle now (idle_ms u) e) (flows (up_workers u ! i)))"
  have "distinct (map fst (flows (up_workers u ! i)))" using assms by (auto simp: udp_wf_def tables_ok_def shard_ok_def)
  then have "d \<in> set ?vs \<longleftrightarrow> (\<exists>e. flow_at u i d = Some e \<and> is_idle now (idle_ms u) e)" by force
  then show ?thesis
    using reap_fold_flows [OF assms(2), of ?vs j d] by (auto simp: reap_shard_def Let_def split: option.splits)
qed

lemma reap_shard_frame:
  "udp_wf u \<Longrightarrow> i < length (up_workers u) \<Longrightarrow>
     udp_wf (reap_shard now i u) \<and> length (up_workers (reap_shard now i u)) = length (up_workers u) \<and>
     idle_ms (reap_shard now i u) = idle_ms u"
  by (auto simp: reap_shard_def Let_def udp_wf_reap_fold idle_ms_def)

lemma reap_prefix:
  assumes "udp_wf u" "k \<le> length (up_workers u)"
  shows "udp_wf (fold (reap_shard now) [0..<k] u) \<and> length (up_workers (fold (reap_shard now) [0..<k] u)) = length (up_workers u) \<and>
    idle_ms (fold (reap_shard now) [0..<k] u) = idle_ms u \<and>
    (\<forall>j d. flow_at (fold (reap_shard now) [0..<k] u) j d =
      (case flow_at u j d of Some e \<Rightarrow> if j < k \<and> is_idle now (idle_ms u) e then None else Some e | None \<Rightarrow> None))"
  using assms(2)
proof (induction k)
  case 0
  then show ?case using assms(1) by (auto split: option.splits)
next
  case (Suc k)
  let ?v = "fold (reap_shard now) [0..<k] u"
  have v: "udp_wf ?v" "k < length (up_workers ?v)" "idle_ms ?v = idle_ms u" "length (up_workers ?v) = length (up_workers u)"
    using Suc by auto
  have fl: "flow_at ?v j d =
      (case flow_at u j d of Some e \<Rightarrow> if j < k \<and> is_idle now (idle_ms u) e then None else Some e | None \<Rightarrow> None)" for j d
    using Suc by auto
  show ?case
    using reap_shard_frame [OF v(1,2), of now] v(3,4) reap_shard_flows [OF v(1,2), of now]
    by (auto simp: fl less_Suc_eq split: option.splits)
qed

lemma drain_all_flows_at:
  assumes "udp_wf u" "j < length (up_workers u)"
  shows "flows (up_workers (drain_all_flows u) ! j) = []"
proof -
  have one: "flows (up_workers (drain_shard i v) ! j) = (if i = j then [] else flows (up_workers v ! j))"
    if "i < length (up_workers v)" for i v
    using that by (simp add: drain_shard_def fold_drop_task Let_def nth_list_update)
  have "length (up_workers (fold drain_shard is v)) = length (up_workers v)" for "is" v
    by (induction "is" arbitrary: v) simp_all
  moreover have "flows (up_workers (fold drain_shard [0..<k] u) ! j) = (if j < k then [] else flows (up_workers u ! j))"
    if "k \<le> length (up_workers u)" for k
    using that
  proof (induction k)
    case (Suc k)
    then show ?case using one [of k "fold drain_shard [0..<k] u"] calculation by (simp add: less_Suc_eq)
  qed simp
  ultimately show ?thesis using assms(2) by (simp add: drain_all_flows_def)
qed

lemma drained:
  assumes "udp_wf u"
  shows "active_flows (drain_all_flows u) = 0 \<and> flow_count (drain_all_flows u) = 0 \<and> upstream_tasks (drain_all_flows u) = []"
proof -
  let ?v = "drain_all_flows u"
  have wf: "udp_wf ?v" "length (up_workers ?v) = length (up_workers u)" using udp_wf_drain [OF assms] by simp_all
  have no: "\<forall>j<length (up_workers ?v). flows (up_workers ?v ! j) = []"
    using drain_all_flows_at [OF assms] wf(2) by simp
  then have "active_flows ?v = 0" by (auto simp: active_flows_def in_set_conv_nth)
  moreover from this wf(1) have "flow_count ?v = 0" by (simp add: udp_wf_def unsigned_eq_0_iff)
  moreover have "(s, i, c) \<notin> set (upstream_tasks ?v)" for s i c
    using wf(1) no by (auto simp: udp_wf_def tasks_ok_def)
  then have "upstream_tasks ?v = []" by (cases "upstream_tasks ?v") (simp, metis list.set_intros(1) prod_cases3)
  ultimately show ?thesis by simp
qed

end
