(* ===== verification/Udp_Flows.thy ===== *)
theory Udp_Flows
  imports Udp_Proxy
begin

text \<open>
  What the UDP proxy promises: the flow budget, the separation of clients, idle eviction, the
  stability of flows under heartbeats, and the announcement of the real client along a chain of
  relays, with two situations in which the last one fails.
\<close>

section \<open>Relays in a chain\<close>

text \<open>
  A relay that is met by the two datagrams opening a flow, from the socket \<open>hp_src\<close> of the hop
  before it: the header, the application datagram, and the completion of the socket.
\<close>

record udp_hop =
  hp_proxy :: udp_proxy
  hp_peer :: peer_state
  hp_src :: socket_addr
  hp_io1 :: slow_io
  hp_io2 :: slow_io
  hp_io3 :: slow_io

definition hop_out :: "udp_hop \<Rightarrow> bytes \<Rightarrow> bytes \<Rightarrow> udp_out list" where
  "hop_out h hdr p =
     (case handle_inbound 0 (hp_peer h) (hp_io1 h) hdr (hp_src h) (hp_proxy h) of (u1, out1) \<Rightarrow>
      case handle_inbound 0 (hp_peer h) (hp_io2 h) p (hp_src h) u1 of (u2, out2) \<Rightarrow>
      case finish_inbound 0 (hp_io3 h) u2 of (u3, out3) \<Rightarrow> out1 @ out2 @ out3)"

fun relay_chain :: "udp_hop list \<Rightarrow> bytes \<times> bytes \<Rightarrow> (bytes \<times> bytes) option" where
  "relay_chain [] d = Some d"
| "relay_chain (h # hs) (hdr, p) =
     (case hop_out h hdr p of
        [ToUpstreamHeader _ _ hdr', ToUpstream _ _ p'] \<Rightarrow> relay_chain hs (hdr', p')
      | _ \<Rightarrow> None)"

text \<open>A relay that can open the flow: no flow for the source yet, a known peer, room, working sockets.\<close>

definition hop_ready :: "udp_hop \<Rightarrow> bool" where
  "hop_ready h \<longleftrightarrow>
     up_workers (hp_proxy h) \<noteq> [] \<and> flow_at (hp_proxy h) 0 (hp_src h) = None \<and> expect_inbound_proxy (hp_proxy h) \<and>
     current_target (hp_peer h) (up_resolver (hp_proxy h)) \<noteq> None \<and>
     flow_count (hp_proxy h) < up_max_flows (hp_proxy h) \<and> proxy_protocol (up_rule (hp_proxy h)) = Some V2 \<and>
     si_bind_ok (hp_io3 h) \<and> si_connect_ok (hp_io3 h) \<and> si_header_ok (hp_io3 h) \<and> si_send_ok (hp_io3 h) \<and>
     si_clock (hp_io3 h) - si_clock (hp_io1 h) \<le> PENDING_PROXY_TTL"

section \<open>A concrete proxy\<close>

text \<open>One worker, two flows at most, a peer that has been heard from, sockets that work.\<close>

definition game_rule :: rule where
  "game_rule = \<lparr>rule_name = ''g'', listen = SockV4 0 7, protocol = Udp, target_port = Some 8, target = None,
     idle_timeout = None, proxy_protocol = Some V2\<rparr>"

definition game_proxy :: udp_proxy where
  "game_proxy = the (spawn_with_arm_table game_rule (SockV4 0 7) (ResolverDynamic 8) 2 1 True)"

definition game_peer :: peer_state where
  "game_peer = \<lparr>peer_static_key = None, current_ip = Some (V4 9), watch_version = 1, last_heartbeat = 1\<rparr>"

definition game_io :: slow_io where
  "game_io = \<lparr>si_arms = [], si_clock = 0, si_now_ms = 5, si_send_ok = True, si_header_ok = True, si_bind_ok = True,
     si_connect_ok = True\<rparr>"

definition game_hop :: udp_hop where
  "game_hop = \<lparr>hp_proxy = game_proxy, hp_peer = game_peer, hp_src = SockV4 3 3, hp_io1 = game_io, hp_io2 = game_io,
     hp_io3 = game_io\<rparr>"

definition game_events :: "udp_event list" where
  "game_events =
     [RecvBatch 0 [] 0 [([1], SockV4 3 3, \<lparr>fi_arms = [], fi_clock = 0, fi_now_ms = 5, fi_try = Sent\<rparr>)],
      ServiceSlow 0 game_peer game_io, SocketReady 0 game_io, UpstreamDatagram 0 [2] True 6]"

lemma game_proxy_spawn: "spawn_with_arm_table game_rule (SockV4 0 7) (ResolverDynamic 8) 2 1 True = Some game_proxy"
  by (simp add: game_proxy_def spawn_with_arm_table_def)

lemmas game_defs = game_proxy_def game_rule_def game_peer_def game_io_def spawn_with_arm_table_def worker_new_def

lemma game_hop_ready: "hop_ready game_hop"
  by (simp add: hop_ready_def game_hop_def game_defs)

lemma game_run:
  "snd (udp_run game_proxy game_events) =
     [ToUpstreamHeader (SockV4 3 3) 0 (encode_header V2 (SockV4 3 3) (SockV4 0 7)), ToUpstream (SockV4 3 3) 0 [1],
      ToClient 0 0 (SockV4 3 3) [2]]"
  by (simp add: game_events_def game_defs worker_at_def recv_batch_def is_armed_def canary_hit_def
      try_handle_inbound_fast_def service_slow_def handle_inbound_def decode_v2_from_datagram_def finish_inbound_def
      create_flow_def try_reserve_flow_def outbound_client_def upstream_recv_single_def return_frontend_def Let_def)

lemma game_state:
  "flows (up_workers (fst (udp_run game_proxy game_events)) ! 0) =
     [(SockV4 3 3, \<lparr>upstream_sock = 0, upstream_peer = SockV4 9 8, frontend = 0, last_seen_ms = 6\<rparr>)] \<and>
   up_rule (fst (udp_run game_proxy game_events)) = game_rule \<and> up_workers (fst (udp_run game_proxy game_events)) \<noteq> []"
  by (simp add: game_events_def game_defs worker_at_def recv_batch_def is_armed_def canary_hit_def
      try_handle_inbound_fast_def service_slow_def handle_inbound_def decode_v2_from_datagram_def finish_inbound_def
      create_flow_def try_reserve_flow_def outbound_client_def upstream_recv_single_def return_frontend_def touch_def Let_def)

section \<open>Heartbeats and the flow table\<close>

text \<open>The peer's heartbeats, and rounds of the IP-change watcher.\<close>

datatype peer_event = Beat u64 socket_addr | Poll

fun watch_run :: "peer_event list \<Rightarrow> peer_state \<Rightarrow> nat \<times> udp_proxy \<Rightarrow> peer_state \<times> nat \<times> udp_proxy" where
  "watch_run [] ps w = (ps, w)"
| "watch_run (Beat t a # evs) ps w = watch_run evs (fst (record_heartbeat t a ps)) w"
| "watch_run (Poll # evs) ps w = watch_run evs ps (ipchange_poll ps w)"

fun confirms :: "ip_addr \<Rightarrow> peer_event \<Rightarrow> bool" where
  "confirms ip (Beat _ a) \<longleftrightarrow> sa_ip a = ip"
| "confirms ip Poll \<longleftrightarrow> True"

lemma confirming_beat:
  assumes "current_ip ps = Some (sa_ip a)"
  shows "current_ip (fst (record_heartbeat t a ps)) = Some (sa_ip a) \<and>
    watch_version (fst (record_heartbeat t a ps)) = watch_version ps"
  using assms by (simp add: record_heartbeat_def Let_def)

lemma watch_run_confirming:
  assumes "current_ip ps = Some ip" "list_all (confirms ip) evs" "ver = watch_version ps"
  shows "snd (watch_run evs ps (ver, u)) = (ver, u)"
  using assms
proof (induction evs arbitrary: ps)
  case (Cons ev evs)
  show ?case
  proof (cases ev)
    case (Beat t a)
    with Cons.prems have c: "current_ip (fst (record_heartbeat t a ps)) = Some ip"
      "watch_version (fst (record_heartbeat t a ps)) = ver"
      using confirming_beat [of ps a t] by auto
    from Cons.IH [OF c(1) _ c(2) [symmetric]] Cons.prems(2) Beat show ?thesis by simp
  next
    case Poll
    with Cons show ?thesis by (simp add: ipchange_poll_def)
  qed
qed simp

text \<open>
  C23: Flows survive heartbeats and nothing else keeps stale ones. As long as the heartbeats confirm
  the peer's address, no number of them and of watcher rounds changes the flow tables; after a
  heartbeat from another address the next round of the watcher leaves no flow, no running
  upstream loop and a flow count of zero.
\<close>

theorem flows_follow_peer_ip:
  assumes "current_ip ps = Some ip" "list_all (confirms ip) evs"
    and "udp_wf u" "is_dynamic (up_resolver u)" "sa_ip a \<noteq> ip"
  shows "snd (watch_run evs ps (watch_version ps, u)) = (watch_version ps, u) \<and>
    (case snd (snd (watch_run [Beat t a, Poll] ps (watch_version ps, u))) of
       u' \<Rightarrow> active_flows u' = 0 \<and> flow_count u' = 0 \<and> upstream_tasks u' = [])"
  using watch_run_confirming [OF assms(1,2) refl] drained [OF assms(3)] assms(1,4,5)
  by (auto simp: record_heartbeat_def Let_def ipchange_poll_def)

theorem flows_follow_peer_ip_witness:
  "snd (watch_run [Beat 2 (SockV4 9 1), Poll, Beat 3 (SockV4 9 2)] game_peer (1, game_proxy)) = (1, game_proxy)"
proof -
  have "udp_wf game_proxy" by (rule udp_wf_spawn [OF game_proxy_spawn])
  with flows_follow_peer_ip [of game_peer "V4 9" "[Beat 2 (SockV4 9 1), Poll, Beat 3 (SockV4 9 2)]" game_proxy "SockV4 1 1"]
  show ?thesis by (simp add: game_peer_def game_proxy_def spawn_with_arm_table_def)
qed

lemma drain_all_keeps:
  assumes "i < length (up_workers u)"
  shows "creating (up_workers (drain_all_flows u) ! i) = creating (up_workers u ! i) \<and>
    up_max_flows (drain_all_flows u) = up_max_flows u"
proof -
  have one: "creating (up_workers (drain_shard j v) ! i) = creating (up_workers v ! i)" for j v
    by (cases "j < length (up_workers v)") (auto simp: drain_shard_def fold_drop_task Let_def nth_list_update list_update_beyond)
  have mx: "up_max_flows (drain_shard j v) = up_max_flows v" for j v
    by (simp add: drain_shard_def fold_drop_task Let_def)
  have "creating (up_workers (fold drain_shard js v) ! i) = creating (up_workers v ! i) \<and>
      up_max_flows (fold drain_shard js v) = up_max_flows v" for js v
    by (induction js arbitrary: v) (simp_all add: one mx)
  then show ?thesis by (simp add: drain_all_flows_def)
qed

text \<open>
  C24: A flow that is being opened while the peer moves outlives the move. A worker has resolved the
  old address and waits for its socket; the peer's heartbeat from the new address and the watcher's
  drain come first. The flow is then entered with its socket connected to the old address, and no
  number of heartbeats from the new address and of watcher rounds removes it.
\<close>

theorem stale_flow_survives_move:
  assumes "hop_ready h" "decode_v2_from_datagram p = None" "up_resolver (hp_proxy h) = ResolverDynamic port"
    and "current_ip (hp_peer h) = Some old" "sa_ip a \<noteq> old" "list_all (confirms (sa_ip a)) evs"
    and "udp_wf (hp_proxy h)"
  shows "case handle_inbound 0 (hp_peer h) (hp_io2 h) p (hp_src h) (hp_proxy h) of (u1, _) \<Rightarrow>
     case watch_run [Beat t a, Poll] (hp_peer h) (watch_version (hp_peer h), u1) of (ps, ver, u2) \<Rightarrow>
     case watch_run evs ps (ver, fst (finish_inbound 0 (hp_io3 h) u2)) of (_, _, u3) \<Rightarrow>
       active_flows u2 = 0 \<and> map_option upstream_peer (flow_at u3 0 (hp_src h)) = Some (sa_new old port)"
proof -
  let ?u = "hp_proxy h" and ?tgt = "sa_new old port" and ?ps = "fst (record_heartbeat t a (hp_peer h))"
  let ?u1 = "upd_worker 0 (\<lambda>w. w\<lparr>creating := Some (p, hp_src h, ?tgt)\<rparr>) ?u"
  let ?u2 = "drain_all_flows ?u1"
  have l: "0 < length (up_workers ?u)" using assms(1) by (simp add: hop_ready_def)
  have in1: "handle_inbound 0 (hp_peer h) (hp_io2 h) p (hp_src h) ?u = (?u1, [])"
    using assms(1-4) by (simp add: hop_ready_def handle_inbound_def linorder_not_le [symmetric])
  have wf: "udp_wf ?u1" by (rule udp_wf_worker [OF assms(7) l]) (use assms(1) in \<open>auto simp: hop_ready_def\<close>)
  have ps: "current_ip ?ps = Some (sa_ip a)" "watch_version ?ps = watch_version (hp_peer h) + 1"
    using assms(4,5) by (simp_all add: record_heartbeat_def Let_def)
  have poll: "watch_run [Beat t a, Poll] (hp_peer h) (watch_version (hp_peer h), ?u1) = (?ps, watch_version ?ps, ?u2)"
    using assms(3) ps(2) by (simp add: ipchange_poll_def)
  have kept: "creating (up_workers ?u2 ! 0) = Some (p, hp_src h, ?tgt)" "up_max_flows ?u2 = up_max_flows ?u"
    "0 < length (up_workers ?u2)"
    using drain_all_keeps [of 0 ?u1] udp_wf_drain [OF wf] l by simp_all
  have room: "0 < up_max_flows ?u" using assms(1) by (auto simp: hop_ready_def word_less_nat_alt)
  have opened: "map_option upstream_peer (flow_at (fst (finish_inbound 0 (hp_io3 h) ?u2)) 0 (hp_src h)) = Some ?tgt"
    using kept drained [OF wf] drain_all_flows_at [OF wf, of 0] l room assms(1)
    by (simp add: finish_inbound_def create_flow_def try_reserve_flow_def hop_ready_def Let_def update_conv'
        linorder_not_le [symmetric])
  have "snd (snd (watch_run evs ?ps (watch_version ?ps, fst (finish_inbound 0 (hp_io3 h) ?u2)))) =
      fst (finish_inbound 0 (hp_io3 h) ?u2)"
    using watch_run_confirming [OF ps(1) assms(6) refl] by simp
  then show ?thesis using opened drained [OF wf] by (simp add: in1 poll case_prod_beta del: watch_run.simps)
qed

theorem stale_flow_survives_move_witness:
  "case handle_inbound 0 game_peer game_io [1] (SockV4 3 3) game_proxy of (u1, _) \<Rightarrow>
   case watch_run [Beat 2 (SockV4 10 5), Poll] game_peer (1, u1) of (ps, ver, u2) \<Rightarrow>
   case watch_run [Beat 3 (SockV4 10 5), Poll] ps (ver, fst (finish_inbound 0 game_io u2)) of (_, _, u3) \<Rightarrow>
     active_flows u2 = 0 \<and> map_option upstream_peer (flow_at u3 0 (SockV4 3 3)) = Some (SockV4 9 8)"
proof -
  have "udp_wf game_proxy" by (rule udp_wf_spawn [OF game_proxy_spawn])
  moreover have "decode_v2_from_datagram [1] = None" by (simp add: decode_v2_from_datagram_def)
  moreover have "up_resolver game_proxy = ResolverDynamic 8" "current_ip game_peer = Some (V4 9)"
    "watch_version game_peer = 1"
    by (simp_all add: game_defs)
  ultimately show ?thesis
    using stale_flow_survives_move [OF game_hop_ready, of "[1]" 8 "V4 9" "SockV4 10 5" "[Beat 3 (SockV4 10 5), Poll]" 2]
    by (simp add: game_hop_def del: watch_run.simps)
qed


section \<open>Budget, isolation, idle flows\<close>

text \<open>
  C6: The flow budget is exact. Whatever datagrams, upstream events, sweeps and peer changes a
  proxy sees, in any order, its counter equals the number of flows in its tables and neither
  exceeds the configured maximum; in particular the counter never wraps.
\<close>

theorem flow_budget_exact:
  assumes "spawn_with_arm_table r local res mx n ex = Some u0" "udp_run u0 evs = (u, out)"
  shows "unat (flow_count u) = active_flows u \<and> active_flows u \<le> unat mx"
proof -
  have "udp_wf u" "up_max_flows u = mx"
    using udp_run_evolves [OF udp_wf_spawn [OF assms(1)] assms(2)] assms(1)
    by (auto simp: spawn_with_arm_table_def split: if_splits)
  then show ?thesis by (simp add: udp_wf_def word_le_nat_alt)
qed

theorem flow_budget_exact_witness:
  "unat (flow_count (fst (udp_run game_proxy game_events))) = active_flows (fst (udp_run game_proxy game_events)) \<and>
   active_flows (fst (udp_run game_proxy game_events)) \<le> 2"
  using flow_budget_exact [OF game_proxy_spawn, of game_events] by (cases "udp_run game_proxy game_events") simp

text \<open>
  C5: Clients are never mixed. Over any run, all traffic on one upstream socket, the datagrams sent
  to it, the header that opens it and the datagrams returned from it, belongs to a single client
  address.
\<close>

theorem udp_clients_isolated:
  assumes "spawn_with_arm_table r local res mx n ex = Some u0" "udp_run u0 evs = (u, out)"
    and "x \<in> set out" "y \<in> set out" "out_flow x = Some (s, c)" "out_flow y = Some (s, d)"
  shows "c = d"
proof -
  have "single_valued (mentions u0 out)" using run_mentions [OF udp_wf_spawn [OF assms(1)] assms(2)] by simp
  moreover have "(s, c) \<in> mentions u0 out" "(s, d) \<in> mentions u0 out"
    using assms(3-) by (auto simp: mentions_def)
  ultimately show ?thesis by (auto simp: single_valued_def)
qed

theorem udp_clients_isolated_witness:
  "\<exists>c d. ToUpstream c 0 [1] \<in> set (snd (udp_run game_proxy game_events)) \<and>
     ToClient 0 0 d [2] \<in> set (snd (udp_run game_proxy game_events)) \<and> c = d"
proof -
  have "ToUpstream (SockV4 3 3) 0 [1] \<in> set (snd (udp_run game_proxy game_events))"
    "ToClient 0 0 (SockV4 3 3) [2] \<in> set (snd (udp_run game_proxy game_events))"
    by (simp_all add: game_run)
  with udp_clients_isolated [OF game_proxy_spawn, of game_events "fst (udp_run game_proxy game_events)"
      "snd (udp_run game_proxy game_events)" "ToUpstream (SockV4 3 3) 0 [1]" "ToClient 0 0 (SockV4 3 3) [2]" 0]
  show ?thesis by auto
qed

text \<open>
  The reaper evicts exactly the idle flows: a flow is kept, unchanged, if and only if it was seen
  less than the idle timeout ago; an evicted flow's upstream loop is aborted and the counter and
  the tables still agree.
\<close>

theorem reaper_exact:
  assumes "udp_wf u" "i < length (up_workers u)"
  shows "flow_at (reap_idle now u) i c =
      (case flow_at u i c of Some e \<Rightarrow> if is_idle now (idle_ms u) e then None else Some e | None \<Rightarrow> None) \<and>
    udp_wf (reap_idle now u)"
  using reap_prefix [OF assms(1) order.refl, of now] assms(2) by (simp add: reap_idle_def split: option.splits)

theorem reaper_exact_witness:
  "flow_at (reap_idle 70000 (fst (udp_run game_proxy game_events))) 0 (SockV4 3 3) = None"
proof -
  have wf: "udp_wf (fst (udp_run game_proxy game_events))"
    using udp_run_evolves [OF udp_wf_spawn [OF game_proxy_spawn]] by (cases "udp_run game_proxy game_events") auto
  have "idle_ms (fst (udp_run game_proxy game_events)) = 60000"
    using game_state by (simp add: idle_ms_def game_rule_def resolved_idle_timeout_def DEFAULT_UDP_IDLE_TIMEOUT_def)
  with reaper_exact [OF wf, of 0 70000 "SockV4 3 3"] game_state show ?thesis by (simp add: is_idle_def)
qed

section \<open>The real client along a chain\<close>

lemma hop_out_opens:
  assumes "hop_ready h" "decode_v2_from_datagram hdr = Some ep" "decode_v2_from_datagram p = None"
  shows "hop_out h hdr p =
    [ToUpstreamHeader (hp_src h) (next_sock (hp_proxy h)) (encode_v2 (ep_client ep) (up_local_addr (hp_proxy h))),
     ToUpstream (hp_src h) (next_sock (hp_proxy h)) p]"
proof -
  obtain tgt where t: "current_target (hp_peer h) (up_resolver (hp_proxy h)) = Some tgt"
    using assms(1) by (auto simp: hop_ready_def)
  have l: "0 < length (up_workers (hp_proxy h))" using assms(1) by (simp add: hop_ready_def)
  show ?thesis
    using assms l t
    by (simp add: hop_out_def hop_ready_def handle_inbound_def finish_inbound_def create_flow_def Let_def
        try_reserve_flow_def outbound_client_def update_conv' encode_header_def linorder_not_le [symmetric])
qed

lemma conveyed_sa_new: "conveyed (sa_new (sa_ip c) (sa_port c)) s = conveyed c s"
  by (cases c; cases "sa_ip s") (simp_all add: conveyed_def)

text \<open>
  C22: The real client's address survives any number of relays. If a gateway announces a client and
  every relay on the way has room, a peer, and a listener of the client's address family, then the
  header that leaves the last relay decodes to the client's address and port, and the
  application datagram follows it unchanged.
\<close>

theorem real_client_reaches_terminal:
  assumes "list_all hop_ready hops" "decode_v2_from_datagram p = None"
    and "conveyed c gw \<noteq> None" "list_all (\<lambda>h. conveyed c (up_local_addr (hp_proxy h)) \<noteq> None) hops"
  shows "\<exists>hdr ep. relay_chain hops (encode_header V2 c gw, p) = Some (hdr, p) \<and>
    decode_v2_from_datagram hdr = Some ep \<and> ep_client ep = sa_new (sa_ip c) (sa_port c)"
proof -
  have conv: "conveyed d s = Some ep \<Longrightarrow> ep_client ep = sa_new (sa_ip d) (sa_port d)" for d s ep
    by (auto simp: conveyed_def split: ip_addr.splits)
  have step: "\<exists>hdr' ep'. relay_chain hops (hdr, p) = Some (hdr', p) \<and> decode_v2_from_datagram hdr' = Some ep' \<and>
      ep_client ep' = sa_new (sa_ip c) (sa_port c)"
    if "decode_v2_from_datagram hdr = Some ep" "ep_client ep = sa_new (sa_ip c) (sa_port c)" for hdr ep
    using assms(1,4) that
  proof (induction hops arbitrary: hdr ep)
    case (Cons h hops)
    let ?hdr = "encode_v2 (ep_client ep) (up_local_addr (hp_proxy h))"
    from Cons.prems(2) obtain ep' where "conveyed c (up_local_addr (hp_proxy h)) = Some ep'" by auto
    then have "conveyed (ep_client ep) (up_local_addr (hp_proxy h)) = Some ep'"
      by (simp add: conveyed_sa_new Cons.prems(4))
    then have d: "decode_v2_from_datagram ?hdr = Some ep'" "ep_client ep' = sa_new (sa_ip c) (sa_port c)"
      using conv [of "ep_client ep"] by (simp_all add: datagram_decodes_header Cons.prems(4))
    have "hop_ready h" using Cons.prems(1) by simp
    from hop_out_opens [OF this Cons.prems(3) assms(2)] Cons.IH [OF _ _ d] Cons.prems(1,2) show ?case by simp
  qed auto
  from assms(3) obtain ep where "conveyed c gw = Some ep" by auto
  with step [of "encode_v2 c gw" ep] conv [of c gw ep] show ?thesis
    by (simp add: datagram_decodes_header encode_header_def)
qed

theorem real_client_reaches_terminal_witness:
  "\<exists>hdr ep. relay_chain [game_hop, game_hop] (encode_header V2 (SockV4 77 4) (SockV4 1 7), [1]) = Some (hdr, [1]) \<and>
    decode_v2_from_datagram hdr = Some ep \<and> ep_client ep = SockV4 77 4"
proof -
  have "decode_v2_from_datagram [1] = None" by (simp add: decode_v2_from_datagram_def)
  with real_client_reaches_terminal [of "[game_hop, game_hop]" "[1]" "SockV4 77 4" "SockV4 1 7"] game_hop_ready
  show ?thesis by (simp add: conveyed_def game_hop_def game_defs)
qed

section \<open>Where the announcement fails\<close>

text \<open>
  A relay whose listener has the other address family loses the client. The header such a relay
  emits carries no addresses; the next relay does not recognise it, announces the address of the
  relay before it as the client, and forwards the header itself as the first application
  datagram.
\<close>

theorem mixed_family_client_lost:
  assumes "hop_ready h" "conveyed c gw = None" "map_of (pending_real_clients (up_workers (hp_proxy h) ! 0)) (hp_src h) = None"
  shows "snd (finish_inbound 0 (hp_io3 h)
      (fst (handle_inbound 0 (hp_peer h) (hp_io1 h) (encode_header V2 c gw) (hp_src h) (hp_proxy h)))) =
    [ToUpstreamHeader (hp_src h) (next_sock (hp_proxy h)) (encode_header V2 (hp_src h) (up_local_addr (hp_proxy h))),
     ToUpstream (hp_src h) (next_sock (hp_proxy h)) (encode_header V2 c gw)]"
proof -
  obtain tgt where t: "current_target (hp_peer h) (up_resolver (hp_proxy h)) = Some tgt"
    using assms(1) by (auto simp: hop_ready_def)
  have l: "0 < length (up_workers (hp_proxy h))" using assms(1) by (simp add: hop_ready_def)
  have d: "decode_v2_from_datagram (encode_v2 c gw) = None" by (simp add: datagram_decodes_header assms(2))
  show ?thesis
    using assms l t d
    by (simp add: hop_ready_def handle_inbound_def finish_inbound_def create_flow_def Let_def
        try_reserve_flow_def outbound_client_def encode_header_def linorder_not_le [symmetric])
qed

theorem mixed_family_client_lost_witness:
  "snd (finish_inbound 0 game_io (fst (handle_inbound 0 game_peer game_io
      (encode_header V2 (SockV6 5 4 0 0) (SockV4 1 7)) (SockV4 3 3) game_proxy))) =
   [ToUpstreamHeader (SockV4 3 3) 0 (encode_header V2 (SockV4 3 3) (SockV4 0 7)),
    ToUpstream (SockV4 3 3) 0 (encode_header V2 (SockV6 5 4 0 0) (SockV4 1 7))]"
proof -
  have "next_sock game_proxy = 0" "up_local_addr game_proxy = SockV4 0 7"
    "pending_real_clients (up_workers game_proxy ! 0) = []"
    by (simp_all add: game_defs)
  with mixed_family_client_lost [OF game_hop_ready, of "SockV6 5 4 0 0" "SockV4 1 7"] show ?thesis
    by (simp add: conveyed_def game_hop_def)
qed

text \<open>A header from each of the addresses, and nothing else.\<close>

definition announce_all :: "peer_state \<Rightarrow> slow_io \<Rightarrow> bytes \<Rightarrow> socket_addr list \<Rightarrow> udp_proxy \<Rightarrow> udp_proxy" where
  "announce_all ps io hdr srcs u = fold (\<lambda>src u. fst (handle_inbound 0 ps io hdr src u)) srcs u"

lemma announce_all_pending:
  assumes "up_workers u \<noteq> []" "expect_inbound_proxy u" "decode_v2_from_datagram hdr = Some ep"
    "flows (up_workers u ! 0) = []"
    "distinct srcs" "set srcs \<inter> fst ` set (pending_real_clients (up_workers u ! 0)) = {}"
  shows "length (pending_real_clients (up_workers (announce_all ps io hdr srcs u) ! 0)) =
    length (pending_real_clients (up_workers u ! 0)) + length srcs"
  using assms unfolding announce_all_def
proof (induction srcs arbitrary: u)
  case (Cons src srcs)
  have upd: "AList.update k v m = m @ [(k, v)]" if "k \<notin> fst ` set m" for k v and m :: "(socket_addr \<times> socket_addr \<times> nat) list"
    using that by (induction m) auto
  let ?u = "fst (handle_inbound 0 ps io hdr src u)"
  have u: "up_workers ?u ! 0 = (up_workers u ! 0)\<lparr>pending_real_clients :=
      pending_real_clients (up_workers u ! 0) @ [(src, ep_client ep, si_clock io)]\<rparr>" "up_workers ?u \<noteq> []"
    "expect_inbound_proxy ?u"
    using Cons.prems by (simp_all add: handle_inbound_def upd)
  from Cons.IH [of ?u] u Cons.prems show ?case by auto
qed simp

lemma reap_keeps_pending:
  "pending_real_clients (up_workers (reap_idle now u) ! i) = pending_real_clients (up_workers u ! i)"
proof -
  have one: "pending_real_clients (up_workers (reap_one j c v) ! i) = pending_real_clients (up_workers v ! i)" for j c v
    by (cases "j < length (up_workers v)"; cases "j = i")
      (auto simp: reap_one_def remove_flow_def list_update_beyond split: option.splits)
  have "pending_real_clients (up_workers (fold (reap_one j) cs v) ! i) = pending_real_clients (up_workers v ! i)" for j cs v
    by (induction cs arbitrary: v) (simp_all add: one)
  then have shard: "pending_real_clients (up_workers (reap_shard now j v) ! i) = pending_real_clients (up_workers v ! i)" for j v
    by (simp add: reap_shard_def Let_def)
  have "pending_real_clients (up_workers (fold (reap_shard now) js v) ! i) = pending_real_clients (up_workers v ! i)" for js v
    by (induction js arbitrary: v) (simp_all add: shard)
  then show ?thesis by (simp add: reap_idle_def)
qed

text \<open>
  Announcements without a flow are never collected. On a relay that expects PROXY datagrams, a
  header from each of any number of source addresses leaves one pending entry per address,
  whatever the flow limit is, and the reaper removes none of them at any later time.
\<close>

theorem orphan_announcements_leak:
  assumes "spawn_with_arm_table r local res mx n True = Some u" "conveyed c gw \<noteq> None" "distinct srcs"
  shows "length (pending_real_clients (up_workers (reap_idle now
      (announce_all ps io (encode_header V2 c gw) srcs u)) ! 0)) = length srcs"
proof -
  from assms(2) obtain ep where d: "decode_v2_from_datagram (encode_header V2 c gw) = Some ep"
    by (auto simp: encode_header_def datagram_decodes_header)
  have "up_workers u \<noteq> []" "expect_inbound_proxy u" "flows (up_workers u ! 0) = []"
    "pending_real_clients (up_workers u ! 0) = []"
    using assms(1) by (auto simp: spawn_with_arm_table_def worker_new_def split: if_splits)
  with announce_all_pending [OF _ _ d _ assms(3)] show ?thesis by (simp add: reap_keeps_pending)
qed

theorem orphan_announcements_leak_witness:
  "length (pending_real_clients (up_workers (reap_idle 100000
     (announce_all game_peer game_io (encode_header V2 (SockV4 77 4) (SockV4 1 7))
        [SockV4 1 1, SockV4 1 2, SockV4 1 3] game_proxy)) ! 0)) = 3"
  using orphan_announcements_leak [OF game_proxy_spawn, of "SockV4 77 4" "SockV4 1 7" "[SockV4 1 1, SockV4 1 2, SockV4 1 3]"]
  by (simp add: conveyed_def)

end
