(* ===== verification/Derive.thy ===== *)
theory Derive
  imports Predicate_Set
begin

text \<open>
  The two halves of rule propagation (crate \<open>yggdrasil\<close>): the terminal projects its rule set
  to a predicate set (\<open>chain/predicate_extractor.rs\<close>), and a relay derives the rules it has
  to serve from a received predicate set (\<open>chain/derive.rs\<close>).
\<close>

section \<open>Extraction\<close>

record https_predicate_meta =
  meta_listen_port :: u16
  http3 :: bool

definition meta_default :: https_predicate_meta where
  "meta_default = \<lparr>meta_listen_port = 443, http3 = True\<rparr>"

definition as_millis :: "nat \<Rightarrow> nat" where "as_millis d = d div 1000000"
definition from_millis :: "nat \<Rightarrow> nat" where "from_millis ms = ms * 1000000"

definition u64_try_from :: "nat \<Rightarrow> u64 option" where
  "u64_try_from n = (if n < 2 ^ 64 then Some (word_of_nat n) else None)"

definition project_rule :: "rule \<Rightarrow> predicate" where
  "project_rule r =
     \<lparr>pred_name = rule_name r, listen_port = sa_port (listen r), pred_protocol = protocol r,
      idle_timeout_ms = (case protocol r of
          Udp \<Rightarrow> map_option (\<lambda>d. case u64_try_from (as_millis d) of None \<Rightarrow> -1 | Some n \<Rightarrow> n) (idle_timeout r)
        | _ \<Rightarrow> None),
      https_http3 = False\<rparr>"

definition project_routes :: "'u http_route list \<Rightarrow> https_predicate_meta \<Rightarrow> predicate" where
  "project_routes rts meta =
     \<lparr>pred_name = ''public-https'', listen_port = meta_listen_port meta, pred_protocol = Https,
      idle_timeout_ms = None, https_http3 = http3 meta\<rparr>"

text \<open>\<open>None\<close> is the \<open>unreachable!\<close> of an HTTPS rule, which validation excludes.\<close>

fun project_rules :: "rule list \<Rightarrow> predicate list option" where
  "project_rules [] = Some []"
| "project_rules (r # rs) =
     (case protocol r of
        Https \<Rightarrow> None
      | _ \<Rightarrow> map_option (\<lambda>ps. project_rule r # ps) (project_rules rs))"

definition extract_predicates :: "'u rule_set \<Rightarrow> https_predicate_meta \<Rightarrow> pub_key \<Rightarrow> predicate_set option" where
  "extract_predicates s meta orig =
     map_option (\<lambda>ps.
       let ps = (if routes s \<noteq> [] then ps @ [project_routes (routes s) meta] else ps)
       in \<lparr>predicates = sort_key pred_name ps, origin = orig\<rparr>)
     (project_rules (rules s))"

section \<open>Derivation\<close>

record derive_config =
  bind_addr :: ip_addr
  cfg_proxy_protocol :: "proxy_proto option"

datatype derive_error =
    InvalidName message
  | ZeroListenPort string
  | DuplicateName string
  | DuplicateRuleName string string string
  | DuplicateListenPort string string string u16
  | HttpsListenCollision string string string u16

definition derive_reject_code :: "derive_error \<Rightarrow> u16" where
  "derive_reject_code e = INVALID_PREDICATE"

record listen_claim =
  claim_protocol :: protocol
  claim_port :: u16
  claim_predicate :: string
  derived_from_https :: bool

definition claim_l4 :: "predicate \<Rightarrow> listen_claim" where
  "claim_l4 p = \<lparr>claim_protocol = pred_protocol p, claim_port = listen_port p,
     claim_predicate = pred_name p, derived_from_https = False\<rparr>"

definition claim_https :: "predicate \<Rightarrow> protocol \<Rightarrow> listen_claim" where
  "claim_https p derived = \<lparr>claim_protocol = derived, claim_port = listen_port p,
     claim_predicate = pred_name p, derived_from_https = True\<rparr>"

definition insert_rule_name_claim ::
  "(string \<rightharpoonup> string) \<Rightarrow> string \<Rightarrow> string \<Rightarrow> derive_error + (string \<rightharpoonup> string)" where
  "insert_rule_name_claim seen rname pname =
     (case seen rname of
        Some first \<Rightarrow> Inl (DuplicateRuleName rname first pname)
      | None \<Rightarrow> Inr (seen(rname \<mapsto> pname)))"

definition listen_collision_error :: "listen_claim \<Rightarrow> listen_claim \<Rightarrow> derive_error" where
  "listen_collision_error existing incoming =
     (if derived_from_https existing \<and> \<not> derived_from_https incoming then
        HttpsListenCollision (claim_predicate existing) (claim_predicate incoming)
          (protocol_as_str (claim_protocol incoming)) (claim_port existing)
      else if derived_from_https incoming \<and> \<not> derived_from_https existing then
        HttpsListenCollision (claim_predicate incoming) (claim_predicate existing)
          (protocol_as_str (claim_protocol existing)) (claim_port incoming)
      else
        DuplicateListenPort (claim_predicate existing) (claim_predicate incoming)
          (protocol_as_str (claim_protocol incoming)) (claim_port incoming))"

definition insert_listen_claim :: "listen_claim list \<Rightarrow> listen_claim \<Rightarrow> derive_error + listen_claim list" where
  "insert_listen_claim seen claim =
     (case find (\<lambda>e. claim_protocol e = claim_protocol claim \<and> claim_port e = claim_port claim) seen of
        Some existing \<Rightarrow> Inl (listen_collision_error existing claim)
      | None \<Rightarrow>
          (case find (\<lambda>e. claim_port e = claim_port claim
                     \<and> derived_from_https e \<noteq> derived_from_https claim) seen of
             Some existing \<Rightarrow> Inl (listen_collision_error existing claim)
           | None \<Rightarrow> Inr (seen @ [claim])))"

definition validate_predicate :: "predicate \<Rightarrow> derive_error + unit" where
  "validate_predicate p =
     (if pred_name p = [] \<or> list_ex (\<lambda>c. is_whitespace c \<or> is_control c) (utf8_chars (pred_name p))
      then Inl (InvalidName (Fmt ''{}'' [pred_name p]))
      else if listen_port p = 0 then Inl (ZeroListenPort (pred_name p))
      else Inr ())"

definition rule_from_predicate_l4 :: "predicate \<Rightarrow> derive_config \<Rightarrow> rule" where
  "rule_from_predicate_l4 p cfg =
     \<lparr>rule_name = pred_name p, listen = sa_new (bind_addr cfg) (listen_port p),
      protocol = pred_protocol p, target_port = Some (listen_port p), target = None,
      idle_timeout = (case pred_protocol p of
          Udp \<Rightarrow> map_option (\<lambda>ms. from_millis (unat ms)) (idle_timeout_ms p) | _ \<Rightarrow> None),
      proxy_protocol = (case pred_protocol p of Tcp \<Rightarrow> cfg_proxy_protocol cfg | _ \<Rightarrow> None)\<rparr>"

definition derived_https_rule_name :: "predicate \<Rightarrow> protocol \<Rightarrow> string" where
  "derived_https_rule_name p derived =
     pred_name p @ ''-'' @ (case derived of Tcp \<Rightarrow> ''tcp'' | _ \<Rightarrow> ''udp'')"

definition rule_from_https_predicate :: "predicate \<Rightarrow> derive_config \<Rightarrow> protocol \<Rightarrow> rule" where
  "rule_from_https_predicate p cfg derived =
     \<lparr>rule_name = derived_https_rule_name p derived,
      listen = sa_new (bind_addr cfg) (listen_port p),
      protocol = derived, target_port = Some (listen_port p), target = None,
      idle_timeout = (case derived of Udp \<Rightarrow> Some (30 * 1000000000) | _ \<Rightarrow> None),
      proxy_protocol = Some V2\<rparr>"

text \<open>One iteration of the loop of \<open>derive\<close> on its four accumulators.\<close>

record derive_state =
  seen_names :: "string set"
  seen_rule_names :: "string \<rightharpoonup> string"
  seen_listens :: "listen_claim list"
  out_rules :: "rule list"

definition derive_one :: "derive_config \<Rightarrow> predicate \<Rightarrow> derive_state \<Rightarrow> derive_error + derive_state" where
  "derive_one cfg p st =
     rbind (validate_predicate p) (\<lambda>_.
     if pred_name p \<in> seen_names st then Inl (DuplicateName (pred_name p))
     else
       let st = st\<lparr>seen_names := insert (pred_name p) (seen_names st)\<rparr> in
       if pred_protocol p = Https then
         rbind (insert_rule_name_claim (seen_rule_names st) (derived_https_rule_name p Tcp) (pred_name p)) (\<lambda>names.
         rbind (if https_http3 p
                then insert_rule_name_claim names (derived_https_rule_name p Udp) (pred_name p)
                else Inr names) (\<lambda>names.
         rbind (insert_listen_claim (seen_listens st) (claim_https p Tcp)) (\<lambda>listens.
         rbind (insert_listen_claim listens (claim_https p Udp)) (\<lambda>listens.
         let rs = out_rules st @ [rule_from_https_predicate p cfg Tcp];
             rs = (if https_http3 p then rs @ [rule_from_https_predicate p cfg Udp] else rs)
         in Inr (st\<lparr>seen_rule_names := names, seen_listens := listens, out_rules := rs\<rparr>)))))
       else
         rbind (insert_rule_name_claim (seen_rule_names st) (pred_name p) (pred_name p)) (\<lambda>names.
         rbind (insert_listen_claim (seen_listens st) (claim_l4 p)) (\<lambda>listens.
         Inr (st\<lparr>seen_rule_names := names, seen_listens := listens,
                 out_rules := out_rules st @ [rule_from_predicate_l4 p cfg]\<rparr>))))"

fun derive_loop :: "derive_config \<Rightarrow> predicate list \<Rightarrow> derive_state \<Rightarrow> derive_error + derive_state" where
  "derive_loop cfg [] st = Inr st"
| "derive_loop cfg (p # ps) st = rbind (derive_one cfg p st) (\<lambda>st. derive_loop cfg ps st)"

definition derive_start :: derive_state where
  "derive_start = \<lparr>seen_names = {}, seen_rule_names = Map.empty, seen_listens = [], out_rules = []\<rparr>"

definition derive :: "predicate_set \<Rightarrow> derive_config \<Rightarrow> derive_error + 'u rule_set" where
  "derive s cfg =
     rbind (derive_loop cfg (predicates s) derive_start) (\<lambda>st.
     map_err (\<lambda>e. InvalidName (case e of
         InvalidRule (Fmt t args) \<Rightarrow> Fmt (''invalid rule configuration: '' @ t) args
       | _ \<Rightarrow> Fmt ''{e}'' [])) (from_rules (out_rules st)))"

section \<open>What is derivable\<close>

definition name_ok :: "string \<Rightarrow> bool" where
  "name_ok n \<longleftrightarrow> n \<noteq> [] \<and> (\<forall>c\<in>set (utf8_chars n). \<not> is_whitespace c \<and> \<not> is_control c)"

definition rules_of :: "derive_config \<Rightarrow> predicate \<Rightarrow> rule list" where
  "rules_of cfg p =
     (if pred_protocol p = Https
      then rule_from_https_predicate p cfg Tcp
           # (if https_http3 p then [rule_from_https_predicate p cfg Udp] else [])
      else [rule_from_predicate_l4 p cfg])"

definition names_of :: "predicate \<Rightarrow> string list" where
  "names_of p =
     (if pred_protocol p = Https
      then derived_https_rule_name p Tcp # (if https_http3 p then [derived_https_rule_name p Udp] else [])
      else [pred_name p])"

definition claims_of :: "predicate \<Rightarrow> listen_claim list" where
  "claims_of p =
     (if pred_protocol p = Https then [claim_https p Tcp, claim_https p Udp] else [claim_l4 p])"

definition compatible :: "listen_claim \<Rightarrow> listen_claim \<Rightarrow> bool" where
  "compatible a b \<longleftrightarrow> claim_port a \<noteq> claim_port b \<or>
     claim_protocol a \<noteq> claim_protocol b \<and> derived_from_https a = derived_from_https b"

definition derivable :: "predicate list \<Rightarrow> bool" where
  "derivable ps \<longleftrightarrow>
     (\<forall>p\<in>set ps. name_ok (pred_name p) \<and> listen_port p \<noteq> 0)
     \<and> distinct (map pred_name ps)
     \<and> distinct (concat (map names_of ps))
     \<and> sorted_wrt compatible (concat (map claims_of ps))"

lemma insert_listen_claim_ok:
  "insert_listen_claim seen c = Inr out \<longleftrightarrow> (\<forall>e\<in>set seen. compatible e c) \<and> out = seen @ [c]"
proof -
  have "(\<forall>e\<in>set seen. compatible e c) \<longleftrightarrow>
      find (\<lambda>e. claim_protocol e = claim_protocol c \<and> claim_port e = claim_port c) seen = None \<and>
      find (\<lambda>e. claim_port e = claim_port c \<and> derived_from_https e \<noteq> derived_from_https c) seen = None"
    by (auto simp: find_None_iff compatible_def)
  then show ?thesis
    by (auto simp: insert_listen_claim_def split: option.split)
qed

lemma insert_rule_name_claim_ok:
  "insert_rule_name_claim m n p = Inr out \<longleftrightarrow> n \<notin> dom m \<and> out = m(n \<mapsto> p)"
  by (auto simp: insert_rule_name_claim_def split: option.split)

lemma validate_predicate_ok: "validate_predicate p = Inr () \<longleftrightarrow> name_ok (pred_name p) \<and> listen_port p \<noteq> 0"
  by (auto simp: validate_predicate_def name_ok_def list_ex_iff)

lemma derived_name_neq [simp]:
  "derived_https_rule_name p Tcp \<noteq> derived_https_rule_name p Udp"
  "derived_https_rule_name p Udp \<noteq> derived_https_rule_name p Tcp"
  by (simp_all add: derived_https_rule_name_def)

lemma rule_names_of [simp]: "map rule_name (rules_of cfg p) = names_of p"
  by (simp add: rules_of_def names_of_def rule_from_https_predicate_def rule_from_predicate_l4_def)

lemma distinct_names_of [simp]: "distinct (names_of p)"
  by (simp add: names_of_def)

lemma sorted_claims_of [simp]: "sorted_wrt compatible (claims_of p)"
  by (simp add: claims_of_def compatible_def claim_https_def)

text \<open>Keys fresh for a set of taken ones; claims compatible with the list of earlier ones.\<close>

definition fresh_list :: "'a list \<Rightarrow> 'a set \<Rightarrow> bool" where
  "fresh_list xs S \<longleftrightarrow> distinct xs \<and> set xs \<inter> S = {}"

definition compat_list :: "listen_claim list \<Rightarrow> listen_claim list \<Rightarrow> bool" where
  "compat_list cs es \<longleftrightarrow> sorted_wrt compatible cs \<and> (\<forall>e\<in>set es. \<forall>c\<in>set cs. compatible e c)"

lemma fresh_list_append: "fresh_list (a @ b) S \<longleftrightarrow> fresh_list a S \<and> fresh_list b (S \<union> set a)"
  by (auto simp: fresh_list_def)

lemma compat_list_append: "compat_list (a @ b) es \<longleftrightarrow> compat_list a es \<and> compat_list b (es @ a)"
  by (auto simp: compat_list_def sorted_wrt_append)

text \<open>When one predicate is accepted, and what it adds to the accumulators.\<close>

definition accepts_one :: "predicate \<Rightarrow> derive_state \<Rightarrow> bool" where
  "accepts_one p st \<longleftrightarrow> name_ok (pred_name p) \<and> listen_port p \<noteq> 0
     \<and> fresh_list [pred_name p] (seen_names st)
     \<and> fresh_list (names_of p) (dom (seen_rule_names st))
     \<and> compat_list (claims_of p) (seen_listens st)"

definition after_one :: "derive_config \<Rightarrow> predicate \<Rightarrow> derive_state \<Rightarrow> derive_state \<Rightarrow> bool" where
  "after_one cfg p st st' \<longleftrightarrow> seen_names st' = insert (pred_name p) (seen_names st)
     \<and> dom (seen_rule_names st') = dom (seen_rule_names st) \<union> set (names_of p)
     \<and> seen_listens st' = seen_listens st @ claims_of p
     \<and> out_rules st' = out_rules st @ rules_of cfg p"

lemma derive_one_sound:
  assumes "derive_one cfg p st = Inr st'"
  shows "accepts_one p st \<and> after_one cfg p st st'"
proof (cases "pred_protocol p = Https")
  case True
  then show ?thesis
    using assms
    by (auto simp: derive_one_def accepts_one_def after_one_def fresh_list_def compat_list_def validate_predicate_ok Let_def
        insert_rule_name_claim_ok insert_listen_claim_ok names_of_def rules_of_def claims_of_def
        split: if_splits)
next
  case False
  then show ?thesis
    using assms
    by (auto simp: derive_one_def accepts_one_def after_one_def fresh_list_def compat_list_def validate_predicate_ok Let_def
        insert_rule_name_claim_ok insert_listen_claim_ok names_of_def rules_of_def claims_of_def
        split: if_splits)
qed

lemma insert_rule_name_claim_fresh: "n \<notin> dom m \<Longrightarrow> insert_rule_name_claim m n p = Inr (m(n \<mapsto> p))"
  by (simp add: insert_rule_name_claim_ok)

lemma insert_listen_claim_fresh:
  "\<forall>e\<in>set seen. compatible e c \<Longrightarrow> insert_listen_claim seen c = Inr (seen @ [c])"
  by (simp add: insert_listen_claim_ok)

lemma https_claims_compatible: "compatible (claim_https p Tcp) (claim_https p Udp)"
  by (simp add: compatible_def claim_https_def)

lemma derive_one_complete:
  assumes "accepts_one p st"
  shows "is_ok (derive_one cfg p st)"
proof -
  from assms have v: "validate_predicate p = Inr ()" and n: "pred_name p \<notin> seen_names st"
    by (simp_all add: accepts_one_def fresh_list_def validate_predicate_ok)
  show ?thesis
  proof (cases "pred_protocol p = Https")
    case True
    with assms have t: "derived_https_rule_name p Tcp \<notin> dom (seen_rule_names st)"
      and u: "https_http3 p \<Longrightarrow> derived_https_rule_name p Udp \<notin> dom (seen_rule_names st)"
      and ct: "\<forall>e\<in>set (seen_listens st). compatible e (claim_https p Tcp)"
      and cu: "\<forall>e\<in>set (seen_listens st @ [claim_https p Tcp]). compatible e (claim_https p Udp)"
      by (auto simp: accepts_one_def fresh_list_def compat_list_def names_of_def claims_of_def https_claims_compatible)
    have u': "https_http3 p \<Longrightarrow> derived_https_rule_name p Udp \<notin>
        dom ((seen_rule_names st)(derived_https_rule_name p Tcp \<mapsto> pred_name p))"
      using u derived_name_neq [of p] by auto
    show ?thesis
      using v n True insert_rule_name_claim_fresh [OF t] insert_rule_name_claim_fresh [OF u']
        insert_listen_claim_fresh [OF ct] insert_listen_claim_fresh [OF cu]
      by (cases "https_http3 p") (simp_all add: derive_one_def Let_def)
  next
    case False
    with assms have t: "pred_name p \<notin> dom (seen_rule_names st)"
      and c: "\<forall>e\<in>set (seen_listens st). compatible e (claim_l4 p)"
      by (auto simp: accepts_one_def fresh_list_def compat_list_def names_of_def claims_of_def)
    show ?thesis
      using v n False insert_rule_name_claim_fresh [OF t] insert_listen_claim_fresh [OF c]
      by (simp add: derive_one_def Let_def)
  qed
qed

text \<open>The loop succeeds exactly on a list compatible with what was already accepted.\<close>

definition accepts_all :: "predicate list \<Rightarrow> derive_state \<Rightarrow> bool" where
  "accepts_all ps st \<longleftrightarrow>
     (\<forall>p\<in>set ps. name_ok (pred_name p) \<and> listen_port p \<noteq> 0)
     \<and> fresh_list (map pred_name ps) (seen_names st)
     \<and> fresh_list (concat (map names_of ps)) (dom (seen_rule_names st))
     \<and> compat_list (concat (map claims_of ps)) (seen_listens st)"

lemma accepts_all_Cons:
  assumes "after_one cfg p st st'"
  shows "accepts_all (p # ps) st \<longleftrightarrow> accepts_one p st \<and> accepts_all ps st'"
proof -
  have "fresh_list (map pred_name (p # ps)) (seen_names st) \<longleftrightarrow>
      fresh_list [pred_name p] (seen_names st) \<and> fresh_list (map pred_name ps) (seen_names st')"
    using fresh_list_append [of "[pred_name p]" "map pred_name ps" "seen_names st"] assms
    by (simp add: after_one_def)
  then show ?thesis
    using assms
    by (auto simp: accepts_all_def accepts_one_def after_one_def fresh_list_append compat_list_append)
qed

lemma derive_loop_sound:
  assumes "derive_loop cfg ps st = Inr st'"
  shows "accepts_all ps st \<and> out_rules st' = out_rules st @ concat (map (rules_of cfg) ps)"
  using assms
proof (induction ps arbitrary: st)
  case Nil
  then show ?case by (simp add: accepts_all_def fresh_list_def compat_list_def)
next
  case (Cons p ps)
  then obtain st1 where one: "derive_one cfg p st = Inr st1" and rest: "derive_loop cfg ps st1 = Inr st'"
    by auto
  from derive_one_sound [OF one] have a: "accepts_one p st" "after_one cfg p st st1" by auto
  from Cons.IH [OF rest] a accepts_all_Cons [OF a(2), of ps] show ?case
    by (simp add: after_one_def)
qed

lemma derive_loop_complete: "accepts_all ps st \<Longrightarrow> is_ok (derive_loop cfg ps st)"
proof (induction ps arbitrary: st)
  case Nil
  show ?case by simp
next
  case (Cons p ps)
  have a: "accepts_one p st"
    using Cons.prems by (auto simp: accepts_all_def accepts_one_def fresh_list_def compat_list_def sorted_wrt_append)
  from derive_one_complete [OF a] obtain st1 where one: "derive_one cfg p st = Inr st1"
    by (auto simp: is_ok_iff)
  from derive_one_sound [OF one] have "after_one cfg p st st1" by simp
  from accepts_all_Cons [OF this] Cons.prems have "accepts_all ps st1" by simp
  from Cons.IH [OF this] one show ?case by simp
qed

lemma accepts_all_start: "accepts_all ps derive_start \<longleftrightarrow> derivable ps"
  by (simp add: accepts_all_def derivable_def derive_start_def fresh_list_def compat_list_def)

section \<open>The final validation never fires\<close>

lemma name_ok_append:
  assumes "name_ok n" and "\<forall>c\<in>set t. 33 \<le> (of_char c :: nat) \<and> (of_char c :: nat) < 127"
  shows "name_ok (n @ t)"
proof -
  have "utf8_chars (n @ t) = utf8_chars n @ map of_char t"
    using assms(2) by (intro utf8_chars_append_ascii) auto
  moreover have "\<not> is_whitespace x \<and> \<not> is_control x" if "33 \<le> x" "x < 127" for x
    using that by (simp add: is_whitespace_def is_control_def)
  ultimately show ?thesis using assms by (auto simp: name_ok_def)
qed

lemma rules_of_ok:
  assumes "name_ok (pred_name p)" and "listen_port p \<noteq> 0" and "r \<in> set (rules_of cfg p)"
  shows "rule_ok r"
proof -
  have "name_ok (derived_https_rule_name p d)" for d
    unfolding derived_https_rule_name_def using assms(1)
    by (intro name_ok_append) (auto split: protocol.splits)
  with assms show ?thesis
    by (cases "pred_protocol p")
       (auto simp: rules_of_def rule_ok_def rule_from_https_predicate_def rule_from_predicate_l4_def
         name_ok_def split: if_splits)
qed

abbreviation rule_key :: "rule \<Rightarrow> socket_addr \<times> protocol" where
  "rule_key r \<equiv> (listen r, protocol r)"

definition claim_key :: "derive_config \<Rightarrow> listen_claim \<Rightarrow> socket_addr \<times> protocol" where
  "claim_key cfg c = (sa_new (bind_addr cfg) (claim_port c), claim_protocol c)"

lemma sa_new_inject [simp]: "sa_new ip p = sa_new ip q \<longleftrightarrow> p = q"
  by (cases ip) simp_all

lemma rules_of_keys: "rule_key ` set (rules_of cfg p) \<subseteq> claim_key cfg ` set (claims_of p)"
  by (auto simp: rules_of_def claims_of_def claim_key_def claim_https_def claim_l4_def
      rule_from_https_predicate_def rule_from_predicate_l4_def)

lemma distinct_rules_of_keys: "distinct (map rule_key (rules_of cfg p))"
  by (simp add: rules_of_def rule_from_https_predicate_def)

lemma compatible_keys: "compatible c d \<Longrightarrow> claim_key cfg c \<noteq> claim_key cfg d"
  by (auto simp: compatible_def claim_key_def)

lemma distinct_derived_keys:
  assumes "sorted_wrt compatible (concat (map claims_of ps))"
  shows "distinct (map rule_key (concat (map (rules_of cfg) ps)))"
  using assms
proof (induction ps)
  case Nil
  show ?case by simp
next
  case (Cons p ps)
  have sub: "rule_key ` set (concat (map (rules_of cfg) ps)) \<subseteq> claim_key cfg ` set (concat (map claims_of ps))"
    using rules_of_keys by (force simp: image_UN)
  have "claim_key cfg c \<noteq> claim_key cfg d" if "c \<in> set (claims_of p)" "d \<in> set (concat (map claims_of ps))" for c d
    using Cons.prems that by (intro compatible_keys) (auto simp: sorted_wrt_append)
  then have "claim_key cfg ` set (claims_of p) \<inter> claim_key cfg ` set (concat (map claims_of ps)) = {}"
    by blast
  with sub rules_of_keys [of cfg p]
  have "rule_key ` set (rules_of cfg p) \<inter> rule_key ` set (concat (map (rules_of cfg) ps)) = {}"
    by blast
  moreover have "distinct (map rule_key (concat (map (rules_of cfg) ps)))"
    using Cons by (simp add: sorted_wrt_append)
  ultimately show ?case
    using distinct_rules_of_keys [of cfg p] by (simp only: list.map concat.simps map_append
        distinct_append set_map)
qed

lemma map_concat_names: "map rule_name (concat (map (rules_of cfg) ps)) = concat (map names_of ps)"
  by (simp add: map_concat comp_def)

lemma from_rules_derived:
  assumes "derivable ps"
  shows "from_rules (concat (map (rules_of cfg) ps)) = Inr \<lparr>rules = concat (map (rules_of cfg) ps), routes = []\<rparr>"
proof -
  let ?rs = "concat (map (rules_of cfg) ps)"
  have "\<forall>r\<in>set ?rs. rule_validate r = Inr ()"
    using assms rules_of_ok [of _ _ cfg] by (auto simp: derivable_def rule_validate_ok)
  moreover have "unique_keys ?rs ([] :: 'u http_route list)"
    using assms distinct_derived_keys [of ps cfg] map_concat_names [of cfg ps]
    by (simp add: unique_keys_def derivable_def)
  ultimately show ?thesis by (simp add: from_rules_def from_parts_unchecked_ok)
qed

lemma derive_exact:
  "derive s cfg = Inr rs \<longleftrightarrow> derivable (predicates s)
     \<and> rs = \<lparr>rules = concat (map (rules_of cfg) (predicates s)), routes = []\<rparr>"
proof
  assume "derive s cfg = Inr rs"
  then obtain st where st: "derive_loop cfg (predicates s) derive_start = Inr st"
    and rs: "from_rules (out_rules st) = Inr rs"
    by (auto simp: derive_def)
  from derive_loop_sound [OF st] have "derivable (predicates s)"
    by (simp only: accepts_all_start)
  moreover from derive_loop_sound [OF st] have "out_rules st = concat (map (rules_of cfg) (predicates s))"
    by (simp add: derive_start_def)
  ultimately show "derivable (predicates s)
     \<and> rs = \<lparr>rules = concat (map (rules_of cfg) (predicates s)), routes = []\<rparr>"
    using rs by (simp add: from_rules_derived)
next
  assume a: "derivable (predicates s)
     \<and> rs = \<lparr>rules = concat (map (rules_of cfg) (predicates s)), routes = []\<rparr>"
  then have "is_ok (derive_loop cfg (predicates s) derive_start)"
    by (intro derive_loop_complete) (simp add: accepts_all_start)
  then obtain st where st: "derive_loop cfg (predicates s) derive_start = Inr st"
    by (auto simp: is_ok_iff)
  from derive_loop_sound [OF st] have "out_rules st = concat (map (rules_of cfg) (predicates s))"
    by (simp add: derive_start_def)
  with st a show "derive s cfg = Inr rs"
    by (simp add: derive_def from_rules_derived)
qed

section \<open>From a terminal's rules to a relay's\<close>

lemma sorted_wrt_perm:
  assumes sym: "\<And>x y. R x y \<Longrightarrow> R y x" and "mset xs = mset ys" and "sorted_wrt R xs"
  shows "sorted_wrt R ys"
  using assms(2,3)
proof (induction xs arbitrary: ys)
  case Nil
  then show ?case by simp
next
  case (Cons x xs)
  then have "x \<in> set ys" by (metis list.set_intros(1) set_mset_mset)
  then obtain a b where ys: "ys = a @ x # b" by (meson split_list)
  with Cons.prems have m: "mset xs = mset (a @ b)" by simp
  have "sorted_wrt R (a @ b)" using Cons.IH [OF m] Cons.prems(2) by simp
  moreover have "\<forall>y\<in>set (a @ b). R x y"
    using Cons.prems(2) m by (metis set_mset_mset sorted_wrt.simps(2))
  ultimately show ?case using sym by (auto simp: ys sorted_wrt_append)
qed

lemma compatible_sym: "compatible c d \<Longrightarrow> compatible d c"
  by (auto simp: compatible_def)

lemma mset_concat_map_perm: "mset ps = mset qs \<Longrightarrow> mset (concat (map f ps)) = mset (concat (map f qs))"
  by (simp add: mset_concat_map)

lemma derivable_perm:
  assumes "mset ps = mset qs" and "derivable ps"
  shows "derivable qs"
proof -
  have "set qs = set ps" using assms(1) by (metis set_mset_mset)
  moreover have "distinct (map pred_name qs)"
    using assms mset_eq_imp_distinct_iff [of "map pred_name ps" "map pred_name qs"]
    by (simp add: derivable_def)
  moreover have "distinct (concat (map names_of qs))"
    using assms mset_concat_map_perm [OF assms(1), of names_of] mset_eq_imp_distinct_iff
    by (auto simp: derivable_def)
  moreover have "sorted_wrt compatible (concat (map claims_of qs))"
    using assms(2) by (intro sorted_wrt_perm [OF compatible_sym mset_concat_map_perm [OF assms(1)]])
      (simp_all add: derivable_def)
  ultimately show ?thesis using assms(2) by (simp add: derivable_def)
qed

lemma project_rules_ok:
  "\<forall>r\<in>set rs. protocol r \<noteq> Https \<Longrightarrow> project_rules rs = Some (map project_rule rs)"
  by (induction rs) (auto split: protocol.splits)

text \<open>The predicates a terminal publishes, before sorting.\<close>

definition projected :: "'u rule_set \<Rightarrow> https_predicate_meta \<Rightarrow> predicate list" where
  "projected s meta =
     map project_rule (rules s) @ (if routes s \<noteq> [] then [project_routes (routes s) meta] else [])"

lemma extract_eq:
  assumes "\<forall>r\<in>set (rules s). protocol r \<noteq> Https"
  shows "extract_predicates s meta org =
    Some \<lparr>predicates = sort_key pred_name (projected s meta), origin = org\<rparr>"
  by (simp add: extract_predicates_def project_rules_ok [OF assms] projected_def)

lemma project_rule_simps [simp]:
  "pred_name (project_rule r) = rule_name r"
  "listen_port (project_rule r) = sa_port (listen r)"
  "pred_protocol (project_rule r) = protocol r"
  by (simp_all add: project_rule_def)

lemma project_routes_simps [simp]:
  "pred_name (project_routes rts m) = ''public-https''"
  "listen_port (project_routes rts m) = meta_listen_port m"
  "pred_protocol (project_routes rts m) = Https"
  "https_http3 (project_routes rts m) = http3 m"
  by (simp_all add: project_routes_def)

text \<open>
  What a terminal's valid rule set must satisfy beyond its own validation for the relays to
  be able to serve it: ports unique per protocol whatever the listen address, and, with
  HTTPS routes, a port and rule names of their own for the HTTPS listener.
\<close>

definition https_rule_names :: "https_predicate_meta \<Rightarrow> string list" where
  "https_rule_names meta =
     [''public-https'', ''public-https-tcp''] @ (if http3 meta then [''public-https-udp''] else [])"

definition chainable :: "'u rule_set \<Rightarrow> https_predicate_meta \<Rightarrow> bool" where
  "chainable s meta \<longleftrightarrow>
     distinct (map (\<lambda>r. (sa_port (listen r), protocol r)) (rules s))
     \<and> (routes s \<noteq> [] \<longrightarrow> meta_listen_port meta \<noteq> 0
          \<and> (\<forall>r\<in>set (rules s). sa_port (listen r) \<noteq> meta_listen_port meta
               \<and> rule_name r \<notin> set (https_rule_names meta)))"

lemma l4_claims:
  assumes "\<forall>r\<in>set rs. protocol r \<noteq> Https"
  shows "concat (map claims_of (map project_rule rs)) = map (\<lambda>r. claim_l4 (project_rule r)) rs"
    and "concat (map names_of (map project_rule rs)) = map rule_name rs"
  using assms by (induction rs) (simp_all add: claims_of_def names_of_def)

lemma l4_compatible:
  "sorted_wrt compatible (map (\<lambda>r. claim_l4 (project_rule r)) rs) \<longleftrightarrow>
     distinct (map (\<lambda>r. (sa_port (listen r), protocol r)) rs)"
  by (induction rs) (auto simp: compatible_def claim_l4_def)

lemma names_of_routes:
  "names_of (project_routes rts meta) = tl (https_rule_names meta)"
  by (simp add: names_of_def https_rule_names_def derived_https_rule_name_def)

lemma derivable_projected:
  assumes rok: "\<forall>r\<in>set (rules s). rule_ok r" and names: "distinct (map rule_name (rules s))"
  shows "derivable (projected s meta) \<longleftrightarrow> chainable s meta"
proof -
  let ?L = "map project_rule (rules s)" and ?h = "project_routes (routes s) meta"
  have l4: "\<forall>r\<in>set (rules s). protocol r \<noteq> Https" using rok by (auto simp: rule_ok_def)
  have ok: "\<forall>p\<in>set ?L. name_ok (pred_name p) \<and> listen_port p \<noteq> 0"
    using rok by (auto simp: rule_ok_def name_ok_def)
  have pn: "map pred_name ?L = map rule_name (rules s)" by simp
  show ?thesis
  proof (cases "routes s = []")
    case True
    then have "projected s meta = ?L" by (simp add: projected_def)
    moreover have "chainable s meta \<longleftrightarrow> distinct (map (\<lambda>r. (sa_port (listen r), protocol r)) (rules s))"
      using True by (simp add: chainable_def)
    ultimately show ?thesis
      using ok names by (simp only: derivable_def pn l4_claims [OF l4] l4_compatible) blast
  next
    case False
    have hn: "name_ok ''public-https''"
      by (auto simp: name_ok_def utf8_chars_ascii is_whitespace_def is_control_def)
    have dn: "distinct (tl (https_rule_names meta))" by (simp add: https_rule_names_def)
    have cl: "sorted_wrt compatible (concat (map claims_of ?L) @ claims_of ?h) \<longleftrightarrow>
        distinct (map (\<lambda>r. (sa_port (listen r), protocol r)) (rules s)) \<and>
        (\<forall>r\<in>set (rules s). sa_port (listen r) \<noteq> meta_listen_port meta)"
      unfolding l4_claims(1) [OF l4] sorted_wrt_append l4_compatible
      by (auto simp: claims_of_def compatible_def claim_l4_def claim_https_def)
    have nm: "distinct (concat (map names_of ?L) @ names_of ?h) \<longleftrightarrow>
        (\<forall>r\<in>set (rules s). rule_name r \<notin> set (tl (https_rule_names meta)))"
      unfolding l4_claims(2) [OF l4] names_of_routes distinct_append using names dn by auto
    have hd: "set (https_rule_names meta) = insert ''public-https'' (set (tl (https_rule_names meta)))"
      by (simp add: https_rule_names_def)
    have ph: "''public-https'' \<notin> rule_name ` set (rules s) \<longleftrightarrow>
        (\<forall>r\<in>set (rules s). rule_name r \<noteq> ''public-https'')" by force
    have pr: "projected s meta = ?L @ [?h]" using False by (simp add: projected_def)
    have "derivable (?L @ [?h]) \<longleftrightarrow> meta_listen_port meta \<noteq> 0
        \<and> ''public-https'' \<notin> rule_name ` set (rules s)
        \<and> distinct (concat (map names_of ?L) @ names_of ?h)
        \<and> sorted_wrt compatible (concat (map claims_of ?L) @ claims_of ?h)"
      unfolding derivable_def using ok names hn by (auto simp: comp_def)
    then show ?thesis
      unfolding pr cl nm chainable_def hd using False ph by auto
  qed
qed

text \<open>The listeners that have to exist along the chain for a terminal's rule set.\<close>

definition served :: "'u rule_set \<Rightarrow> https_predicate_meta \<Rightarrow> (u16 \<times> protocol) set" where
  "served s meta = (\<lambda>r. (sa_port (listen r), protocol r)) ` set (rules s) \<union>
     (if routes s = [] then {}
      else insert (meta_listen_port meta, Tcp) (if http3 meta then {(meta_listen_port meta, Udp)} else {}))"

abbreviation listener :: "rule \<Rightarrow> u16 \<times> protocol" where
  "listener r \<equiv> (sa_port (listen r), protocol r)"

lemma listeners_of_l4:
  "protocol r \<noteq> Https \<Longrightarrow> listener ` set (rules_of cfg (project_rule r)) = {listener r}"
  by (simp add: rules_of_def rule_from_predicate_l4_def)

lemma listeners_of_https:
  "listener ` set (rules_of cfg (project_routes rts meta)) =
     insert (meta_listen_port meta, Tcp) (if http3 meta then {(meta_listen_port meta, Udp)} else {})"
  by (simp add: rules_of_def rule_from_https_predicate_def)

lemma derived_listeners:
  assumes "\<forall>r\<in>set (rules s). protocol r \<noteq> Https"
  shows "listener ` set (concat (map (rules_of cfg) (sort_key pred_name (projected s meta)))) = served s meta"
proof -
  have "listener ` set (concat (map (rules_of cfg) (sort_key pred_name (projected s meta))))
      = (\<Union>p\<in>set (projected s meta). listener ` set (rules_of cfg p))"
    by (simp add: image_UN)
  also have "\<dots> = (\<Union>r\<in>set (rules s). listener ` set (rules_of cfg (project_rule r))) \<union>
      (if routes s = [] then {} else listener ` set (rules_of cfg (project_routes (routes s) meta)))"
    by (auto simp: projected_def)
  also have "(\<Union>r\<in>set (rules s). listener ` set (rules_of cfg (project_rule r))) = listener ` set (rules s)"
    using assms listeners_of_l4 [of _ cfg] by fastforce
  finally show ?thesis by (simp only: served_def listeners_of_https)
qed

section \<open>Properties\<close>

text \<open>
  C8: derivation is exact. It succeeds precisely on the predicate sets with well-formed unique
  names, non-zero ports, unique derived rule names and no clashing listeners (an HTTPS
  predicate owning its whole port), and the result is the rules of the predicates in
  order; the closing rule-set validation never rejects what the loop accepted.
\<close>

theorem derive_iff_derivable:
  "derive s cfg = Inr rs \<longleftrightarrow> derivable (predicates s)
     \<and> rs = \<lparr>rules = concat (map (rules_of cfg) (predicates s)), routes = []\<rparr>"
  by (rule derive_exact)

text \<open>
  C7: for a valid terminal rule set, what the terminal publishes can be served by a relay
  exactly when the set is chainable, and then the relay listens on exactly the ports and
  protocols the terminal serves.
\<close>

theorem publish_then_derive:
  assumes "\<forall>r\<in>set (rules s). rule_ok r" and "unique_keys (rules s) (routes s)"
  shows "\<exists>ps. extract_predicates s meta org = Some ps
    \<and> (is_ok (derive ps cfg :: derive_error + 'u rule_set) \<longleftrightarrow> chainable s meta)
    \<and> (\<forall>rs :: 'u rule_set. derive ps cfg = Inr rs \<longrightarrow>
         (\<lambda>r. (sa_port (listen r), protocol r)) ` set (rules rs) = served s meta)"
proof -
  let ?ps = "\<lparr>predicates = sort_key pred_name (projected s meta), origin = org\<rparr>"
  have l4: "\<forall>r\<in>set (rules s). protocol r \<noteq> Https" using assms(1) by (auto simp: rule_ok_def)
  have names: "distinct (map rule_name (rules s))" using assms(2) by (simp add: unique_keys_def)
  have "derivable (sort_key pred_name (projected s meta)) \<longleftrightarrow> derivable (projected s meta)"
    using derivable_perm mset_sort by metis
  then have "derivable (predicates ?ps) \<longleftrightarrow> chainable s meta"
    using derivable_projected [OF assms(1) names] by simp
  moreover have "is_ok (derive ?ps cfg :: derive_error + 'u rule_set) \<longleftrightarrow> derivable (predicates ?ps)"
    by (auto simp: is_ok_iff derive_exact)
  moreover have "listener ` set (rules rs) = served s meta" if "derive ?ps cfg = Inr rs" for rs :: "'u rule_set"
    using that derived_listeners [OF l4, of cfg meta] by (simp add: derive_exact)
  ultimately show ?thesis using extract_eq [OF l4] by blast
qed

definition two_rules :: "unit rule_set" where
  "two_rules = \<lparr>rules = [plain_rule ''ssh'' 22 22, plain_rule ''mail'' 25 25], routes = [plain_route ''app.lan'']\<rparr>"

theorem publish_then_derive_witness:
  "chainable two_rules meta_default \<and>
   (\<exists>ps. extract_predicates two_rules meta_default (X25519 []) = Some ps
    \<and> is_ok (derive ps \<lparr>bind_addr = V4 0, cfg_proxy_protocol = None\<rparr> :: derive_error + unit rule_set))"
proof -
  have ok: "rule_ok (plain_rule ''ssh'' 22 22)" "rule_ok (plain_rule ''mail'' 25 25)"
    by (simp_all add: rule_ok_def plain_rule_def utf8_chars_ascii is_whitespace_def is_control_def)
  have c: "chainable two_rules meta_default"
    by (simp add: chainable_def two_rules_def meta_default_def plain_rule_def https_rule_names_def)
  have "\<forall>r\<in>set (rules two_rules). rule_ok r" using ok by (simp add: two_rules_def)
  moreover have "unique_keys (rules two_rules) (routes two_rules)"
    by (simp add: unique_keys_def two_rules_def plain_rule_def)
  ultimately show ?thesis using publish_then_derive [of two_rules] c by blast
qed

text \<open>
  two TCP rules on the same port of different addresses form a rule set the terminal
  accepts but whose published predicates every relay rejects.
\<close>

theorem valid_rules_rejected_by_relay:
  "let r1 = (plain_rule ''a'' 80 80)\<lparr>listen := SockV4 1 80\<rparr>;
       r2 = (plain_rule ''b'' 80 80)\<lparr>listen := SockV4 2 80\<rparr>;
       s = \<lparr>rules = [r1, r2], routes = [] :: unit http_route list\<rparr>
   in from_parts plain_url [r1, r2] [] = Inr s \<and>
      (\<exists>ps. extract_predicates s meta org = Some ps \<and>
         derive ps cfg = (Inl (DuplicateListenPort ''a'' ''b'' ''tcp'' 80) :: derive_error + unit rule_set))"
proof -
  let ?r1 = "(plain_rule ''a'' 80 80)\<lparr>listen := SockV4 1 80\<rparr>"
    and ?r2 = "(plain_rule ''b'' 80 80)\<lparr>listen := SockV4 2 80\<rparr>"
  have "rule_ok ?r1" "rule_ok ?r2"
    by (simp_all add: rule_ok_def plain_rule_def utf8_chars_ascii is_whitespace_def is_control_def)
  moreover have "unique_keys [?r1, ?r2] ([] :: unit http_route list)"
    by (simp add: unique_keys_def plain_rule_def)
  ultimately have "from_parts plain_url [?r1, ?r2] [] = Inr \<lparr>rules = [?r1, ?r2], routes = []\<rparr>"
    by (simp add: from_parts_def from_parts_unchecked_ok rule_validate_ok)
  then show ?thesis
    by (simp add: Let_def extract_predicates_def project_rule_def plain_rule_def derive_def derive_start_def
        derive_one_def validate_predicate_def utf8_chars_ascii is_whitespace_def is_control_def
        insert_rule_name_claim_def insert_listen_claim_def claim_l4_def listen_collision_error_def)
qed

text \<open>
  what a terminal publishes does not depend on the order of its rules: rule sets with the
  same rules and routes, with the names the predicates get all distinct, give the same
  predicate list, sorted by name.
\<close>

theorem extract_deterministic:
  assumes "mset (rules s) = mset (rules t)" and "routes s = routes t"
    and "\<forall>r\<in>set (rules s). rule_ok r" and "distinct (map pred_name (projected s meta))"
  shows "extract_predicates s meta org = extract_predicates t meta org
    \<and> (\<forall>ps. extract_predicates s meta org = Some ps \<longrightarrow> sorted (map pred_name (predicates ps)))"
proof -
  have st: "set (rules s) = set (rules t)" using assms(1) by (metis set_mset_mset)
  have l4: "\<forall>r\<in>set (rules s). protocol r \<noteq> Https" using assms(3) by (auto simp: rule_ok_def)
  have m: "mset (projected s meta) = mset (projected t meta)"
    using assms(1,2) by (simp add: projected_def)
  have "sort_key pred_name (projected s meta) = sort_key pred_name (projected t meta)"
  proof (rule properties_for_sort_key)
    show "mset (sort_key pred_name (projected t meta)) = mset (projected s meta)" using m by simp
    fix k assume "k \<in> set (sort_key pred_name (projected t meta))"
    then have k: "k \<in> set (projected s meta)" using m by (metis set_mset_mset set_sort)
    have inj: "inj_on pred_name (set (projected s meta))" using assms(4) by (simp add: distinct_map)
    have "filter (\<lambda>x. pred_name k = pred_name x) xs = filter (\<lambda>x. k = x) xs"
      if "set xs = set (projected s meta)" for xs
      using inj that k by (intro filter_cong) (auto dest: inj_onD)
    moreover have "filter (\<lambda>x. k = x) xs = replicate (count (mset xs) k) k" for xs
      by (induction xs) auto
    moreover have "set (sort_key pred_name (projected t meta)) = set (projected s meta)"
      using m by (metis set_mset_mset set_sort)
    ultimately show "filter (\<lambda>x. pred_name k = pred_name x) (sort_key pred_name (projected t meta))
        = filter (\<lambda>x. pred_name k = pred_name x) (projected s meta)"
      using m by simp
  qed simp
  with extract_eq [OF l4] extract_eq [OF l4 [unfolded st]] show ?thesis by simp
qed

definition ab_rules :: "rule list \<Rightarrow> unit rule_set" where
  "ab_rules rs = \<lparr>rules = rs, routes = []\<rparr>"

theorem extract_deterministic_witness:
  "extract_predicates (ab_rules [plain_rule ''b'' 2 2, plain_rule ''a'' 1 1]) meta_default (X25519 []) =
   extract_predicates (ab_rules [plain_rule ''a'' 1 1, plain_rule ''b'' 2 2]) meta_default (X25519 [])"
proof -
  have "rule_ok (plain_rule ''a'' 1 1)" "rule_ok (plain_rule ''b'' 2 2)"
    by (simp_all add: rule_ok_def plain_rule_def utf8_chars_ascii is_whitespace_def is_control_def)
  then show ?thesis
    by (intro extract_deterministic [THEN conjunct1] ballI)
       (auto simp: ab_rules_def projected_def plain_rule_def add_mset_commute)
qed

end
