(* ===== verification/Acceptor.thy ===== *)
theory Acceptor
  imports Derive Chain_Query Canary_Table Heartbeat_Server
begin

text \<open>
  The relay-side control dispatcher (crate \<open>yggdrasil\<close>, file \<open>chain/acceptor.rs\<close>) with the
  introspection state it maintains (\<open>chain/introspection.rs\<close>) and the supervisor handle it
  pushes rule sets through (\<open>proxy/supervisor/mod.rs\<close>). Hash maps are association lists, whose
  order stands for the unspecified iteration order; spawned handlers are tasks in the state,
  run by their own definitions with clock readings and the outcome of waits as inputs.
\<close>

section \<open>Supervisor handle and introspection\<close>

record 'u supervisor_handle =
  sup_open :: bool
  apply_queue :: "'u rule_set list"
  current_set :: "'u rule_set"

definition apply_ruleset :: "'u rule_set \<Rightarrow> 'u supervisor_handle \<Rightarrow> 'u supervisor_handle \<times> (unit + unit)" where
  "apply_ruleset rs h =
     (if sup_open h then (h\<lparr>apply_queue := apply_queue h @ [rs]\<rparr>, Inr ()) else (h, Inl ()))"

record introspection_state =
  local_pubkey :: pub_key
  upstream_pubkey :: "pub_key option"
  downstream_pubkey :: "pub_key option"
  latest_predicates :: "predicate_set option"
  last_apply_unix :: "64 word"

definition introspection_new :: "pub_key \<Rightarrow> pub_key option \<Rightarrow> pub_key option \<Rightarrow> introspection_state" where
  "introspection_new l u d =
     \<lparr>local_pubkey = l, upstream_pubkey = u, downstream_pubkey = d, latest_predicates = None,
      last_apply_unix = 0\<rparr>"

definition record_apply :: "64 word \<Rightarrow> predicate_set \<Rightarrow> introspection_state \<Rightarrow> introspection_state" where
  "record_apply now ps ix = ix\<lparr>latest_predicates := Some ps, last_apply_unix := now\<rparr>"

definition snapshot :: "'u rule_set \<Rightarrow> introspection_state \<Rightarrow> derived_rules_response" where
  "snapshot current ix =
     (case (case latest_predicates ix of
              Some p \<Rightarrow> (predicates p, Some (origin p))
            | None \<Rightarrow> ([], None)) of (ps, pred_origin) \<Rightarrow>
      \<lparr>view_predicates = ps, derived_rules = rules current,
       view_chain =
         \<lparr>id_local = local_pubkey ix, id_upstream = upstream_pubkey ix, id_downstream = downstream_pubkey ix,
          predicate_origin = pred_origin,
          id_last_apply_unix = (if sint (last_apply_unix ix) > 0 then Some (last_apply_unix ix) else None)\<rparr>\<rparr>)"

section \<open>State\<close>

datatype chain_task = HopQueryTask chain_hop_query | CanaryArmTask canary_arm

record outbound_channel =
  ob_open :: bool
  ob_queue :: "control_envelope list"

record 'u chain_acceptor =
  supervisor :: "'u supervisor_handle"
  derive_cfg :: derive_config
  introspection :: "introspection_state option"
  acc_mode :: "mode option"
  node_name :: "string option"
  outbound_tx :: "outbound_channel option"
  upstream :: "client_handle option"
  arm_table :: "arm_table option"
  last_forwarded :: "(pub_key \<times> bytes) list"
  acc_tasks :: "chain_task list"

definition acceptor_new :: "'u supervisor_handle \<Rightarrow> derive_config \<Rightarrow> 'u chain_acceptor" where
  "acceptor_new handle cfg =
     \<lparr>supervisor = handle, derive_cfg = cfg, introspection = None, acc_mode = None, node_name = None,
      outbound_tx = None, upstream = None, arm_table = None, last_forwarded = [], acc_tasks = []\<rparr>"

text \<open>\<open>OnceLock::set\<close>: the first value stays, a later one is handed back.\<close>

definition once_set :: "'a \<Rightarrow> 'a option \<Rightarrow> 'a option \<times> ('a + unit)" where
  "once_set x cell = (case cell of None \<Rightarrow> (Some x, Inr ()) | Some y \<Rightarrow> (Some y, Inl x))"

definition set_mode :: "mode \<Rightarrow> 'u chain_acceptor \<Rightarrow> 'u chain_acceptor \<times> (mode + unit)" where
  "set_mode m acc = (case once_set m (acc_mode acc) of (c, r) \<Rightarrow> (acc\<lparr>acc_mode := c\<rparr>, r))"

definition set_upstream :: "client_handle \<Rightarrow> 'u chain_acceptor \<Rightarrow> 'u chain_acceptor \<times> (client_handle + unit)" where
  "set_upstream h acc = (case once_set h (upstream acc) of (c, r) \<Rightarrow> (acc\<lparr>upstream := c\<rparr>, r))"

section \<open>Predicate updates\<close>

definition handle_predicate_set_update ::
  "predicate_codec \<Rightarrow> 64 word \<Rightarrow> bytes \<Rightarrow> 'u chain_acceptor \<Rightarrow> 'u chain_acceptor \<times> ack_status" where
  "handle_predicate_set_update C now body acc =
     (if length body > PREDICATE_SET_MAX_WIRE_BYTES then (acc, Reject PREDICATE_SET_TOO_LARGE)
      else case from_wire_bytes C body of
        Inl _ \<Rightarrow> (acc, Reject INVALID_PREDICATE)
      | Inr ps \<Rightarrow>
          (case derive ps (derive_cfg acc) of
             Inl e \<Rightarrow> (acc, Reject (derive_reject_code e))
           | Inr rs \<Rightarrow>
               (case apply_ruleset rs (supervisor acc) of
                  (handle, Inl _) \<Rightarrow> (acc\<lparr>supervisor := handle\<rparr>, Reject INVALID_PREDICATE)
                | (handle, Inr _) \<Rightarrow>
                    let acc = acc\<lparr>supervisor := handle,
                                  introspection := map_option (record_apply now ps) (introspection acc)\<rparr>
                    in case upstream acc of
                         None \<Rightarrow> (acc, AckOk)
                       | Some up \<Rightarrow>
                           let acc = acc\<lparr>last_forwarded := AList.update (origin ps) body (last_forwarded acc)\<rparr>
                           in (case send_control (as_byte PredicateSetUpdate) body up of (up, _) \<Rightarrow>
                               (acc\<lparr>upstream := Some up\<rparr>, AckOk)))))"

text \<open>One round of the resync task: a new upstream session re-sends every stored body.\<close>

fun resend_bodies :: "(pub_key \<times> bytes) list \<Rightarrow> client_handle \<Rightarrow> client_handle" where
  "resend_bodies [] up = up"
| "resend_bodies ((k, body) # bodies) up =
     resend_bodies bodies (fst (send_control (as_byte PredicateSetUpdate) body up))"

definition upstream_resync :: "'u chain_acceptor \<Rightarrow> 'u chain_acceptor" where
  "upstream_resync acc =
     (case upstream acc of
        None \<Rightarrow> acc
      | Some up \<Rightarrow> acc\<lparr>upstream := Some (resend_bodies (last_forwarded acc) up)\<rparr>)"

section \<open>Dispatch\<close>

definition dispatch ::
  "chain_lib \<Rightarrow> predicate_codec \<Rightarrow> 64 word \<Rightarrow> 'u chain_acceptor dispatcher" where
  "dispatch L C now acc body_type body =
     (case from_byte body_type of
        None \<Rightarrow> (acc, Unknown)
      | Some kind \<Rightarrow>
          (case kind of
             Reserved \<Rightarrow> (acc, AckOk)
           | Noop \<Rightarrow> (acc, AckOk)
           | PredicateSetUpdate \<Rightarrow> handle_predicate_set_update C now body acc
           | ChainHopQuery \<Rightarrow>
               (case dec_hop_query L body of
                  Inl _ \<Rightarrow> acc
                | Inr query \<Rightarrow> acc\<lparr>acc_tasks := acc_tasks acc @ [HopQueryTask query]\<rparr>, AckOk)
           | ChainHopReply \<Rightarrow> (acc, Unknown)
           | CanaryArm \<Rightarrow>
               (case dec_canary_arm L body of
                  Inl _ \<Rightarrow> acc
                | Inr frame \<Rightarrow> acc\<lparr>acc_tasks := acc_tasks acc @ [CanaryArmTask frame]\<rparr>, AckOk)
           | CanaryReply \<Rightarrow> (acc, Unknown)))"

section \<open>Chain hop queries\<close>

record 'r hop_env =
  he_uptime_secs :: u64
  he_rtt :: nat
  he_query :: "'r query_env"

definition push_outbound :: "control_body_type \<Rightarrow> bytes \<Rightarrow> 'u chain_acceptor \<Rightarrow> 'u chain_acceptor" where
  "push_outbound t body acc =
     (case outbound_tx acc of
        None \<Rightarrow> acc
      | Some ob \<Rightarrow>
          if ob_open ob then
            acc\<lparr>outbound_tx := Some (ob\<lparr>ob_queue := ob_queue ob @
              [\<lparr>env_seq = 0, env_body_type = as_byte t, env_body = body\<rparr>]\<rparr>)\<rparr>
          else acc)"

definition send_reply :: "chain_lib \<Rightarrow> chain_hop_reply \<Rightarrow> 'u chain_acceptor \<Rightarrow> 'u chain_acceptor" where
  "send_reply L reply acc =
     (case enc_hop_reply L reply of
        Inl _ \<Rightarrow> acc
      | Inr bytes \<Rightarrow> push_outbound ChainHopReply bytes acc)"

definition FORWARDING_OVERHEAD_MS :: u32 where "FORWARDING_OVERHEAD_MS = 250"

definition saturating_sub :: "'a::len word \<Rightarrow> 'a word \<Rightarrow> 'a word" where
  "saturating_sub a b = (if a \<le> b then 0 else a - b)"

definition rtt_ms :: "nat \<Rightarrow> u64" where
  "rtt_ms n = of_nat (min n (2 ^ 64 - 1))"

text \<open>The loop over \<open>reply.hops.into_iter().enumerate()\<close>; \<open>hops\<close> grows while it runs.\<close>

fun extend_hops :: "u64 \<Rightarrow> nat \<Rightarrow> chain_hop list \<Rightarrow> chain_hop list \<Rightarrow> chain_hop list" where
  "extend_hops rtt offset hops [] = hops"
| "extend_hops rtt offset hops (hop # rest) =
     extend_hops rtt (offset + 1)
       (hops @ [hop\<lparr>hop_index := of_nat (length hops + offset),
                    query_rtt_ms := (if offset = 0 then Some rtt else query_rtt_ms hop)\<rparr>]) rest"

definition forward_hop_query ::
  "chain_lib \<Rightarrow> chain_hop_reply hop_env \<Rightarrow> chain_hop_query \<Rightarrow> chain_hop \<Rightarrow> client_handle
     \<Rightarrow> client_handle \<times> chain_hop list \<times> bool \<times> string option" where
  "forward_hop_query L E query local_hop up =
     (let depth_budget = saturating_sub (hq_depth_budget query) 1;
          deadline_ms = saturating_sub (hq_deadline_ms query) FORWARDING_OVERHEAD_MS
      in if depth_budget > 0 \<and> deadline_ms > 0 then
           (case query_upstream L (he_query E) depth_budget (unat deadline_ms) up of
              (up, Inr reply) \<Rightarrow>
                (up, extend_hops (rtt_ms (he_rtt E)) 0 [local_hop] (hr_hops reply), hr_partial reply, hr_error reply)
            | (up, Inl QueryTimeout) \<Rightarrow> (up, [local_hop], True, Some ''upstream chain hop query timed out'')
            | (up, Inl e) \<Rightarrow>
                (up, [local_hop], True, Some (''upstream chain hop query failed: '' @ show_query_error e)))
         else if depth_budget = 0 then (up, [local_hop], True, Some ''depth budget exhausted'')
         else (up, [local_hop], True, Some ''deadline exhausted before upstream forward''))"

text \<open>Encode and size-check: an oversized reply keeps the local hop only.\<close>

definition fit_hop_reply :: "chain_lib \<Rightarrow> chain_hop_reply \<Rightarrow> chain_hop_reply option" where
  "fit_hop_reply L reply =
     (case enc_hop_reply L reply of
        Inr bytes \<Rightarrow>
          if length bytes > CHAIN_HOP_REPLY_MAX_WIRE_BYTES then
            Some (reply\<lparr>hr_hops := take 1 (hr_hops reply), hr_partial := True,
              hr_error := Some (''reply exceeded '' @ show_nat CHAIN_HOP_REPLY_MAX_WIRE_BYTES
                                @ '' bytes; truncated to local hop'')\<rparr>)
          else Some reply
      | Inl _ \<Rightarrow> None)"

definition local_chain_hop :: "u64 \<Rightarrow> 'u chain_acceptor \<Rightarrow> introspection_state \<Rightarrow> chain_hop" where
  "local_chain_hop uptime acc ix =
     \<lparr>hop_index = 0, hop_mode = (case acc_mode acc of Some m \<Rightarrow> m | None \<Rightarrow> Relay),
      uptime_secs = uptime, hop_name = node_name acc,
      hop_view = snapshot (current_set (supervisor acc)) ix, query_rtt_ms = None\<rparr>"

text \<open>The reply a hop assembles, with its effect on the upstream handle.\<close>

definition assemble_hop_reply ::
  "chain_lib \<Rightarrow> chain_hop_reply hop_env \<Rightarrow> chain_hop_query \<Rightarrow> 'u chain_acceptor
     \<Rightarrow> 'u chain_acceptor \<times> chain_hop_reply option" where
  "assemble_hop_reply L E query acc =
     (case introspection acc of
        None \<Rightarrow>
          (acc, Some \<lparr>hr_query_id = hq_query_id query, hr_hops = [], hr_partial = True,
                      hr_error = Some ''local introspection unavailable''\<rparr>)
      | Some ix \<Rightarrow>
          let local_hop = local_chain_hop (he_uptime_secs E) acc ix in
          (case (case upstream acc of
                   None \<Rightarrow> (acc, [local_hop], False, None)
                 | Some up \<Rightarrow>
                     (case forward_hop_query L E query local_hop up of (up, r) \<Rightarrow>
                        (acc\<lparr>upstream := Some up\<rparr>, r))) of
             (acc, hops, partial, err) \<Rightarrow>
               (acc, fit_hop_reply L
                  \<lparr>hr_query_id = hq_query_id query, hr_hops = hops, hr_partial = partial, hr_error = err\<rparr>)))"

definition handle_chain_hop_query ::
  "chain_lib \<Rightarrow> chain_hop_reply hop_env \<Rightarrow> chain_hop_query \<Rightarrow> 'u chain_acceptor \<Rightarrow> 'u chain_acceptor" where
  "handle_chain_hop_query L E query acc =
     (case assemble_hop_reply L E query acc of
        (acc, None) \<Rightarrow> acc
      | (acc, Some reply) \<Rightarrow> send_reply L reply acc)"


section \<open>Canary arming\<close>

definition send_canary_reply :: "chain_lib \<Rightarrow> canary_reply \<Rightarrow> 'u chain_acceptor \<Rightarrow> 'u chain_acceptor" where
  "send_canary_reply L reply acc =
     (case enc_canary_reply L reply of
        Inl _ \<Rightarrow> acc
      | Inr bytes \<Rightarrow> push_outbound CanaryReply bytes acc)"

definition has_matching_rule :: "socket_addr \<Rightarrow> protocol \<Rightarrow> 'u chain_acceptor \<Rightarrow> bool" where
  "has_matching_rule l p acc =
     list_ex (\<lambda>r. listen r = l \<and> protocol r = p) (rules (current_set (supervisor acc)))"

definition SERVER_MAX_ARM_TTL_MS :: u64 where "SERVER_MAX_ARM_TTL_MS = 60000"

text \<open>The wall clock in milliseconds and the two monotonic readings made inside \<open>arm\<close>.\<close>

record canary_env =
  ce_now_ms :: u64
  ce_arm_t0 :: nat
  ce_arm_now :: nat
  ce_rtt :: nat
  ce_query :: "canary_reply query_env"

definition install_arm :: "canary_env \<Rightarrow> canary_arm \<Rightarrow> 'u chain_acceptor \<Rightarrow> 'u chain_acceptor \<times> bool" where
  "install_arm E frame acc =
     (if acc_mode acc = Some Terminal \<and> has_matching_rule (rule_listen frame) (rule_protocol frame) acc then
        (case arm_table acc of
           Some table \<Rightarrow>
             let raw_ttl_ms = saturating_sub (expires_unix_ms frame) (ce_now_ms E);
                 ttl_ms = min raw_ttl_ms SERVER_MAX_ARM_TTL_MS
             in if ttl_ms > 0 then
                  (acc\<lparr>arm_table := Some (arm (ce_arm_t0 E) (ce_arm_now E)
                      (rule_listen frame, rule_protocol frame) (ca_token frame) (unat ttl_ms) table)\<rparr>, True)
                else (acc, False)
         | None \<Rightarrow> (acc, False))
      else (acc, False))"

fun extend_canary_hops :: "u64 \<Rightarrow> nat \<Rightarrow> canary_hop list \<Rightarrow> canary_hop list \<Rightarrow> canary_hop list" where
  "extend_canary_hops rtt offset hops [] = hops"
| "extend_canary_hops rtt offset hops (hop # rest) =
     extend_canary_hops rtt (offset + 1)
       (hops @ [hop\<lparr>ch_hop_index := of_nat (length hops + offset),
                    ch_query_rtt_ms := (if offset = 0 then Some rtt else ch_query_rtt_ms hop)\<rparr>]) rest"

definition forward_canary_arm ::
  "chain_lib \<Rightarrow> canary_env \<Rightarrow> canary_arm \<Rightarrow> canary_hop \<Rightarrow> client_handle
     \<Rightarrow> client_handle \<times> canary_hop list \<times> bool \<times> string option" where
  "forward_canary_arm L E frame local_hop up =
     (let depth_budget = saturating_sub (ca_depth_budget frame) 1;
          deadline_ms = saturating_sub (ca_deadline_ms frame) FORWARDING_OVERHEAD_MS
      in if depth_budget > 0 \<and> deadline_ms > 0 then
           (case query_upstream_canary L (ce_query E)
                   (frame\<lparr>ca_query_id := 0, ca_depth_budget := depth_budget, ca_deadline_ms := deadline_ms\<rparr>)
                   (unat deadline_ms) up of
              (up, Inr reply) \<Rightarrow>
                (up, extend_canary_hops (rtt_ms (ce_rtt E)) 0 [local_hop] (cr_hops reply),
                 cr_partial reply, if cr_partial reply then cr_error reply else None)
            | (up, Inl e) \<Rightarrow>
                (up, [local_hop], True, Some (''upstream canary arm failed: '' @ show_query_error e)))
         else if depth_budget = 0 then (up, [local_hop], True, Some ''depth budget exhausted'')
         else (up, [local_hop], True, Some ''deadline exhausted before upstream forward''))"

definition fit_canary_reply :: "chain_lib \<Rightarrow> canary_reply \<Rightarrow> canary_reply option" where
  "fit_canary_reply L reply =
     (case enc_canary_reply L reply of
        Inr bytes \<Rightarrow>
          if length bytes > CANARY_REPLY_MAX_WIRE_BYTES then
            Some (reply\<lparr>cr_hops := take 1 (cr_hops reply), cr_partial := True,
              cr_error := Some (''reply exceeded '' @ show_nat CANARY_REPLY_MAX_WIRE_BYTES
                                @ '' bytes; truncated to local hop'')\<rparr>)
          else Some reply
      | Inl _ \<Rightarrow> None)"

definition handle_canary_arm ::
  "chain_lib \<Rightarrow> canary_env \<Rightarrow> canary_arm \<Rightarrow> 'u chain_acceptor \<Rightarrow> 'u chain_acceptor" where
  "handle_canary_arm L E frame acc =
     (case introspection acc of
        None \<Rightarrow>
          send_canary_reply L \<lparr>cr_query_id = ca_query_id frame, cr_hops = [], cr_partial = True,
            cr_error = Some ''local introspection unavailable''\<rparr> acc
      | Some ix \<Rightarrow>
          let present = has_matching_rule (rule_listen frame) (rule_protocol frame) acc in
          (case install_arm E frame acc of (acc, armed) \<Rightarrow>
           let local_hop =
                 \<lparr>ch_hop_index = 0,
                  ch_pubkey = id_local (view_chain (snapshot (current_set (supervisor acc)) ix)),
                  ch_name = node_name acc,
                  ch_mode = (case acc_mode acc of Some m \<Rightarrow> m | None \<Rightarrow> Relay),
                  rule_present = present, echo_armed = armed, ch_query_rtt_ms = None\<rparr>
           in case (case upstream acc of
                      None \<Rightarrow> (acc, [local_hop], False, None)
                    | Some up \<Rightarrow>
                        (case forward_canary_arm L E frame local_hop up of (up, r) \<Rightarrow>
                           (acc\<lparr>upstream := Some up\<rparr>, r))) of
                (acc, hops, partial, err) \<Rightarrow>
                  (case fit_canary_reply L \<lparr>cr_query_id = ca_query_id frame, cr_hops = hops,
                          cr_partial = partial, cr_error = err\<rparr> of
                     None \<Rightarrow> acc
                   | Some reply \<Rightarrow> send_canary_reply L reply acc)))"


section \<open>Predicate updates: what a relay accepts\<close>

definition accepted_set :: "predicate_codec \<Rightarrow> bytes \<Rightarrow> predicate_set option" where
  "accepted_set C body =
     (case from_wire_bytes C body of
        Inr ps \<Rightarrow>
          if length body \<le> PREDICATE_SET_MAX_WIRE_BYTES \<and> derivable (predicates ps) then Some ps else None
      | Inl _ \<Rightarrow> None)"

definition derived_set :: "derive_config \<Rightarrow> predicate_set \<Rightarrow> 'u rule_set" where
  "derived_set cfg ps = \<lparr>rules = concat (map (rules_of cfg) (predicates ps)), routes = []\<rparr>"

lemma derive_ok: "derivable (predicates ps) \<Longrightarrow> derive ps cfg = Inr (derived_set cfg ps)"
  by (simp add: derive_exact derived_set_def)

lemma derive_err: "\<not> derivable (predicates ps) \<Longrightarrow> \<exists>e. (derive ps cfg :: derive_error + 'u rule_set) = Inl e"
  by (cases "derive ps cfg :: derive_error + 'u rule_set") (auto simp: derive_exact)

text \<open>The effect of an accepted set on the relay.\<close>

definition apply_accepted :: "64 word \<Rightarrow> predicate_set \<Rightarrow> bytes \<Rightarrow> 'u chain_acceptor \<Rightarrow> 'u chain_acceptor" where
  "apply_accepted now ps body acc =
     (let acc = acc\<lparr>supervisor := (supervisor acc)\<lparr>apply_queue :=
                       apply_queue (supervisor acc) @ [derived_set (derive_cfg acc) ps]\<rparr>,
                    introspection := map_option (record_apply now ps) (introspection acc)\<rparr>
      in case upstream acc of
           None \<Rightarrow> acc
         | Some up \<Rightarrow>
             acc\<lparr>last_forwarded := AList.update (origin ps) body (last_forwarded acc),
                 upstream := Some (fst (send_control (as_byte PredicateSetUpdate) body up))\<rparr>)"

lemma handle_update_accepted:
  assumes "accepted_set C body = Some ps" and "sup_open (supervisor acc)"
  shows "handle_predicate_set_update C now body acc = (apply_accepted now ps body acc, AckOk)"
proof -
  from assms(1) have w: "from_wire_bytes C body = Inr ps" and l: "length body \<le> PREDICATE_SET_MAX_WIRE_BYTES"
    and d: "derivable (predicates ps)"
    by (auto simp: accepted_set_def split: sum.splits if_splits)
  from w l d assms(2) show ?thesis
    by (simp add: derive_ok handle_predicate_set_update_def apply_ruleset_def apply_accepted_def Let_def split_def
        split: option.split)
qed

lemma handle_update_rejected:
  fixes acc :: "'u chain_acceptor"
  assumes "accepted_set C body = None \<or> \<not> sup_open (supervisor acc)"
  shows "\<exists>code. handle_predicate_set_update C now body acc = (acc, Reject code)"
proof (cases "length body \<le> PREDICATE_SET_MAX_WIRE_BYTES \<and> is_ok (from_wire_bytes C body)")
  case True
  then obtain ps where w: "from_wire_bytes C body = Inr ps" by (auto simp: is_ok_iff)
  show ?thesis
  proof (cases "derivable (predicates ps)")
    case False
    then obtain e where "(derive ps (derive_cfg acc) :: derive_error + 'u rule_set) = Inl e"
      using derive_err by blast
    with True w show ?thesis by (simp add: handle_predicate_set_update_def)
  next
    case d: True
    with assms True w have "\<not> sup_open (supervisor acc)" by (simp add: accepted_set_def)
    with True w d show ?thesis by (simp add: derive_ok handle_predicate_set_update_def apply_ruleset_def)
  qed
next
  case False
  then show ?thesis
    by (cases "from_wire_bytes C body") (auto simp: handle_predicate_set_update_def)
qed

section \<open>Invariant\<close>

text \<open>
  The relay only ever enqueues valid rule sets, and what it keeps for re-forwarding are
  accepted bodies filed under their origin.
\<close>

definition rule_set_ok :: "'u rule_set \<Rightarrow> bool" where
  "rule_set_ok rs \<longleftrightarrow> (\<forall>r\<in>set (rules rs). rule_ok r) \<and> unique_keys (rules rs) (routes rs)"

definition acceptor_wf :: "predicate_codec \<Rightarrow> 'u chain_acceptor \<Rightarrow> bool" where
  "acceptor_wf C acc \<longleftrightarrow>
     list_all rule_set_ok (apply_queue (supervisor acc))
     \<and> distinct (map fst (last_forwarded acc))
     \<and> (\<forall>(k, body)\<in>set (last_forwarded acc). \<exists>ps. accepted_set C body = Some ps \<and> origin ps = k)
     \<and> (upstream acc = None \<longrightarrow> last_forwarded acc = [])"

lemma derived_set_ok:
  assumes "derivable (predicates ps)"
  shows "rule_set_ok (derived_set cfg ps :: 'u rule_set)"
proof -
  have "(from_rules (concat (map (rules_of cfg) (predicates ps))) :: error + 'u rule_set) = Inr (derived_set cfg ps)"
    using from_rules_derived [OF assms] by (simp add: derived_set_def)
  then show ?thesis
    unfolding from_rules_def by (auto simp: from_parts_unchecked_ok rule_set_ok_def rule_validate_ok)
qed

lemma accepted_derivable: "accepted_set C body = Some ps \<Longrightarrow> derivable (predicates ps)"
  by (auto simp: accepted_set_def split: sum.splits if_splits)

lemma acceptor_wf_apply:
  assumes "acceptor_wf C acc" and "accepted_set C body = Some ps"
  shows "acceptor_wf C (apply_accepted now ps body acc)"
proof -
  have "(k, b) \<in> set (AList.update (origin ps) body (last_forwarded acc)) \<Longrightarrow>
      (k, b) = (origin ps, body) \<or> (k, b) \<in> set (last_forwarded acc)" for k b
    using assms(1) by (auto simp: acceptor_wf_def dest!: map_of_is_SomeI [rotated] simp: distinct_update update_conv
        split: if_splits dest: map_of_SomeD)
  then show ?thesis
    using assms derived_set_ok [OF accepted_derivable [OF assms(2)]]
    by (fastforce simp: acceptor_wf_def apply_accepted_def Let_def distinct_update split: option.split)
qed

lemma acceptor_wf_update:
  assumes "acceptor_wf C acc"
  shows "acceptor_wf C (fst (handle_predicate_set_update C now body acc))"
proof (cases "accepted_set C body = None \<or> \<not> sup_open (supervisor acc)")
  case True
  from handle_update_rejected [OF this, of now] assms show ?thesis by auto
next
  case False
  then obtain ps where "accepted_set C body = Some ps" "sup_open (supervisor acc)"
    by (cases "accepted_set C body") auto
  then show ?thesis by (simp add: handle_update_accepted acceptor_wf_apply [OF assms])
qed

lemma acceptor_wf_dispatch:
  assumes "acceptor_wf C acc"
  shows "acceptor_wf C (fst (dispatch L C now acc t b))"
  using assms acceptor_wf_update [OF assms]
  by (auto simp: dispatch_def acceptor_wf_def split: option.split control_body_type.split sum.split)

interpretation relay: control_dispatcher "dispatch L C now" "acceptor_wf C" for L C now
  by unfold_locales (rule acceptor_wf_dispatch)


section \<open>Runs of the dispatcher\<close>

definition dispatch_run ::
  "chain_lib \<Rightarrow> predicate_codec \<Rightarrow> 'u chain_acceptor \<Rightarrow> (64 word \<times> u8 \<times> bytes) list \<Rightarrow> 'u chain_acceptor" where
  "dispatch_run L C acc ds = foldl (\<lambda>acc (now, t, b). fst (dispatch L C now acc t b)) acc ds"

definition accepted_update :: "predicate_codec \<Rightarrow> 64 word \<times> u8 \<times> bytes \<Rightarrow> (predicate_set \<times> bytes) option" where
  "accepted_update C d =
     (case d of (now, t, b) \<Rightarrow>
        if t = as_byte PredicateSetUpdate then map_option (\<lambda>ps. (ps, b)) (accepted_set C b) else None)"

abbreviation sent :: "client_handle \<Rightarrow> (u8 \<times> bytes) list" where
  "sent up \<equiv> map (\<lambda>op. (op_body_type op, op_body op)) (tx_queue up)"

text \<open>How a relay relates to its start after accepting the updates \<open>A\<close>.\<close>

definition relayed ::
  "'u chain_acceptor \<Rightarrow> client_handle \<Rightarrow> (predicate_set \<times> bytes) list \<Rightarrow> 'u chain_acceptor \<Rightarrow> client_handle \<Rightarrow> bool" where
  "relayed acc up A acc' up' \<longleftrightarrow>
     upstream acc' = Some up' \<and> tx_open up' \<and> sup_open (supervisor acc') \<and> derive_cfg acc' = derive_cfg acc
     \<and> apply_queue (supervisor acc') = apply_queue (supervisor acc) @ map (\<lambda>(ps, b). derived_set (derive_cfg acc) ps) A
     \<and> sent up' = sent up @ map (\<lambda>(ps, b). (as_byte PredicateSetUpdate, b)) A
     \<and> map_of (last_forwarded acc') = map_of (last_forwarded acc) ++ map_of (rev (map (\<lambda>(ps, b). (origin ps, b)) A))"

lemma send_control_open [simp]:
  "tx_open up \<Longrightarrow> tx_open (fst (send_control t b up))"
  "tx_open up \<Longrightarrow> sent (fst (send_control t b up)) = sent up @ [(t, b)]"
  by (simp_all add: send_control_def)

lemma relayed_apply:
  assumes "relayed acc up A acc' up'"
  shows "relayed acc up (A @ [(ps, b)]) (apply_accepted now ps b acc')
    (fst (send_control (as_byte PredicateSetUpdate) b up'))"
  using assms by (simp add: relayed_def apply_accepted_def Let_def update_conv')

lemma relayed_tasks [simp]: "relayed acc up A (acc'\<lparr>acc_tasks := ts\<rparr>) up' = relayed acc up A acc' up'"
  by (simp add: relayed_def)

lemma dispatch_update:
  "dispatch L C now acc (as_byte PredicateSetUpdate) b = handle_predicate_set_update C now b acc"
  unfolding dispatch_def from_byte_as_byte by simp

lemma dispatch_accepted:
  assumes "sup_open (supervisor acc)" and "accepted_update C (now, t, b) = Some (ps, b')"
  shows "b' = b \<and> fst (dispatch L C now acc t b) = apply_accepted now ps b acc"
  using assms handle_update_accepted [of C b ps acc now] dispatch_update [of L C now acc b]
  by (auto simp: accepted_update_def simp del: as_byte.simps split: if_splits)

lemma dispatch_unaccepted:
  assumes "accepted_update C (now, t, b) = None"
  shows "\<exists>ts. fst (dispatch L C now acc t b) = acc\<lparr>acc_tasks := ts\<rparr>"
proof (cases "t = as_byte PredicateSetUpdate")
  case True
  with assms have "accepted_set C b = None" by (simp add: accepted_update_def)
  with handle_update_rejected [of C b acc now] obtain code
    where "handle_predicate_set_update C now b acc = (acc, Reject code)" by blast
  then show ?thesis unfolding True dispatch_update by (auto intro: exI [of _ "acc_tasks acc"])
next
  case False
  have "\<exists>ts. acc = acc\<lparr>acc_tasks := ts\<rparr>" by (rule exI [of _ "acc_tasks acc"]) simp
  with False show ?thesis
    by (auto simp: dispatch_def split: option.split control_body_type.split sum.split)
qed

lemma relayed_run:
  assumes "sup_open (supervisor acc)" and "upstream acc = Some up" and "tx_open up"
  shows "\<exists>up'. relayed acc up (List.map_filter (accepted_update C) ds) (dispatch_run L C acc ds) up'"
proof (induction ds rule: rev_induct)
  case Nil
  show ?case using assms by (auto simp: relayed_def dispatch_run_def map_filter_simps)
next
  case (snoc d ds)
  obtain now t b where d: "d = (now, t, b)" by (cases d)
  let ?acc = "dispatch_run L C acc ds"
  from snoc.IH obtain up' where r: "relayed acc up (List.map_filter (accepted_update C) ds) ?acc up'" by blast
  have step: "dispatch_run L C acc (ds @ [d]) = fst (dispatch L C now ?acc t b)"
    by (simp add: dispatch_run_def d)
  show ?case
  proof (cases "accepted_update C (now, t, b)")
    case None
    from dispatch_unaccepted [OF None, of L ?acc] r show ?thesis
      unfolding step by (auto simp: map_filter_def None d)
  next
    case (Some x)
    obtain ps b' where x: "x = (ps, b')" by (cases x)
    from r have "sup_open (supervisor ?acc)" by (simp add: relayed_def)
    from dispatch_accepted [OF this Some [unfolded x], of L] relayed_apply [OF r, of ps b now]
    show ?thesis unfolding step by (auto simp: map_filter_def Some d x)
  qed
qed

lemma sent_resend: "tx_open up \<Longrightarrow> sent (resend_bodies bs up) = sent up @ map (\<lambda>(k, b). (as_byte PredicateSetUpdate, b)) bs"
proof (induction bs arbitrary: up)
  case (Cons kb bs)
  obtain k b where "kb = (k, b)" by (cases kb)
  with Cons.IH [of "fst (send_control (as_byte PredicateSetUpdate) b up)"] Cons.prems show ?case by simp
qed simp

section \<open>A walk along the chain\<close>

text \<open>
  A node of a chain: its acceptor, its uptime and the round-trip time it measures to its
  upstream. In a walk every query and reply is delivered: the query a node forwards is
  answered by the next node.
\<close>

type_synonym 'u node = "'u chain_acceptor \<times> u64 \<times> nat"

definition forwarded_query :: "'u chain_acceptor \<Rightarrow> chain_hop_query \<Rightarrow> chain_hop_query" where
  "forwarded_query acc q =
     \<lparr>hq_query_id = (case upstream acc of Some up \<Rightarrow> next_id (router up) | None \<Rightarrow> 0),
      hq_depth_budget = saturating_sub (hq_depth_budget q) 1,
      hq_deadline_ms = saturating_sub (hq_deadline_ms q) FORWARDING_OVERHEAD_MS\<rparr>"

fun walk :: "chain_lib \<Rightarrow> 'u node list \<Rightarrow> chain_hop_query \<Rightarrow> chain_hop_reply option" where
  "walk L [] q = None"
| "walk L ((acc, uptime, rtt) # rest) q =
     snd (assemble_hop_reply L
       \<lparr>he_uptime_secs = uptime, he_rtt = rtt,
        he_query = \<lparr>qe_meanwhile = id, qe_ack = AckGot (Inr ()),
          qe_reply = (case walk L rest (forwarded_query acc q) of
                        None \<Rightarrow> ReplyElapsed | Some r \<Rightarrow> ReplyGot r)\<rparr>\<rparr> q acc)"

text \<open>What the walk should return: one entry per node within the budget, numbered 0, 1, 3, 5, ...\<close>

definition spec_hop :: "'u node list \<Rightarrow> nat \<Rightarrow> chain_hop" where
  "spec_hop nodes i =
     (case nodes ! i of (acc, uptime, _) \<Rightarrow>
        (local_chain_hop uptime acc (the (introspection acc)))\<lparr>
           hop_index := (if i = 0 then 0 else of_nat (2 * i - 1)),
           query_rtt_ms := (if i = 0 then None else Some (rtt_ms (snd (snd (nodes ! (i - 1))))))\<rparr>)"

definition walked :: "chain_hop_query \<Rightarrow> nat" where
  "walked q = max 1 (unat (hq_depth_budget q))"

definition spec_reply :: "'u node list \<Rightarrow> chain_hop_query \<Rightarrow> chain_hop_reply" where
  "spec_reply nodes q =
     \<lparr>hr_query_id = hq_query_id q, hr_hops = map (spec_hop nodes) [0..<min (length nodes) (walked q)],
      hr_partial = (walked q < length nodes),
      hr_error = (if walked q < length nodes then Some ''depth budget exhausted'' else None)\<rparr>"

definition fits :: "chain_lib \<Rightarrow> chain_hop_reply \<Rightarrow> bool" where
  "fits L r = (case enc_hop_reply L r of
     Inr b \<Rightarrow> length b \<le> CHAIN_HOP_REPLY_MAX_WIRE_BYTES | Inl _ \<Rightarrow> False)"

text \<open>
  A healthy chain for a query: every node has introspection, every node but the head of the
  chain an upstream client, the replies fit the cap, and no deadline runs out within the budget.
\<close>

fun walk_ok :: "chain_lib \<Rightarrow> 'u node list \<Rightarrow> chain_hop_query \<Rightarrow> bool" where
  "walk_ok L [] q = False"
| "walk_ok L [(acc, uptime, rtt)] q =
     (introspection acc \<noteq> None \<and> upstream acc = None \<and> fits L (spec_reply [(acc, uptime, rtt)] q))"
| "walk_ok L ((acc, uptime, rtt) # n # rest) q =
     (introspection acc \<noteq> None \<and> fits L (spec_reply ((acc, uptime, rtt) # n # rest) q) \<and>
      (case upstream acc of None \<Rightarrow> False | Some up \<Rightarrow> tx_open up) \<and>
      (hq_depth_budget q \<le> 1 \<or>
         FORWARDING_OVERHEAD_MS < hq_deadline_ms q \<and> is_ok (enc_hop_query L (forwarded_query acc q)) \<and>
         walk_ok L (n # rest) (forwarded_query acc q)))"

lemma upt_Suc_shift: "[0..<Suc n] = 0 # map Suc [0..<n]"
  by (simp add: map_Suc_upt upt_conv_Cons del: upt_Suc)

lemma u32_try_from_unat [simp]: "u32_try_from (unat (w :: u32)) = w"
  using unat_bound [of w] by (simp add: u32_try_from_def)

lemma query_answered:
  assumes "tx_open up" and "is_ok (enc_hop_query L \<lparr>hq_query_id = next_id (router up), hq_depth_budget = d,
    hq_deadline_ms = u32_try_from t\<rparr>)"
  shows "snd (query_upstream L \<lparr>qe_meanwhile = id, qe_ack = AckGot (Inr ()), qe_reply = ReplyGot r\<rparr> d t up) = Inr r"
  using assms
  by (auto simp: query_upstream_def register_def Let_def send_control_def await_query_def is_ok_iff)

lemma extend_hops_eq:
  "extend_hops rtt offset hops hs = hops @
     map (\<lambda>j. (hs ! j)\<lparr>hop_index := of_nat (length hops + offset + 2 * j),
                 query_rtt_ms := (if offset + j = 0 then Some rtt else query_rtt_ms (hs ! j))\<rparr>) [0..<length hs]"
proof (induction rtt offset hops hs rule: extend_hops.induct)
  case (2 rtt offset hops hop rest)
  then show ?case by (simp add: upt_Suc_shift comp_def algebra_simps del: upt_Suc)
qed simp

lemma spec_hop_Suc:
  assumes "j < length rest"
  shows "spec_hop ((acc, uptime, rtt) # rest) (Suc j) =
    (spec_hop rest j)\<lparr>hop_index := of_nat (1 + 2 * j),
       query_rtt_ms := (if j = 0 then Some (rtt_ms rtt) else query_rtt_ms (spec_hop rest j))\<rparr>"
  using assms by (cases j) (auto simp: spec_hop_def split: prod.split)

lemma walked_forwarded:
  assumes "1 < hq_depth_budget q"
  shows "walked (forwarded_query acc q) + 1 = walked q" and "saturating_sub (hq_depth_budget q) 1 > 0"
proof -
  have u: "unat (hq_depth_budget q) > 1" using assms by (simp add: word_less_nat_alt)
  have "unat (saturating_sub (hq_depth_budget q) 1) = unat (hq_depth_budget q) - 1"
    using assms by (simp add: saturating_sub_def unat_sub word_le_nat_alt not_le)
  with u show "walked (forwarded_query acc q) + 1 = walked q" "saturating_sub (hq_depth_budget q) 1 > 0"
    by (simp_all add: walked_def forwarded_query_def word_less_nat_alt)
qed

lemma fit_fits: "fits L r \<Longrightarrow> fit_hop_reply L r = Some r"
  by (auto simp: fits_def fit_hop_reply_def split: sum.splits)

lemma spec_hop_0: "spec_hop ((acc, uptime, rtt) # rest) 0 = local_chain_hop uptime acc (the (introspection acc))"
  by (simp add: spec_hop_def local_chain_hop_def)

lemma spec_reply_exhausted:
  assumes "hq_depth_budget q \<le> 1"
  shows "spec_reply ((acc, uptime, rtt) # n # rest) q =
    \<lparr>hr_query_id = hq_query_id q, hr_hops = [local_chain_hop uptime acc (the (introspection acc))],
     hr_partial = True, hr_error = Some ''depth budget exhausted''\<rparr>"
proof -
  have "unat (hq_depth_budget q) \<le> 1" using assms by (simp add: word_le_nat_alt)
  then have w: "walked q = 1" by (simp add: walked_def)
  show ?thesis by (simp add: spec_reply_def w spec_hop_0)
qed

lemma spec_reply_extended:
  assumes "1 < hq_depth_budget q"
  shows "spec_reply ((acc, uptime, rtt) # rest) q =
    \<lparr>hr_query_id = hq_query_id q,
     hr_hops = extend_hops (rtt_ms rtt) 0 [local_chain_hop uptime acc (the (introspection acc))]
       (hr_hops (spec_reply rest (forwarded_query acc q))),
     hr_partial = hr_partial (spec_reply rest (forwarded_query acc q)),
     hr_error = hr_error (spec_reply rest (forwarded_query acc q))\<rparr>"
proof -
  let ?n = "min (length rest) (walked (forwarded_query acc q))"
  have w: "walked q = Suc (walked (forwarded_query acc q))" using walked_forwarded(1) [OF assms, of acc] by simp
  have "[0..<min (Suc (length rest)) (walked q)] = 0 # map Suc [0..<?n]"
    by (simp add: w upt_Suc_shift del: upt_Suc)
  then show ?thesis
    by (simp add: spec_reply_def extend_hops_eq spec_hop_0 spec_hop_Suc w comp_def)
qed

lemma walk_exact: "walk_ok L nodes q \<Longrightarrow> walk L nodes q = Some (spec_reply nodes q)"
proof (induction L nodes q rule: walk_ok.induct)
  case (2 L acc uptime rtt q)
  then show ?case
    by (auto simp: assemble_hop_reply_def Let_def spec_reply_def walked_def spec_hop_0 fit_fits)
next
  case (3 L acc uptime rtt n rest q)
  from 3(2) obtain ix up where ix: "introspection acc = Some ix" and up: "upstream acc = Some up" "tx_open up"
    and fit: "fits L (spec_reply ((acc, uptime, rtt) # n # rest) q)"
    by (auto split: option.splits)
  show ?case
  proof (cases "hq_depth_budget q \<le> 1")
    case True
    then have "saturating_sub (hq_depth_budget q) 1 = 0" by (simp add: saturating_sub_def)
    with ix up fit_fits [OF fit] spec_reply_exhausted [OF True, of acc uptime rtt n rest] show ?thesis
      by (simp add: assemble_hop_reply_def forward_hop_query_def Let_def)
  next
    case False
    then have b: "1 < hq_depth_budget q" by simp
    from 3(2) False up have d: "FORWARDING_OVERHEAD_MS < hq_deadline_ms q"
      and e: "is_ok (enc_hop_query L (forwarded_query acc q))" and w: "walk_ok L (n # rest) (forwarded_query acc q)"
      by auto
    have ans: "walk L (n # rest) (forwarded_query acc q) = Some (spec_reply (n # rest) (forwarded_query acc q))"
      using 3(1) False up w d e by simp
    have dl: "saturating_sub (hq_deadline_ms q) FORWARDING_OVERHEAD_MS > 0"
      using d by (simp add: saturating_sub_def word_less_nat_alt unat_sub word_le_nat_alt not_le)
    obtain up' where q: "query_upstream L \<lparr>qe_meanwhile = id, qe_ack = AckGot (Inr ()),
        qe_reply = ReplyGot (spec_reply (n # rest) (forwarded_query acc q))\<rparr>
        (saturating_sub (hq_depth_budget q) 1)
        (unat (saturating_sub (hq_deadline_ms q) FORWARDING_OVERHEAD_MS)) up
        = (up', Inr (spec_reply (n # rest) (forwarded_query acc q)))"
      using query_answered [OF up(2)] e up(1) by (metis (no_types, lifting) forwarded_query_def
          option.simps(5) surjective_pairing u32_try_from_unat)
    show ?thesis
      unfolding walk.simps(2) ans using ix up(1) fit_fits [OF fit] walked_forwarded(2) [OF b] dl q
      by (simp add: assemble_hop_reply_def forward_hop_query_def Let_def
          spec_reply_extended [OF b, of acc uptime rtt "n # rest"])
  qed
qed simp

section \<open>Properties\<close>

text \<open>
  C9: a relay with a running supervisor and upstream client, over any sequence of inbound
  bodies of any type: the supervisor receives exactly the rule sets derived from the accepted
  predicate sets, in order; the upstream receives exactly the accepted bodies, verbatim and in
  order; the bodies kept for re-forwarding are, per origin, the last accepted one; and a resync
  after a new upstream session re-sends exactly those.
\<close>

theorem relay_applies_and_forwards:
  assumes "sup_open (supervisor acc)" and "upstream acc = Some up" and "tx_open up"
    and "A = List.map_filter (accepted_update C) ds" and "acc' = dispatch_run L C acc ds"
  shows "\<exists>up' up''. upstream acc' = Some up' \<and> upstream (upstream_resync acc') = Some up''
    \<and> apply_queue (supervisor acc') = apply_queue (supervisor acc) @ map (\<lambda>(ps, b). derived_set (derive_cfg acc) ps) A
    \<and> sent up' = sent up @ map (\<lambda>(ps, b). (as_byte PredicateSetUpdate, b)) A
    \<and> map_of (last_forwarded acc') = map_of (last_forwarded acc) ++ map_of (rev (map (\<lambda>(ps, b). (origin ps, b)) A))
    \<and> sent up'' = sent up' @ map (\<lambda>(k, b). (as_byte PredicateSetUpdate, b)) (last_forwarded acc')"
proof -
  from relayed_run [OF assms(1-3), of C ds L] obtain up' where r: "relayed acc up A acc' up'"
    by (auto simp: assms(4,5))
  then have "sent (resend_bodies (last_forwarded acc') up')
      = sent up' @ map (\<lambda>(k, b). (as_byte PredicateSetUpdate, b)) (last_forwarded acc')"
    by (simp add: sent_resend relayed_def)
  with r show ?thesis by (auto simp: relayed_def upstream_resync_def)
qed


text \<open>A relay over plain codecs, for concrete runs.\<close>

definition plain_pred :: predicate where
  "plain_pred = \<lparr>pred_name = ''a'', listen_port = 80, pred_protocol = Tcp, idle_timeout_ms = None, https_http3 = False\<rparr>"

definition plain_codec :: predicate_codec where
  "plain_codec =
     \<lparr>enc_set = (\<lambda>_. Inr [7]),
      dec_set = (\<lambda>b. if b = [7] then Inr \<lparr>predicates = [plain_pred], origin = X25519 []\<rparr> else Inl []),
      dec_legacy = (\<lambda>_. Inl [])\<rparr>"

definition plain_relay :: "client_handle option \<Rightarrow> unit chain_acceptor" where
  "plain_relay up =
     (acceptor_new \<lparr>sup_open = True, apply_queue = [], current_set = \<lparr>rules = [], routes = []\<rparr>\<rparr>
        \<lparr>bind_addr = V4 0, cfg_proxy_protocol = None\<rparr>)
     \<lparr>upstream := up, introspection := Some (introspection_new (X25519 []) None None)\<rparr>"

lemma plain_relay_simps:
  "introspection (plain_relay up) = Some (introspection_new (X25519 []) None None)"
  "upstream (plain_relay up) = up"
  by (simp_all add: plain_relay_def acceptor_new_def)

lemma plain_accepted:
  "accepted_set plain_codec [7] = Some \<lparr>predicates = [plain_pred], origin = X25519 []\<rparr>"
  "accepted_set plain_codec [] = None"
  by (simp_all add: accepted_set_def plain_codec_def from_wire_bytes_def predicate_set_validate_def
      predicate_validate_def plain_pred_def derivable_def name_ok_def names_of_def claims_of_def claim_l4_def
      PREDICATE_SET_MAX_WIRE_BYTES_def is_whitespace_def is_control_def utf8_chars_ascii)

theorem relay_applies_and_forwards_witness:
  "\<exists>up'. upstream (dispatch_run plain_chain_lib plain_codec (plain_relay (Some fresh_handle))
      [(1, 2, [7]), (2, 2, []), (3, 1, [7])]) = Some up' \<and> sent up' = [(2, [7])]"
proof -
  have r: "sup_open (supervisor (plain_relay (Some fresh_handle)))"
    "upstream (plain_relay (Some fresh_handle)) = Some fresh_handle" "tx_open fresh_handle"
    by (simp_all add: plain_relay_def acceptor_new_def fresh_handle_def)
  have a: "[(\<lparr>predicates = [plain_pred], origin = X25519 []\<rparr>, [7])]
      = List.map_filter (accepted_update plain_codec) [(1, 2, [7]), (2, 2, []), (3, 1, [7])]"
    by (simp add: map_filter_simps accepted_update_def plain_accepted)
  from relay_applies_and_forwards [OF r a refl, of plain_chain_lib] obtain up' where
    u: "upstream (dispatch_run plain_chain_lib plain_codec (plain_relay (Some fresh_handle))
      [(1, 2, [7]), (2, 2, []), (3, 1, [7])]) = Some up'"
    and s: "sent up' = sent fresh_handle @ map (\<lambda>(ps, b). (as_byte PredicateSetUpdate, b))
      [(\<lparr>predicates = [plain_pred], origin = X25519 []\<rparr>, [7])]" by blast
  have "sent up' = [(2, [7])]" unfolding s by (simp add: fresh_handle_def)
  with u show ?thesis by (intro exI conjI)
qed

text \<open>
  C30: a summary query that is delivered along a healthy chain returns one entry per node, in
  chain order, for as many nodes as the depth budget allows (a budget of 0 counts as 1), each
  with its own view and the round-trip time its parent measured, and is flagged partial exactly
  when nodes are left out. The \<open>hop_index\<close> of the entries is 0, 1, 3, 5, ... and not their
  position: the loop adds the offset to the length of the list it is extending.
\<close>

theorem chain_walk_exact:
  assumes "walk_ok L nodes q"
  shows "walk L nodes q = Some (spec_reply nodes q)"
  by (rule walk_exact [OF assms])

theorem chain_walk_exact_witness:
  "map_option (\<lambda>r. map (unat \<circ> hop_index) (hr_hops r)) (walk plain_chain_lib
     [(plain_relay (Some fresh_handle), 1, 5), (plain_relay (Some fresh_handle), 2, 6), (plain_relay None, 3, 7)]
     \<lparr>hq_query_id = 9, hq_depth_budget = 16, hq_deadline_ms = 5000\<rparr>) = Some [0, 1, 3]"
proof -
  let ?q = "\<lparr>hq_query_id = 9, hq_depth_budget = 16, hq_deadline_ms = 5000\<rparr>"
  have f: "fits plain_chain_lib r" for r
    by (simp add: fits_def plain_chain_lib_def CHAIN_HOP_REPLY_MAX_WIRE_BYTES_def)
  have e: "enc_hop_query plain_chain_lib q = Inr [0]" for q by (simp add: plain_chain_lib_def)
  have "walk_ok plain_chain_lib
     [(plain_relay (Some fresh_handle), 1, 5), (plain_relay (Some fresh_handle), 2, 6), (plain_relay None, 3, 7)] ?q"
    by (simp add: f e plain_relay_simps fresh_handle_def forwarded_query_def saturating_sub_def
        FORWARDING_OVERHEAD_MS_def word_le_nat_alt word_less_nat_alt)
  note w = chain_walk_exact [OF this]
  have "walked ?q = 16" by (simp add: walked_def)
  moreover have "[0..<3] = [0, 1, 2]" by (simp add: upt_rec)
  ultimately show ?thesis unfolding w by (simp add: spec_reply_def spec_hop_def)
qed


lemma refresh_mem: "e \<in> set (refresh tok x es) \<Longrightarrow> e \<in> set es \<or> token e = tok \<and> expires_at e = x"
  by (induction es) (auto split: if_splits)

lemma match_token_entries: "match_token now t k tok \<longleftrightarrow> (\<exists>e\<in>set (entries t k). live now e \<and> token e = tok)"
  by (auto simp: match_token_def entries_def list_ex_iff split: option.split)

lemma match_token_arm:
  assumes "match_token now (arm t0 t1 k tok ttl t) k' tok'" and "t0 + ttl \<le> now"
  shows "match_token now t k' tok'"
proof -
  have e: "entries (arm t0 t1 k tok ttl t) = (entries t)(k := refresh tok (t0 + ttl) (filter (live t1) (entries t k)))"
    by (simp add: arm_def Let_def entries_def)
  from assms show ?thesis
    unfolding match_token_entries e by (auto simp: live_def split: if_splits dest!: refresh_mem)
qed

lemma arm_table_send [simp]:
  "arm_table (push_outbound t b acc) = arm_table acc"
  "arm_table (send_canary_reply L r acc) = arm_table acc"
  by (simp_all add: push_outbound_def send_canary_reply_def split: option.split sum.split)

lemma arm_table_handle:
  "arm_table (handle_canary_arm L E frame acc) =
     (if introspection acc = None then arm_table acc else arm_table (fst (install_arm E frame acc)))"
  by (auto simp: handle_canary_arm_def Let_def split: option.split prod.split)

text \<open>
  what a remote canary frame can do to a node's listeners is bounded. Unless the node is
  in terminal mode and has a rule with exactly the frame's listener and protocol, the arm
  table does not change at all; and 60 seconds after the frame is handled, whatever expiry
  it asked for, it has enabled no token that did not match before.
\<close>

theorem remote_arm_bounded:
  assumes "arm_table acc = Some t" and "arm_table (handle_canary_arm L E frame acc) = Some t'"
  shows "(acc_mode acc = Some Terminal \<and> has_matching_rule (rule_listen frame) (rule_protocol frame) acc \<or> t' = t)
    \<and> (ce_arm_t0 E + 60000 \<le> now \<longrightarrow> match_token now t' k tok \<longrightarrow> match_token now t k tok)"
proof -
  let ?ttl = "min (saturating_sub (expires_unix_ms frame) (ce_now_ms E)) SERVER_MAX_ARM_TTL_MS"
  have ttl: "unat ?ttl \<le> 60000"
    by (simp add: SERVER_MAX_ARM_TTL_MS_def min_def word_le_nat_alt)
  have "t' = t \<or> acc_mode acc = Some Terminal \<and> has_matching_rule (rule_listen frame) (rule_protocol frame) acc
      \<and> t' = arm (ce_arm_t0 E) (ce_arm_now E) (rule_listen frame, rule_protocol frame) (ca_token frame) (unat ?ttl) t"
    using assms by (auto simp: arm_table_handle install_arm_def Let_def split: if_splits)
  then show ?thesis
  proof (elim disjE conjE)
    assume t': "t' = arm (ce_arm_t0 E) (ce_arm_now E) (rule_listen frame, rule_protocol frame) (ca_token frame) (unat ?ttl) t"
      and m: "acc_mode acc = Some Terminal" "has_matching_rule (rule_listen frame) (rule_protocol frame) acc"
    have "match_token now t k tok" if "ce_arm_t0 E + 60000 \<le> now" "match_token now t' k tok"
      using match_token_arm [OF that(2) [unfolded t']] that(1) ttl by linarith
    with m show ?thesis by simp
  qed simp
qed

definition terminal_relay :: "unit chain_acceptor" where
  "terminal_relay = (plain_relay None)\<lparr>acc_mode := Some Terminal, arm_table := Some [],
     supervisor := \<lparr>sup_open = True, apply_queue = [], current_set = \<lparr>rules = [plain_rule ''a'' 80 81], routes = []\<rparr>\<rparr>\<rparr>"

definition plain_frame :: canary_arm where
  "plain_frame = \<lparr>ca_query_id = 1, ca_depth_budget = 1, ca_deadline_ms = 1000, rule_listen = listen (plain_rule ''a'' 80 81),
     rule_protocol = protocol (plain_rule ''a'' 80 81), ca_token = [1], expires_unix_ms = 900000\<rparr>"

definition plain_canary_env :: canary_env where
  "plain_canary_env = \<lparr>ce_now_ms = 0, ce_arm_t0 = 0, ce_arm_now = 0, ce_rtt = 0,
     ce_query = \<lparr>qe_meanwhile = id, qe_ack = AckElapsed, qe_reply = ReplyElapsed\<rparr>\<rparr>"

theorem remote_arm_bounded_witness:
  "map_option (\<lambda>t. (match_token 59999 t (rule_listen plain_frame, rule_protocol plain_frame) [1],
                    match_token 60000 t (rule_listen plain_frame, rule_protocol plain_frame) [1]))
     (arm_table (handle_canary_arm plain_chain_lib plain_canary_env plain_frame terminal_relay)) = Some (True, False)"
proof -
  let ?k = "(rule_listen plain_frame, rule_protocol plain_frame)"
  have a: "arm_table (handle_canary_arm plain_chain_lib plain_canary_env plain_frame terminal_relay)
      = Some [(?k, [\<lparr>token = [1], expires_at = 60000\<rparr>])]"
    by (simp add: arm_table_handle terminal_relay_def plain_relay_simps install_arm_def has_matching_rule_def
        plain_frame_def plain_canary_env_def saturating_sub_def SERVER_MAX_ARM_TTL_MS_def min_def word_le_nat_alt
        word_less_nat_alt arm_def live_def Let_def)
  have "arm_table terminal_relay = Some []" by (simp add: terminal_relay_def)
  from remote_arm_bounded [OF this a, of 60000 ?k "[1]"] have "\<not> match_token 60000 [(?k, [\<lparr>token = [1], expires_at = 60000\<rparr>])] ?k [1]"
    by (simp add: plain_canary_env_def match_token_def)
  then show ?thesis by (simp add: a match_token_def live_def)
qed

end
