(* ===== verification/Publisher.thy ===== *)
theory Publisher
  imports Acceptor
begin

text \<open>
  The terminal's predicate publisher (crate \<open>yggdrasil\<close>, file \<open>chain/predicate_publisher.rs\<close>): on
  every applied rule set, and on every new session, it projects the rule set to predicates and pushes
  them to the relay unless the encoded set is the one acknowledged last. The arms of its select are
  the events of the model; the result of waiting for an acknowledgement is an input. Blake2s-256
  is a parameter. The queue of the client handle is read as the log of what was sent.
\<close>

section \<open>One push\<close>

record publisher_cfg =
  pc_codec :: predicate_codec
  pc_blake2s_256 :: "bytes \<Rightarrow> bytes"
  pc_origin :: pub_key
  pc_meta :: https_predicate_meta

datatype push_wait = PushCancelled | PushElapsed | PushDropped | PushAck "send_error + unit"

record push_env =
  pe_now :: "64 word"
  pe_wait :: push_wait

record publisher =
  last_sent_body_hash :: "bytes option"
  pub_handle :: client_handle
  pub_introspection :: "introspection_state option"

definition predicate_body_hash :: "publisher_cfg \<Rightarrow> bytes \<Rightarrow> bytes" where
  "predicate_body_hash c body = pc_blake2s_256 c body"

text \<open>The outer option is the panic of the extractor, the inner one the hash of an accepted push.\<close>

definition publish_one ::
  "publisher_cfg \<Rightarrow> push_env \<Rightarrow> 'u rule_set \<Rightarrow> bytes option \<Rightarrow> client_handle \<Rightarrow> introspection_state option
     \<Rightarrow> (client_handle \<times> introspection_state option \<times> bytes option) option" where
  "publish_one c e s last_sent h ix =
     (case extract_predicates s (pc_meta c) (pc_origin c) of
        None \<Rightarrow> None
      | Some ps \<Rightarrow>
          Some (case enc_set (pc_codec c) ps of
             Inl _ \<Rightarrow> (h, ix, None)
           | Inr body \<Rightarrow>
               if PREDICATE_SET_MAX_WIRE_BYTES < length body then (h, ix, None)
               else
                 let body_hash = predicate_body_hash c body in
                 if last_sent = Some body_hash then (h, ix, None)
                 else
                   (case send_control (as_byte PredicateSetUpdate) body h of
                      (h, Inl _) \<Rightarrow> (h, ix, None)
                    | (h, Inr _) \<Rightarrow>
                        (case pe_wait e of
                           PushAck (Inr _) \<Rightarrow> (h, map_option (record_apply (pe_now e) ps) ix, Some body_hash)
                         | _ \<Rightarrow> (h, ix, None)))))"

definition publish_and_remember ::
  "publisher_cfg \<Rightarrow> push_env \<Rightarrow> 'u rule_set \<Rightarrow> publisher \<Rightarrow> publisher option" where
  "publish_and_remember c e s p =
     map_option (\<lambda>(h, ix, applied).
       p\<lparr>pub_handle := h, pub_introspection := ix,
         last_sent_body_hash := (case applied of Some body_hash \<Rightarrow> Some body_hash | None \<Rightarrow> last_sent_body_hash p)\<rparr>)
     (publish_one c e s (last_sent_body_hash p) (pub_handle p) (pub_introspection p))"

section \<open>The task\<close>

text \<open>
  The arms of the select in \<open>run\<close>. An epoch bump and a rule change carry the rule set the watch
  channel holds when it is read.
\<close>

datatype 'u pub_event =
    PubCancel
  | EpochClosed
  | EpochBump "'u rule_set" push_env
  | RulesClosed
  | RulesChanged "'u rule_set" push_env

record publisher_task =
  pt_state :: publisher
  epoch_source_alive :: bool
  pt_running :: bool

definition publisher_start :: "client_handle \<Rightarrow> introspection_state option \<Rightarrow> publisher_task" where
  "publisher_start h ix =
     \<lparr>pt_state = \<lparr>last_sent_body_hash = None, pub_handle = h, pub_introspection = ix\<rparr>,
      epoch_source_alive = True, pt_running = True\<rparr>"

fun publisher_arm :: "publisher_cfg \<Rightarrow> publisher_task \<Rightarrow> 'u pub_event \<Rightarrow> publisher_task option" where
  "publisher_arm c t PubCancel = Some (t\<lparr>pt_running := False\<rparr>)"
| "publisher_arm c t EpochClosed = Some (t\<lparr>epoch_source_alive := False\<rparr>)"
| "publisher_arm c t (EpochBump s e) =
     (if \<not> epoch_source_alive t \<or> last_sent_body_hash (pt_state t) = None then Some t
      else map_option (\<lambda>p. t\<lparr>pt_state := p\<rparr>)
             (publish_and_remember c e s ((pt_state t)\<lparr>last_sent_body_hash := None\<rparr>)))"
| "publisher_arm c t RulesClosed = Some (t\<lparr>pt_running := False\<rparr>)"
| "publisher_arm c t (RulesChanged s e) =
     map_option (\<lambda>p. t\<lparr>pt_state := p\<rparr>) (publish_and_remember c e s (pt_state t))"

fun publisher_run :: "publisher_cfg \<Rightarrow> 'u pub_event list \<Rightarrow> publisher_task \<Rightarrow> publisher_task option" where
  "publisher_run c [] t = Some t"
| "publisher_run c (ev # evs) t =
     (if pt_running t then Option.bind (publisher_arm c t ev) (publisher_run c evs) else Some t)"

section \<open>What reaches the relay\<close>

text \<open>The predicate sets sent so far, and the body of a rule set.\<close>

definition predicate_bodies :: "client_handle \<Rightarrow> bytes list" where
  "predicate_bodies h = map op_body (filter (\<lambda>op. op_body_type op = as_byte PredicateSetUpdate) (tx_queue h))"

definition pushed :: "publisher_task \<Rightarrow> bytes list" where
  "pushed t = predicate_bodies (pub_handle (pt_state t))"

definition body_of :: "publisher_cfg \<Rightarrow> 'u rule_set \<Rightarrow> bytes option" where
  "body_of c s =
     (case extract_predicates s (pc_meta c) (pc_origin c) of
        None \<Rightarrow> None
      | Some ps \<Rightarrow>
          (case enc_set (pc_codec c) ps of
             Inl _ \<Rightarrow> None | Inr b \<Rightarrow> if length b \<le> PREDICATE_SET_MAX_WIRE_BYTES then Some b else None))"

lemma publish_and_remember_body:
  assumes "body_of c s = Some b" "tx_open (pub_handle p)"
  shows "publish_and_remember c e s p =
    (if last_sent_body_hash p = Some (predicate_body_hash c b) then Some p
     else
       let h = fst (send_control (as_byte PredicateSetUpdate) b (pub_handle p)) in
       Some (case pe_wait e of
         PushAck (Inr _) \<Rightarrow> p\<lparr>pub_handle := h,
           pub_introspection := map_option (record_apply (pe_now e) (the (extract_predicates s (pc_meta c) (pc_origin c))))
             (pub_introspection p),
           last_sent_body_hash := Some (predicate_body_hash c b)\<rparr>
       | _ \<Rightarrow> p\<lparr>pub_handle := h\<rparr>))"
  using assms
  by (auto simp: publish_and_remember_def publish_one_def body_of_def send_control_def Let_def not_less
      split: option.splits sum.splits if_splits push_wait.splits)

lemma sent_bodies [simp]:
  "tx_open h \<Longrightarrow> tx_open (fst (send_control k b h))"
  "tx_open h \<Longrightarrow> predicate_bodies (fst (send_control 2 b h)) = predicate_bodies h @ [b]"
  by (simp_all add: send_control_def predicate_bodies_def)

definition hash_known :: "publisher_cfg \<Rightarrow> bytes set \<Rightarrow> publisher_task \<Rightarrow> bool" where
  "hash_known c B t \<longleftrightarrow>
     pt_running t \<and> tx_open (pub_handle (pt_state t)) \<and>
     (\<forall>x. last_sent_body_hash (pt_state t) = Some x \<longrightarrow>
        pushed t \<noteq> [] \<and> last (pushed t) \<in> B \<and> x = predicate_body_hash c (last (pushed t)))"

text \<open>An event of a run in which every push is encodable and acknowledged.\<close>

fun acked :: "publisher_cfg \<Rightarrow> bytes set \<Rightarrow> 'u pub_event \<Rightarrow> bool" where
  "acked c B (RulesChanged s e) \<longleftrightarrow> (\<exists>b\<in>B. body_of c s = Some b) \<and> pe_wait e = PushAck (Inr ())"
| "acked c B (EpochBump s e) \<longleftrightarrow> (\<exists>b\<in>B. body_of c s = Some b) \<and> pe_wait e = PushAck (Inr ())"
| "acked c B EpochClosed \<longleftrightarrow> True"
| "acked c B _ \<longleftrightarrow> False"

lemma acked_rules:
  assumes "hash_known c B t" "acked c B (RulesChanged s e)" "inj_on (pc_blake2s_256 c) B"
  shows "\<exists>t'. publisher_arm c t (RulesChanged s e) = Some t' \<and> hash_known c B t' \<and> pushed t' \<noteq> [] \<and>
    body_of c s = Some (last (pushed t')) \<and> last_sent_body_hash (pt_state t') \<noteq> None \<and>
    epoch_source_alive t' = epoch_source_alive t"
proof -
  from assms(2) obtain b where b: "b \<in> B" "body_of c s = Some b" "pe_wait e = PushAck (Inr ())" by auto
  have "tx_open (pub_handle (pt_state t))" using assms(1) by (simp add: hash_known_def)
  note pr = publish_and_remember_body [OF b(2) this, of e]
  show ?thesis
  proof (cases "last_sent_body_hash (pt_state t) = Some (predicate_body_hash c b)")
    case True
    then have "last (pushed t) = b"
      using assms(1,3) b(1) by (auto simp: hash_known_def predicate_body_hash_def dest: inj_onD)
    with True assms(1) b show ?thesis by (auto simp: pr hash_known_def)
  next
    case False
    with assms(1) b show ?thesis by (auto simp: pr hash_known_def pushed_def Let_def)
  qed
qed

lemma acked_bump:
  assumes "hash_known c B t" "acked c B (EpochBump s e)" "epoch_source_alive t" "last_sent_body_hash (pt_state t) \<noteq> None"
  shows "\<exists>t'. publisher_arm c t (EpochBump s e) = Some t' \<and> hash_known c B t' \<and>
    pushed t' = pushed t @ [the (body_of c s)] \<and> epoch_source_alive t'"
proof -
  from assms(2) obtain b where b: "b \<in> B" "body_of c s = Some b" "pe_wait e = PushAck (Inr ())" by auto
  have "tx_open (pub_handle ((pt_state t)\<lparr>last_sent_body_hash := None\<rparr>))" using assms(1) by (simp add: hash_known_def)
  note pr = publish_and_remember_body [OF b(2) this, of e]
  with assms b show ?thesis by (auto simp: hash_known_def pushed_def Let_def)
qed

lemma acked_arm:
  assumes "hash_known c B t" "acked c B ev" "inj_on (pc_blake2s_256 c) B"
  shows "\<exists>t'. publisher_arm c t ev = Some t' \<and> hash_known c B t' \<and>
    (epoch_source_alive t \<and> ev \<noteq> EpochClosed \<longrightarrow> epoch_source_alive t')"
proof (cases ev)
  case (EpochBump s e)
  show ?thesis
  proof (cases "epoch_source_alive t \<and> last_sent_body_hash (pt_state t) \<noteq> None")
    case True
    with acked_bump [OF assms(1)] assms(2) EpochBump show ?thesis by blast
  next
    case False
    with EpochBump assms(1) show ?thesis by auto
  qed
next
  case (RulesChanged s e)
  with acked_rules [OF assms(1) _ assms(3)] assms(2) show ?thesis by blast
qed (use assms in \<open>auto simp: hash_known_def pushed_def\<close>)

lemma acked_run:
  assumes "hash_known c B t" "list_all (acked c B) evs" "inj_on (pc_blake2s_256 c) B"
  shows "\<exists>t'. (\<forall>more. publisher_run c (evs @ more) t = publisher_run c more t') \<and> hash_known c B t' \<and>
    (epoch_source_alive t \<and> EpochClosed \<notin> set evs \<longrightarrow> epoch_source_alive t')"
  using assms(1,2)
proof (induction evs arbitrary: t)
  case (Cons ev evs)
  from Cons.prems acked_arm [OF Cons.prems(1) _ assms(3), of ev] obtain t1
    where t1: "publisher_arm c t ev = Some t1" "hash_known c B t1"
      "epoch_source_alive t \<and> ev \<noteq> EpochClosed \<longrightarrow> epoch_source_alive t1" by auto
  from Cons.IH [OF t1(2)] Cons.prems(2) obtain t2
    where "\<forall>more. publisher_run c (evs @ more) t1 = publisher_run c more t2" "hash_known c B t2"
      "epoch_source_alive t1 \<and> EpochClosed \<notin> set evs \<longrightarrow> epoch_source_alive t2" by auto
  with t1 Cons.prems(1) show ?case by (intro exI [of _ t2]) (auto simp: hash_known_def)
qed auto

lemma hash_known_start: "tx_open h \<Longrightarrow> hash_known c B (publisher_start h ix)"
  by (simp add: hash_known_def publisher_start_def)

text \<open>A publisher whose codec counts predicates, and two rule sets, for concrete runs.\<close>

definition count_cfg :: publisher_cfg where
  "count_cfg =
     \<lparr>pc_codec = \<lparr>enc_set = (\<lambda>ps. Inr [word_of_nat (length (predicates ps))]), dec_set = (\<lambda>_. Inl []), dec_legacy = (\<lambda>_. Inl [])\<rparr>,
      pc_blake2s_256 = (\<lambda>b. b), pc_origin = X25519 [], pc_meta = meta_default\<rparr>"

definition no_rules :: "unit rule_set" where "no_rules = \<lparr>rules = [], routes = []\<rparr>"
definition one_rule :: "unit rule_set" where "one_rule = \<lparr>rules = [plain_rule ''a'' 1 2], routes = []\<rparr>"
definition ack_ok :: push_env where "ack_ok = \<lparr>pe_now = 0, pe_wait = PushAck (Inr ())\<rparr>"
definition ack_lost :: push_env where "ack_lost = \<lparr>pe_now = 0, pe_wait = PushAck (Inl (Timeout 5))\<rparr>"

lemma count_bodies: "body_of count_cfg no_rules = Some [0]" "body_of count_cfg one_rule = Some [1]"
  by (simp_all add: body_of_def count_cfg_def no_rules_def one_rule_def extract_predicates_def plain_rule_def
      PREDICATE_SET_MAX_WIRE_BYTES_def)

lemma fresh_bodies: "tx_open fresh_handle" "predicate_bodies fresh_handle = []"
  by (simp_all add: fresh_handle_def predicate_bodies_def)

section \<open>Properties\<close>

text \<open>
  C14: With a relay that acknowledges, the publisher keeps it current. Whatever sequence of rule
  changes and new sessions it has seen, after a rule change the last predicate set sent is the encoded
  projection of the current rule set (nothing is sent when it already is), and a session that starts
  afterwards gets the whole current set again. The hash must not collide on the bodies of the run.
\<close>

theorem publisher_mirrors_rules:
  assumes "tx_open h" "list_all (acked c B) (evs @ [RulesChanged s e])" "inj_on (pc_blake2s_256 c) B"
  shows "\<exists>t. publisher_run c (evs @ [RulesChanged s e]) (publisher_start h ix) = Some t \<and>
    pushed t \<noteq> [] \<and> body_of c s = Some (last (pushed t)) \<and>
    (\<forall>s' e'. acked c B (EpochBump s' e') \<and> EpochClosed \<notin> set evs \<longrightarrow>
       (\<exists>t'. publisher_run c (evs @ [RulesChanged s e, EpochBump s' e']) (publisher_start h ix) = Some t' \<and>
          pushed t' = pushed t @ [the (body_of c s')]))"
proof -
  from assms(2) have evs: "list_all (acked c B) evs" and last: "acked c B (RulesChanged s e)" by simp_all
  from acked_run [OF hash_known_start [OF assms(1)] evs assms(3), of ix] obtain t1
    where t1: "\<forall>more. publisher_run c (evs @ more) (publisher_start h ix) = publisher_run c more t1"
      "hash_known c B t1" "EpochClosed \<notin> set evs \<longrightarrow> epoch_source_alive t1"
    by (auto simp: publisher_start_def)
  from acked_rules [OF t1(2) last assms(3)] obtain t2
    where t2: "publisher_arm c t1 (RulesChanged s e) = Some t2" "hash_known c B t2" "pushed t2 \<noteq> []"
      "body_of c s = Some (last (pushed t2))" "last_sent_body_hash (pt_state t2) \<noteq> None"
      "epoch_source_alive t2 = epoch_source_alive t1" by blast
  have run: "pt_running t1" "pt_running t2" using t1(2) t2(2) by (simp_all add: hash_known_def)
  have "\<exists>t'. publisher_run c (evs @ [RulesChanged s e, EpochBump s' e']) (publisher_start h ix) = Some t' \<and>
      pushed t' = pushed t2 @ [the (body_of c s')]"
    if "acked c B (EpochBump s' e')" "EpochClosed \<notin> set evs" for s' e'
    using acked_bump [OF t2(2) that(1) _ t2(5)] t1 t2(1,6) that(2) run by auto
  with t1(1) t2 run show ?thesis by (intro exI [of _ t2]) auto
qed

theorem publisher_mirrors_rules_witness:
  "\<exists>t. publisher_run count_cfg [RulesChanged no_rules ack_ok, EpochBump no_rules ack_ok, RulesChanged one_rule ack_ok]
       (publisher_start fresh_handle None) = Some t \<and> pushed t \<noteq> [] \<and> last (pushed t) = [1]"
proof -
  let ?evs = "[RulesChanged no_rules ack_ok, EpochBump no_rules ack_ok]"
  have a: "list_all (acked count_cfg {[0], [1]}) (?evs @ [RulesChanged one_rule ack_ok])"
    by (simp add: count_bodies ack_ok_def)
  have "inj_on (pc_blake2s_256 count_cfg) {[0], [1]}" by (simp add: count_cfg_def)
  from publisher_mirrors_rules [OF fresh_bodies(1) a this, of None] show ?thesis
    by (auto simp: count_bodies simp del: publisher_run.simps)
qed

text \<open>
  C36: A resynchronisation that fails is not repeated. When the push that follows a new session is
  not acknowledged (the session is lost again, or the acknowledgement times out), the publisher has
  forgotten that it ever pushed, and no number of further sessions makes it send the set again: a relay
  that lost its state stays without it until the rules change.
\<close>

theorem failed_resync_not_retried:
  assumes "pt_running t" "epoch_source_alive t" "last_sent_body_hash (pt_state t) \<noteq> None"
    and "tx_open (pub_handle (pt_state t))" "body_of c s = Some b" "pe_wait e \<noteq> PushAck (Inr ())"
    and "list_all (\<lambda>ev. \<exists>s' e'. ev = EpochBump s' e') evs"
  shows "\<exists>t'. publisher_run c (EpochBump s e # evs) t = Some t' \<and> pushed t' = pushed t @ [b]"
proof -
  have "tx_open (pub_handle ((pt_state t)\<lparr>last_sent_body_hash := None\<rparr>))" using assms(4) by simp
  from publish_and_remember_body [OF assms(5) this, of e] obtain t1
    where t1: "publisher_arm c t (EpochBump s e) = Some t1" "pt_running t1"
      "last_sent_body_hash (pt_state t1) = None" "pushed t1 = pushed t @ [b]"
    using assms(1-4,6)
    by (auto simp: pushed_def Let_def split: push_wait.splits sum.splits)
  have "publisher_run c evs t1 = Some t1" using assms(7) t1(2,3) by (induction evs) auto
  with t1 assms(1) show ?thesis by simp
qed

theorem failed_resync_not_retried_witness:
  "\<exists>t t'. publisher_run count_cfg [RulesChanged one_rule ack_ok] (publisher_start fresh_handle None) = Some t \<and>
     publisher_run count_cfg [EpochBump one_rule ack_lost, EpochBump one_rule ack_ok, EpochBump one_rule ack_ok] t = Some t' \<and>
     pushed t' = [[1], [1]]"
proof -
  obtain t where t: "publisher_run count_cfg [RulesChanged one_rule ack_ok] (publisher_start fresh_handle None) = Some t"
    "pt_running t" "epoch_source_alive t" "last_sent_body_hash (pt_state t) \<noteq> None" "tx_open (pub_handle (pt_state t))"
    "pushed t = [[1]]"
    by (simp add: publish_and_remember_body [OF count_bodies(2)] publisher_start_def fresh_bodies Let_def ack_ok_def pushed_def)
  with failed_resync_not_retried [OF t(2-5) count_bodies(2), of ack_lost "[EpochBump one_rule ack_ok, EpochBump one_rule ack_ok]"]
  show ?thesis by (auto simp: ack_lost_def simp del: publisher_run.simps)
qed

text \<open>
  C37: A reverted rule set is not published. A first set is acknowledged; the push of a second one is
  sent but its acknowledgement is lost; the operator goes back to the first set. The publisher takes
  it for the one the relay has and stays silent, so the last set the relay was sent is the second.
\<close>

theorem reverted_set_not_published:
  assumes "tx_open h" "body_of c s1 = Some b1" "body_of c s2 = Some b2"
    and "predicate_body_hash c b1 \<noteq> predicate_body_hash c b2"
    and "pe_wait e1 = PushAck (Inr ())" "pe_wait e2 = PushAck (Inl (Timeout n))"
  shows "\<exists>t. publisher_run c [RulesChanged s1 e1, RulesChanged s2 e2, RulesChanged s1 e3] (publisher_start h ix) = Some t \<and>
    pushed t = pushed (publisher_start h ix) @ [b1, b2]"
  using assms
  by (simp add: publish_and_remember_body [OF assms(2)] publish_and_remember_body [OF assms(3)] publisher_start_def
      pushed_def Let_def)

theorem reverted_set_not_published_witness:
  "\<exists>t. publisher_run count_cfg [RulesChanged no_rules ack_ok, RulesChanged one_rule ack_lost, RulesChanged no_rules ack_ok]
       (publisher_start fresh_handle None) = Some t \<and> pushed t = [[0], [1]]"
proof -
  have h: "predicate_body_hash count_cfg [0] \<noteq> predicate_body_hash count_cfg [1]"
    by (simp add: predicate_body_hash_def count_cfg_def)
  have "pushed (publisher_start fresh_handle None) = []" by (simp add: pushed_def publisher_start_def fresh_bodies)
  with reverted_set_not_published [OF fresh_bodies(1) count_bodies h, of ack_ok ack_lost 5 ack_ok None] show ?thesis
    by (simp add: ack_ok_def ack_lost_def del: publisher_run.simps)
qed

end
