(* ===== verification/Tcp_Proxy.thy ===== *)
theory Tcp_Proxy
  imports Resolver Canary_Table Proxy_Protocol
begin

text \<open>
  The per-rule TCP proxy (crate \<open>yggdrasil\<close>, file \<open>proxy/tcp.rs\<close>): listeners, the accept loop with
  its canary check, the handling of one connection and the shutdown with its drain window. A
  direction of a TCP connection is the list of bytes that is sent on it until the end of the stream;
  the results of the socket calls are inputs.
\<close>

section \<open>Listeners\<close>

record tcp_proxy =
  tp_rule :: rule
  tp_local_addr :: socket_addr
  tp_resolver :: upstream_resolver
  tp_workers :: nat
  tp_expect_inbound_proxy :: bool
  accept_cancelled :: bool
  conn_cancelled :: bool
  conn_tracker :: "nat list"

text \<open>The first bind with the address the kernel gave it, then the binds of the other workers to that address.\<close>

definition build_tcp_listener_sockets :: "socket_addr option \<Rightarrow> bool list \<Rightarrow> nat \<Rightarrow> socket_addr option" where
  "build_tcp_listener_sockets first others workers =
     (if workers = 1 then first
      else case first of
        None \<Rightarrow> None
      | Some bind_addr \<Rightarrow> if list_all (\<lambda>ok. ok) (take (workers - 1) others) then Some bind_addr else None)"

definition tcp_spawn_with_arm_table ::
  "rule \<Rightarrow> upstream_resolver \<Rightarrow> nat \<Rightarrow> bool \<Rightarrow> socket_addr option \<Rightarrow> bool list \<Rightarrow> tcp_proxy option" where
  "tcp_spawn_with_arm_table r resolver workers expect_proxy first others =
     (if workers = 0 then None
      else map_option (\<lambda>a.
        \<lparr>tp_rule = r, tp_local_addr = a, tp_resolver = resolver, tp_workers = workers,
         tp_expect_inbound_proxy = expect_proxy, accept_cancelled = False, conn_cancelled = False, conn_tracker = []\<rparr>)
        (build_tcp_listener_sockets first others workers))"

section \<open>The accept loop\<close>

text \<open>\<open>None\<close>: the peek timed out or failed; a shorter answer means that fewer bytes were available.\<close>

definition peek_and_match_canary_token :: "bytes option \<Rightarrow> nat \<Rightarrow> arm_table \<Rightarrow> socket_addr \<Rightarrow> bytes option" where
  "peek_and_match_canary_token peeked clock arms local_addr =
     (case peeked of
        None \<Rightarrow> None
      | Some buf \<Rightarrow>
          if length buf < CANARY_TOKEN_LEN then None
          else if match_token clock arms (local_addr, Tcp) buf then Some buf else None)"

datatype accepted = RunCanaryEcho bytes | NoPeer | HandleConnection socket_addr

record accept_io =
  ai_arms :: arm_table
  ai_clock :: nat
  ai_peeked :: "bytes option"
  ai_clock_later :: nat

definition accept_decision :: "accept_io \<Rightarrow> peer_state \<Rightarrow> tcp_proxy \<Rightarrow> accepted" where
  "accept_decision io ps p =
     (case (if is_armed (ai_clock io) (ai_arms io) (tp_local_addr p, Tcp)
            then peek_and_match_canary_token (ai_peeked io) (ai_clock_later io) (ai_arms io) (tp_local_addr p)
            else None) of
        Some matched_token \<Rightarrow> RunCanaryEcho matched_token
      | None \<Rightarrow>
          (case current_target ps (tp_resolver p) of
             None \<Rightarrow> NoPeer
           | Some target_addr \<Rightarrow> HandleConnection target_addr))"

text \<open>One accepted connection, tracked under its number while its task runs.\<close>

definition accept_one :: "nat \<Rightarrow> accept_io \<Rightarrow> peer_state \<Rightarrow> tcp_proxy \<Rightarrow> tcp_proxy \<times> accepted option" where
  "accept_one conn io ps p =
     (if accept_cancelled p then (p, None)
      else case accept_decision io ps p of
        NoPeer \<Rightarrow> (p, Some NoPeer)
      | d \<Rightarrow> (p\<lparr>conn_tracker := conn # conn_tracker p\<rparr>, Some d))"

text \<open>
  \<open>run_canary_echo\<close>: the bytes returned to the client that sends \<open>client\<close>; \<open>copied\<close> limits the copy when
  it is cancelled or fails.
\<close>

definition run_canary_echo :: "nat option \<Rightarrow> bytes \<Rightarrow> bytes" where
  "run_canary_echo copied client =
     (case read_exact CANARY_TOKEN_LEN client of
        Inl _ \<Rightarrow> []
      | Inr (_, payload) \<Rightarrow> (case copied of None \<Rightarrow> payload | Some n \<Rightarrow> take n payload))"

section \<open>One connection\<close>

text \<open>A \<open>write_all\<close> that fails has written some prefix.\<close>

definition write_all :: "nat option \<Rightarrow> bytes \<Rightarrow> bytes \<times> bool" where
  "write_all failed bs = (case failed of None \<Rightarrow> (bs, True) | Some k \<Rightarrow> (take k bs, False))"

text \<open>
  What a connection meets: the connect, the two writes to the upstream, and how far the two
  directions of \<open>copy_bidirectional\<close> get before a cancellation or an error (\<open>None\<close>: to the end).
\<close>

record conn_io =
  ci_connect_ok :: bool
  ci_header_fail :: "nat option"
  ci_leftover_fail :: "nat option"
  ci_pump_cut :: "(nat \<times> nat) option"

text \<open>The bytes that reach the upstream and the client; \<open>ups\<close> is what the upstream sends.\<close>

definition handle_connection ::
  "rule \<Rightarrow> socket_addr \<Rightarrow> socket_addr \<Rightarrow> bool \<Rightarrow> conn_io \<Rightarrow> bytes \<Rightarrow> bytes \<Rightarrow> bytes \<times> bytes" where
  "handle_connection r client_addr server_listen expect_proxy io client ups =
     (if \<not> ci_connect_ok io then ([], [])
      else case (if expect_proxy then read_optional_header client else Inr (\<lparr>endpoints = None, leftover = []\<rparr>, client)) of
        Inl _ \<Rightarrow> ([], [])
      | Inr (d, rest) \<Rightarrow>
          (let client_addr = (case endpoints d of Some eps \<Rightarrow> ep_client eps | None \<Rightarrow> client_addr);
               (out1, ok1) = (case proxy_protocol r of
                  Some version \<Rightarrow> write_all (ci_header_fail io) (encode_header version client_addr server_listen)
                | None \<Rightarrow> ([], True))
           in if \<not> ok1 then (out1, [])
              else let (out2, ok2) = (if leftover d \<noteq> [] then write_all (ci_leftover_fail io) (leftover d) else ([], True))
              in if \<not> ok2 then (out1 @ out2, [])
              else case ci_pump_cut io of
                None \<Rightarrow> (out1 @ out2 @ rest, ups)
              | Some (c2u, u2c) \<Rightarrow> (out1 @ out2 @ take c2u rest, take u2c ups)))"

section \<open>Shutdown\<close>

text \<open>
  \<open>stop\<close>: the accept loops end, then the tracked connections get the drain window; \<open>done\<close> are
  those that finish in it. Afterwards the survivors are cancelled.
\<close>

definition tcp_stop :: "nat option \<Rightarrow> (nat \<Rightarrow> bool) \<Rightarrow> tcp_proxy \<Rightarrow> tcp_proxy" where
  "tcp_stop drain_timeout done p =
     (let p = p\<lparr>accept_cancelled := True\<rparr> in
      case drain_timeout of
        Some t \<Rightarrow>
          if t = 0 then p\<lparr>conn_cancelled := True\<rparr>
          else
            let rest = filter (\<lambda>c. \<not> done c) (conn_tracker p) in
            if rest = [] then p\<lparr>conn_tracker := []\<rparr> else p\<lparr>conn_tracker := rest, conn_cancelled := True\<rparr>
      | None \<Rightarrow> p\<lparr>conn_cancelled := True\<rparr>)"

section \<open>What gets through\<close>

definition smooth :: "conn_io \<Rightarrow> bool" where
  "smooth io \<longleftrightarrow> ci_connect_ok io \<and> ci_header_fail io = None \<and> ci_leftover_fail io = None \<and> ci_pump_cut io = None"

definition own_header :: "rule \<Rightarrow> socket_addr \<Rightarrow> socket_addr \<Rightarrow> bytes" where
  "own_header r client server = (case proxy_protocol r of Some v \<Rightarrow> encode_header v client server | None \<Rightarrow> [])"

lemma handle_smooth:
  assumes "smooth io"
  shows "handle_connection r a sl ex io client ups =
    (case (if ex then read_optional_header client else Inr (\<lparr>endpoints = None, leftover = []\<rparr>, client)) of
       Inl _ \<Rightarrow> ([], [])
     | Inr (d, rest) \<Rightarrow>
         (own_header r (case endpoints d of Some eps \<Rightarrow> ep_client eps | None \<Rightarrow> a) sl @ leftover d @ rest, ups))"
  using assms
  by (auto simp: handle_connection_def smooth_def own_header_def write_all_def Let_def split: option.splits sum.splits)

lemma read_header_any:
  "read_optional_header (encode_header v c s @ rest) = Inr (\<lparr>endpoints = conveyed c s, leftover = []\<rparr>, rest)"
  by (cases v) (simp_all add: encode_header_def encode_v1_roundtrip encode_v2_roundtrip)

text \<open>
  C15: A TCP connection is forwarded byte for byte. When nothing fails, the client receives what the
  upstream sends, and the upstream receives the configured PROXY header followed by the client's
  bytes; only a relay that expects it removes a header in front of them, and only one that starts with
  the magic of a PROXY header.
\<close>

theorem tcp_bytes_conserved:
  assumes "smooth io" "ex \<longrightarrow> is_ok (read_optional_header client)"
  shows "\<exists>hdr payload announced. client = hdr @ payload \<and>
    handle_connection r a sl ex io client ups = (own_header r announced sl @ payload, ups) \<and>
    (hdr = [] \<or> ex \<and> (take 6 hdr = str_bytes ''PROXY '' \<or> take 12 hdr = V2_SIG)) \<and>
    (\<not> ex \<longrightarrow> announced = a)"
proof (cases ex)
  case False
  with assms(1) show ?thesis by (intro exI [of _ "[]"] exI [of _ client] exI [of _ a]) (simp add: handle_smooth)
next
  case True
  with assms(2) obtain d rest where r: "read_optional_header client = Inr (d, rest)" by (auto simp: is_ok_def split: sum.splits)
  from read_optional_header_split [OF r] obtain hdr where "client = hdr @ leftover d @ rest"
    "hdr = [] \<or> leftover d = [] \<and> (take 6 hdr = str_bytes ''PROXY '' \<or> take 12 hdr = V2_SIG)" by blast
  with True r assms(1) show ?thesis
    by (intro exI [of _ hdr] exI [of _ "leftover d @ rest"]
        exI [of _ "case endpoints d of Some eps \<Rightarrow> ep_client eps | None \<Rightarrow> a"]) (auto simp: handle_smooth)
qed

definition smooth_io :: conn_io where
  "smooth_io = \<lparr>ci_connect_ok = True, ci_header_fail = None, ci_leftover_fail = None, ci_pump_cut = None\<rparr>"

lemma smooth_io [simp]: "smooth smooth_io"
  by (simp add: smooth_def smooth_io_def)

theorem tcp_bytes_conserved_witness:
  "\<exists>hdr payload announced. [0x47, 0x45, 0x54] = hdr @ payload \<and>
     handle_connection (plain_rule ''a'' 1 2) (SockV4 1 1) (SockV4 0 1) True smooth_io [0x47, 0x45, 0x54] [9] =
       (own_header (plain_rule ''a'' 1 2) announced (SockV4 0 1) @ payload, [9])"
proof -
  have "is_ok (read_optional_header [0x47, 0x45, 0x54])" by (simp add: read_optional_header_def is_ok_def)
  from tcp_bytes_conserved [OF smooth_io, of True "[0x47, 0x45, 0x54]" "plain_rule ''a'' 1 2" "SockV4 1 1" "SockV4 0 1" "[9]"] this
  show ?thesis by blast
qed

section \<open>Chains of relays\<close>

text \<open>A relay of a chain, with the address it sees the connection come from.\<close>

record tcp_hop =
  th_rule :: rule
  th_listen :: socket_addr
  th_src :: socket_addr
  th_io :: conn_io

fun tcp_chain :: "tcp_hop list \<Rightarrow> bytes \<Rightarrow> bytes" where
  "tcp_chain [] s = s"
| "tcp_chain (h # hs) s = tcp_chain hs (fst (handle_connection (th_rule h) (th_src h) (th_listen h) True (th_io h) s []))"

definition tcp_hop_ok :: "tcp_hop \<Rightarrow> bool" where
  "tcp_hop_ok h \<longleftrightarrow> smooth (th_io h) \<and> proxy_protocol (th_rule h) \<noteq> None"

lemma tcp_hop_step:
  assumes "tcp_hop_ok h"
  shows "\<exists>v. fst (handle_connection (th_rule h) (th_src h) (th_listen h) True (th_io h) (encode_header v' c s @ p) []) =
    encode_header v (case conveyed c s of Some ep \<Rightarrow> ep_client ep | None \<Rightarrow> th_src h) (th_listen h) @ p"
  using assms by (auto simp: tcp_hop_ok_def handle_smooth read_header_any own_header_def)

text \<open>
  C16: The real client's address reaches the terminal over any number of TCP relays, and the payload
  arrives unchanged even where the address cannot be conveyed. A gateway announces the client; every
  relay removes the header it finds and writes its own; what the terminal reads is one header and the
  client's bytes, and the header names the client if every listener on the way has the client's address
  family.
\<close>

theorem tcp_client_reaches_terminal:
  assumes "list_all tcp_hop_ok hops"
  shows "\<exists>d. read_optional_header (tcp_chain hops (encode_header v c gw @ p)) = Inr (d, p) \<and> leftover d = [] \<and>
    (conveyed c gw \<noteq> None \<and> list_all (\<lambda>h. conveyed c (th_listen h) \<noteq> None) hops \<longrightarrow>
       (\<exists>ep. endpoints d = Some ep \<and> ep_client ep = sa_new (sa_ip c) (sa_port c)))"
proof -
  have conv: "conveyed d s = Some ep \<Longrightarrow> ep_client ep = sa_new (sa_ip d) (sa_port d)" for d s ep
    by (auto simp: conveyed_def split: ip_addr.splits)
  have norm: "conveyed (sa_new (sa_ip d) (sa_port d)) s = conveyed d s" for d s
    by (cases d; cases "sa_ip s") (simp_all add: conveyed_def)
  have "\<exists>v' c' s'. tcp_chain hops (encode_header v d gw @ p) = encode_header v' c' s' @ p \<and>
      (conveyed d gw \<noteq> None \<and> list_all (\<lambda>h. conveyed d (th_listen h) \<noteq> None) hops \<longrightarrow>
         conveyed c' s' \<noteq> None \<and> sa_new (sa_ip c') (sa_port c') = sa_new (sa_ip d) (sa_port d))" for d v gw
    using assms
  proof (induction hops arbitrary: d v gw)
    case (Cons h hops)
    let ?d = "case conveyed d gw of Some ep \<Rightarrow> ep_client ep | None \<Rightarrow> th_src h"
    from Cons.prems tcp_hop_step [of h v d gw p] obtain v1 where
      "fst (handle_connection (th_rule h) (th_src h) (th_listen h) True (th_io h) (encode_header v d gw @ p) []) =
        encode_header v1 ?d (th_listen h) @ p" by auto
    moreover have "conveyed d gw \<noteq> None \<Longrightarrow> ?d = sa_new (sa_ip d) (sa_port d)" using conv [of d gw] by auto
    ultimately show ?case
      using Cons.IH [of v1 ?d "th_listen h"] Cons.prems norm [of d] by (cases "conveyed d gw") (auto, metis)
  qed auto
  from this [of v c gw] obtain v' c' s' where
    e: "tcp_chain hops (encode_header v c gw @ p) = encode_header v' c' s' @ p"
    "conveyed c gw \<noteq> None \<and> list_all (\<lambda>h. conveyed c (th_listen h) \<noteq> None) hops \<longrightarrow>
       conveyed c' s' \<noteq> None \<and> sa_new (sa_ip c') (sa_port c') = sa_new (sa_ip c) (sa_port c)" by blast
  then show ?thesis using conv [of c' s'] by (auto simp: read_header_any)
qed

definition relay_hop :: tcp_hop where
  "relay_hop = \<lparr>th_rule = (plain_rule ''a'' 1 2)\<lparr>proxy_protocol := Some V2\<rparr>, th_listen = SockV4 0 1, th_src = SockV4 8 8,
     th_io = smooth_io\<rparr>"

theorem tcp_client_reaches_terminal_witness:
  "\<exists>d ep. read_optional_header (tcp_chain [relay_hop, relay_hop] (encode_header V2 (SockV4 77 4) (SockV4 1 7) @ [1, 2, 3])) =
       Inr (d, [1, 2, 3]) \<and> endpoints d = Some ep \<and> ep_client ep = SockV4 77 4"
proof -
  have "list_all tcp_hop_ok [relay_hop, relay_hop]" by (simp add: tcp_hop_ok_def relay_hop_def)
  from tcp_client_reaches_terminal [OF this, of V2 "SockV4 77 4" "SockV4 1 7" "[1, 2, 3]"] obtain d where
    d: "read_optional_header (tcp_chain [relay_hop, relay_hop] (encode_header V2 (SockV4 77 4) (SockV4 1 7) @ [1, 2, 3])) =
      Inr (d, [1, 2, 3])" "\<exists>ep. endpoints d = Some ep \<and> ep_client ep = SockV4 77 4"
    by (auto simp: conveyed_def relay_hop_def simp del: tcp_chain.simps)
  then show ?thesis by blast
qed

section \<open>Canaries and shutdown\<close>

text \<open>A probe is echoed without its token, and only a live token of this listener turns a connection into a probe.\<close>

lemma canary_decision:
  "accept_decision io ps p = RunCanaryEcho tok \<longleftrightarrow>
     ai_peeked io = Some tok \<and> CANARY_TOKEN_LEN \<le> length tok \<and>
     is_armed (ai_clock io) (ai_arms io) (tp_local_addr p, Tcp) \<and>
     match_token (ai_clock_later io) (ai_arms io) (tp_local_addr p, Tcp) tok"
  by (auto simp: accept_decision_def peek_and_match_canary_token_def split: option.splits if_splits)

lemma canary_echo: "length tok = CANARY_TOKEN_LEN \<Longrightarrow> run_canary_echo None (tok @ payload) = payload"
  by (simp add: run_canary_echo_def)

text \<open>
  After \<open>stop\<close> nothing is accepted, and connections are cut only without a drain window or when one
  of them outlives it.
\<close>

lemma stopped_accepts_nothing: "accept_one conn io ps (tcp_stop t d p) = (tcp_stop t d p, None)"
  by (simp add: accept_one_def tcp_stop_def Let_def split: option.split)

lemma stop_cancels_survivors_only:
  "conn_cancelled (tcp_stop t d p) \<longleftrightarrow>
     conn_cancelled p \<or> t = None \<or> t = Some 0 \<or> (\<exists>c\<in>set (conn_tracker p). \<not> d c)"
  by (auto simp: tcp_stop_def Let_def filter_empty_conv split: option.splits)

end
