(* ===== verification/Supervisor.thy ===== *)
theory Supervisor
  imports Tcp_Proxy Udp_Proxy
begin

text \<open>
  The rule side of the proxy supervisor (crate \<open>yggdrasil\<close>, files \<open>proxy/supervisor/handle.rs\<close> and
  \<open>proxy/supervisor/reconcile.rs\<close>): the table of running proxies and how an update of the rule
  set stops, swaps and starts them. The hash map is an association list with distinct keys; the
  addresses the kernel binds are inputs.
\<close>

section \<open>Running proxies\<close>

datatype proxy_handle = HandleTcp tcp_proxy | HandleUdp udp_proxy

primrec handle_rule :: "proxy_handle \<Rightarrow> rule" where
  "handle_rule (HandleTcp p) = tp_rule p"
| "handle_rule (HandleUdp p) = up_rule p"

primrec handle_local_addr :: "proxy_handle \<Rightarrow> socket_addr" where
  "handle_local_addr (HandleTcp p) = tp_local_addr p"
| "handle_local_addr (HandleUdp p) = up_local_addr p"

definition handle_name :: "proxy_handle \<Rightarrow> string" where
  "handle_name h = rule_name (handle_rule h)"

definition handle_protocol :: "proxy_handle \<Rightarrow> protocol" where
  "handle_protocol h = protocol (handle_rule h)"

record active_proxy =
  ap_handle :: proxy_handle
  upstream_description :: string
  ap_cert_less_route_count :: nat

type_synonym active_map = "(string \<times> active_proxy) list"

record sup_env =
  resolver_factory_of :: resolver_factory
  default_bind :: "ip_addr option"
  default_workers :: "nat option"
  available_parallelism :: "nat option"

text \<open>The binds of one spawn: the address of the first socket, and the other workers' sockets.\<close>

record spawn_io =
  bound :: "socket_addr option"
  bound_others :: "bool list"

datatype spawn_error = ListenClaimed | ResolverError resolver_build_error | SpawnFailed | HttpsRule

definition collect_claimed_addrs :: "active_map \<Rightarrow> (socket_addr \<times> protocol) list" where
  "collect_claimed_addrs act = map (\<lambda>(_, ap). (handle_local_addr (ap_handle ap), handle_protocol (ap_handle ap))) act"

definition spawn_handle :: "rule \<Rightarrow> upstream_resolver \<Rightarrow> nat \<Rightarrow> bool \<Rightarrow> spawn_io \<Rightarrow> proxy_handle option" where
  "spawn_handle r resolver workers expect_proxy io =
     (if protocol r = Tcp
      then map_option HandleTcp (tcp_spawn_with_arm_table r resolver workers expect_proxy (bound io) (bound_others io))
      else Option.bind (build_frontend_std_sockets (bound io) (bound_others io) workers) (\<lambda>a.
        map_option HandleUdp (spawn_with_arm_table r a resolver MAX_FLOWS_PER_RULE_DEFAULT workers expect_proxy)))"

definition spawn_proxy_for_rule :: "sup_env \<Rightarrow> spawn_io \<Rightarrow> rule \<Rightarrow> active_map \<Rightarrow> spawn_error + active_proxy" where
  "spawn_proxy_for_rule env io r act =
     (let r = with_bind_override (default_bind env) r in
      if (listen r, protocol r) \<in> set (collect_claimed_addrs act) then Inl ListenClaimed
      else if protocol r = Https then Inl HttpsRule
      else
        rbind (map_err ResolverError (build (resolver_factory_of env) r)) (\<lambda>resolver.
          let workers = resolve_workers (available_parallelism env) (default_workers env);
              expect_proxy = (rf_mode (resolver_factory_of env) = Relay \<and> proxy_protocol r = Some V2)
          in case spawn_handle r resolver workers expect_proxy io of
               None \<Rightarrow> Inl SpawnFailed
             | Some h \<Rightarrow>
                 Inr \<lparr>ap_handle = h, upstream_description = describe resolver, ap_cert_less_route_count = 0\<rparr>))"

section \<open>Applying an update\<close>

text \<open>The table together with the proxies that were stopped.\<close>

type_synonym sup_tables = "active_map \<times> proxy_handle list"

definition stop_rule :: "rule \<Rightarrow> sup_tables \<Rightarrow> sup_tables" where
  "stop_rule r = (\<lambda>(act, stopped).
     case map_of act (rule_name r) of
       None \<Rightarrow> (act, stopped)
     | Some ap \<Rightarrow> (AList.delete (rule_name r) act, stopped @ [ap_handle ap]))"

definition start_rule :: "sup_env \<Rightarrow> (rule \<Rightarrow> spawn_io) \<Rightarrow> rule \<Rightarrow> sup_tables \<Rightarrow> sup_tables" where
  "start_rule env io r = (\<lambda>(act, stopped).
     case spawn_proxy_for_rule env (io r) r act of
       Inl _ \<Rightarrow> (act, stopped)
     | Inr ap \<Rightarrow> (AList.update (rule_name r) ap act, stopped))"

definition swap_rule :: "sup_env \<Rightarrow> (rule \<Rightarrow> spawn_io) \<Rightarrow> rule \<times> rule \<Rightarrow> sup_tables \<Rightarrow> sup_tables" where
  "swap_rule env io = (\<lambda>(old, new) t. start_rule env io new (stop_rule old t))"

definition apply_update :: "sup_env \<Rightarrow> (rule \<Rightarrow> spawn_io) \<Rightarrow> rule_diff \<Rightarrow> sup_tables \<Rightarrow> sup_tables" where
  "apply_update env io d t =
     fold (start_rule env io) (added d) (fold (swap_rule env io) (changed d) (fold stop_rule (removed d) t))"

text \<open>
  The loop of the supervisor: the rule watcher and the external push both deliver whole sets, and
  the difference is always taken against the set applied last. Leaving the loop drains the table.
\<close>

record 'u sup_state =
  current_set :: "'u rule_set"
  tables :: sup_tables

definition apply_set :: "sup_env \<Rightarrow> (rule \<Rightarrow> spawn_io) \<Rightarrow> 'u rule_set \<Rightarrow> 'u sup_state \<Rightarrow> 'u sup_state" where
  "apply_set env io new_set s =
     \<lparr>current_set = new_set, tables = apply_update env io (rule_set_diff (current_set s) new_set) (tables s)\<rparr>"

datatype 'u sup_event = WatcherUpdate "rule \<Rightarrow> spawn_io" "'u rule_set" | ExternalPush "rule \<Rightarrow> spawn_io" "'u rule_set"
  | WatcherClosed | SupCancelled

definition sup_drain :: "'u sup_state \<Rightarrow> 'u sup_state" where
  "sup_drain s = s\<lparr>tables := (case tables s of (act, stopped) \<Rightarrow> ([], stopped @ map (ap_handle \<circ> snd) act))\<rparr>"

fun supervisor_loop :: "sup_env \<Rightarrow> 'u sup_event list \<Rightarrow> 'u sup_state \<Rightarrow> 'u sup_state" where
  "supervisor_loop env [] s = s"
| "supervisor_loop env (WatcherUpdate io new_set # es) s = supervisor_loop env es (apply_set env io new_set s)"
| "supervisor_loop env (ExternalPush io new_set # es) s = supervisor_loop env es (apply_set env io new_set s)"
| "supervisor_loop env (WatcherClosed # es) s = sup_drain s"
| "supervisor_loop env (SupCancelled # es) s = sup_drain s"

definition sup_start :: "'u sup_state" where
  "sup_start = \<lparr>current_set = \<lparr>rules = [], routes = []\<rparr>, tables = ([], [])\<rparr>"

section \<open>One entry of the table\<close>

abbreviation claim_of :: "sup_env \<Rightarrow> rule \<Rightarrow> socket_addr \<times> protocol" where
  "claim_of env r \<equiv> (listen (with_bind_override (default_bind env) r), protocol r)"

lemma override_simps [simp]:
  "rule_name (with_bind_override b r) = rule_name r" "protocol (with_bind_override b r) = protocol r"
  "target_port (with_bind_override b r) = target_port r" "Rules.rule.target (with_bind_override b r) = Rules.rule.target r"
  by (simp_all add: with_bind_override_def Let_def split: option.split)

definition entry_ok :: "sup_env \<Rightarrow> rule \<Rightarrow> active_proxy \<Rightarrow> bool" where
  "entry_ok env r ap \<longleftrightarrow>
     handle_rule (ap_handle ap) = with_bind_override (default_bind env) r \<and>
     handle_local_addr (ap_handle ap) = listen (with_bind_override (default_bind env) r)"

text \<open>The kernel binds the address it is asked for; port 0, which leaves the choice to it, is excluded.\<close>

definition kernel_ok :: "sup_env \<Rightarrow> (rule \<Rightarrow> spawn_io) \<Rightarrow> rule list \<Rightarrow> bool" where
  "kernel_ok env io rs \<longleftrightarrow>
     (\<forall>r\<in>set rs. \<forall>a. bound (io r) = Some a \<longrightarrow> a = listen (with_bind_override (default_bind env) r))"

lemma spawn_handle_Some:
  "spawn_handle r res w ex io = Some h \<Longrightarrow> handle_rule h = r \<and> bound io = Some (handle_local_addr h)"
  by (auto simp: spawn_handle_def tcp_spawn_with_arm_table_def build_tcp_listener_sockets_def spawn_with_arm_table_def
      build_frontend_std_sockets_def
      split: if_splits option.splits Option.bind_splits)

lemma spawn_unclaimed:
  "spawn_proxy_for_rule env io r act = Inr ap \<Longrightarrow> claim_of env r \<notin> set (collect_claimed_addrs act)"
  by (auto simp: spawn_proxy_for_rule_def Let_def split: if_splits)

lemma spawn_entry:
  assumes "spawn_proxy_for_rule env (io r) r act = Inr ap" "kernel_ok env io rs" "r \<in> set rs"
  shows "entry_ok env r ap"
  using assms
  by (auto simp: spawn_proxy_for_rule_def Let_def rbind_def map_err_def entry_ok_def kernel_ok_def
      dest!: spawn_handle_Some split: if_splits sum.splits option.splits)

lemma map_of_stop [simp]: "map_of (fst (stop_rule r t)) n = (if n = rule_name r then None else map_of (fst t) n)"
  by (auto simp: stop_rule_def delete_conv' split: prod.split option.split)

lemma map_of_start:
  "n \<noteq> rule_name r \<Longrightarrow> map_of (fst (start_rule env io r t)) n = map_of (fst t) n"
  by (auto simp: start_rule_def update_conv' split: prod.split sum.split)

lemma map_of_start_same:
  assumes "map_of (fst t) (rule_name r) = None" "map_of (fst (start_rule env io r t)) (rule_name r) = Some ap"
    and "kernel_ok env io rs" "r \<in> set rs"
  shows "entry_ok env r ap"
  using assms spawn_entry by (auto simp: start_rule_def update_conv' split: prod.splits sum.splits)

lemma fold_other:
  assumes "\<And>x t. x \<in> set xs \<Longrightarrow> map_of (fst (f x t)) n = map_of (fst t) n"
  shows "map_of (fst (fold f xs t)) n = map_of (fst t) n"
  using assms by (induction xs arbitrary: t) simp_all

lemma map_of_swap:
  "n \<noteq> rule_name (fst c) \<Longrightarrow> n \<noteq> rule_name (snd c) \<Longrightarrow> map_of (fst (swap_rule env io c t)) n = map_of (fst t) n"
  by (cases c) (simp add: swap_rule_def map_of_start)

section \<open>Unchanged rules\<close>

lemma diff_names:
  assumes "distinct (map rule_name (rules cur))" "distinct (map rule_name (rules new))"
  shows "x \<in> set (removed (rule_set_diff cur new)) \<Longrightarrow> x \<in> set (rules cur) \<and> rule_name x \<notin> rule_name ` set (rules new)"
    "x \<in> set (added (rule_set_diff cur new)) \<Longrightarrow> x \<in> set (rules new) \<and> rule_name x \<notin> rule_name ` set (rules cur)"
    "c \<in> set (changed (rule_set_diff cur new)) \<Longrightarrow> fst c \<in> set (rules cur) \<and> snd c \<in> set (rules new) \<and>
       rule_name (fst c) = rule_name (snd c) \<and> snd c \<notin> set (rules cur)"
proof -
  have "set (removed (rule_set_diff cur new)) = set (filter (\<lambda>r. rule_name r \<notin> rule_name ` set (rules new)) (rules cur))"
    using diff_closed(2) [OF assms] by (metis set_mset_mset)
  then show "x \<in> set (removed (rule_set_diff cur new)) \<Longrightarrow> x \<in> set (rules cur) \<and> rule_name x \<notin> rule_name ` set (rules new)" by auto
  show "x \<in> set (added (rule_set_diff cur new)) \<Longrightarrow> x \<in> set (rules new) \<and> rule_name x \<notin> rule_name ` set (rules cur)"
    by (auto simp: diff_closed(1) [OF assms])
  assume c: "c \<in> set (changed (rule_set_diff cur new))"
  then have "snd c \<in> set (map snd (changed (rule_set_diff cur new)))" by auto
  then have "snd c \<notin> set (rules cur)" unfolding diff_closed(5) [OF assms] by simp
  with c show "fst c \<in> set (rules cur) \<and> snd c \<in> set (rules new) \<and> rule_name (fst c) = rule_name (snd c) \<and> snd c \<notin> set (rules cur)"
    by (auto simp: diff_closed(4) [OF assms])
qed

lemma same_name:
  "distinct (map rule_name rs) \<Longrightarrow> a \<in> set rs \<Longrightarrow> b \<in> set rs \<Longrightarrow> rule_name a = rule_name b \<Longrightarrow> a = b"
  using distinct_map_inj [of rule_name rs] by (auto dest: inj_onD)

lemma unchanged_entry:
  assumes "distinct (map rule_name (rules cur))" "distinct (map rule_name (rules new))"
    and "r \<in> set (rules cur)" "r \<in> set (rules new)"
  shows "map_of (fst (apply_update env io (rule_set_diff cur new) t)) (rule_name r) = map_of (fst t) (rule_name r)"
proof -
  let ?d = "rule_set_diff cur new"
  note n = diff_names [OF assms(1,2)]
  have "rule_name r \<noteq> rule_name x" if "x \<in> set (added ?d)" for x using n(2) [OF that] assms(3) by (metis imageI)
  moreover have "rule_name r \<noteq> rule_name (fst c) \<and> rule_name r \<noteq> rule_name (snd c)" if "c \<in> set (changed ?d)" for c
    using n(3) [OF that] same_name [OF assms(2,4)] assms(3) by metis
  moreover have "rule_name r \<noteq> rule_name x" if "x \<in> set (removed ?d)" for x using n(1) [OF that] assms(4) by (metis imageI)
  ultimately show ?thesis
    unfolding apply_update_def by (simp add: fold_other map_of_start map_of_swap)
qed

section \<open>Invariant of the table\<close>

text \<open>No name and no listening socket twice.\<close>

definition table_ok :: "active_map \<Rightarrow> bool" where
  "table_ok act \<longleftrightarrow> distinct (map fst act) \<and> distinct (collect_claimed_addrs act)"

lemma table_ok_delete: "table_ok act \<Longrightarrow> table_ok (AList.delete n act)"
  by (auto simp: table_ok_def collect_claimed_addrs_def distinct_delete AList.delete_eq distinct_map_filter)

lemma update_fresh: "map_of m k = None \<Longrightarrow> AList.update k v m = m @ [(k, v)]"
  by (induction m) (auto split: if_splits)

lemma table_ok_start:
  assumes "table_ok (fst t)" "map_of (fst t) (rule_name r) = None" "kernel_ok env io rs" "r \<in> set rs"
  shows "table_ok (fst (start_rule env io r t))"
proof (cases "spawn_proxy_for_rule env (io r) r (fst t)")
  case (Inr ap)
  have "entry_ok env r ap" by (rule spawn_entry [OF Inr assms(3,4)])
  with spawn_unclaimed [OF Inr] assms(1,2) Inr show ?thesis
    by (auto simp: start_rule_def update_fresh table_ok_def collect_claimed_addrs_def entry_ok_def handle_protocol_def
        map_of_eq_None_iff case_prod_beta)
qed (use assms(1) in \<open>simp add: start_rule_def case_prod_beta\<close>)

lemma table_ok_stop: "table_ok (fst t) \<Longrightarrow> table_ok (fst (stop_rule r t))"
  by (auto simp: stop_rule_def table_ok_delete split: prod.split option.split)

lemma fold_start:
  assumes "distinct (map rule_name xs)" "\<forall>x\<in>set xs. map_of (fst t) (rule_name x) = None" "table_ok (fst t)"
    and "kernel_ok env io rs" "set xs \<subseteq> set rs"
  shows "table_ok (fst (fold (start_rule env io) xs t))"
    "x \<in> set xs \<Longrightarrow> map_of (fst (fold (start_rule env io) xs t)) (rule_name x) = Some ap \<Longrightarrow> entry_ok env x ap"
proof -
  have "table_ok (fst (fold (start_rule env io) xs t)) \<and>
    (x \<in> set xs \<longrightarrow> map_of (fst (fold (start_rule env io) xs t)) (rule_name x) = Some ap \<longrightarrow> entry_ok env x ap)"
    using assms
  proof (induction xs arbitrary: t)
    case (Cons y ys)
    let ?t = "start_rule env io y t"
    have y: "map_of (fst t) (rule_name y) = None" "y \<in> set rs" using Cons.prems by auto
    have ys: "\<forall>z\<in>set ys. rule_name z \<noteq> rule_name y" using Cons.prems(1) by simp (metis imageI)
    then have "\<forall>z\<in>set ys. map_of (fst ?t) (rule_name z) = None" using Cons.prems(2) by (simp add: map_of_start)
    with Cons.IH [of ?t] Cons.prems table_ok_start [OF Cons.prems(3) y(1) assms(4) y(2)]
    have ih: "table_ok (fst (fold (start_rule env io) ys ?t))"
      "x \<in> set ys \<longrightarrow> map_of (fst (fold (start_rule env io) ys ?t)) (rule_name x) = Some ap \<longrightarrow> entry_ok env x ap" by auto
    have "map_of (fst (fold (start_rule env io) ys ?t)) (rule_name y) = map_of (fst ?t) (rule_name y)"
      by (rule fold_other) (use ys in \<open>metis map_of_start\<close>)
    with ih map_of_start_same [OF y(1) _ assms(4) y(2)] show ?case by auto
  qed simp
  then show "table_ok (fst (fold (start_rule env io) xs t))"
    "x \<in> set xs \<Longrightarrow> map_of (fst (fold (start_rule env io) xs t)) (rule_name x) = Some ap \<Longrightarrow> entry_ok env x ap" by simp_all
qed

lemma fold_swap:
  assumes "distinct (map (rule_name \<circ> snd) cs)" "\<forall>c\<in>set cs. rule_name (fst c) = rule_name (snd c)" "table_ok (fst t)"
    and "kernel_ok env io rs" "snd ` set cs \<subseteq> set rs"
  shows "table_ok (fst (fold (swap_rule env io) cs t))"
    "c \<in> set cs \<Longrightarrow> map_of (fst (fold (swap_rule env io) cs t)) (rule_name (snd c)) = Some ap \<Longrightarrow> entry_ok env (snd c) ap"
proof -
  have "table_ok (fst (fold (swap_rule env io) cs t)) \<and>
    (c \<in> set cs \<longrightarrow> map_of (fst (fold (swap_rule env io) cs t)) (rule_name (snd c)) = Some ap \<longrightarrow> entry_ok env (snd c) ap)"
    using assms
  proof (induction cs arbitrary: t)
    case (Cons d ds)
    obtain old new where d: "d = (old, new)" by fastforce
    let ?s = "stop_rule old t" and ?t = "swap_rule env io d t"
    have new: "rule_name old = rule_name new" "new \<in> set rs" using Cons.prems d by auto
    have none: "map_of (fst ?s) (rule_name new) = None" using new(1) by simp
    have t: "?t = start_rule env io new ?s" by (simp add: d swap_rule_def)
    have ds: "\<forall>e\<in>set ds. rule_name (snd e) \<noteq> rule_name new \<and> rule_name (fst e) \<noteq> rule_name new"
      using Cons.prems(1,2) d by force
    have "table_ok (fst ?t)"
      unfolding t by (rule table_ok_start [OF table_ok_stop [OF Cons.prems(3)] none assms(4) new(2)])
    with Cons.IH [of ?t] Cons.prems
    have ih: "table_ok (fst (fold (swap_rule env io) ds ?t))"
      "c \<in> set ds \<longrightarrow> map_of (fst (fold (swap_rule env io) ds ?t)) (rule_name (snd c)) = Some ap \<longrightarrow> entry_ok env (snd c) ap" by auto
    have "map_of (fst (fold (swap_rule env io) ds ?t)) (rule_name new) = map_of (fst ?t) (rule_name new)"
      by (rule fold_other) (use ds in \<open>metis map_of_swap\<close>)
    with ih map_of_start_same [OF none _ assms(4) new(2)] d t show ?case by auto
  qed simp
  then show "table_ok (fst (fold (swap_rule env io) cs t))"
    "c \<in> set cs \<Longrightarrow> map_of (fst (fold (swap_rule env io) cs t)) (rule_name (snd c)) = Some ap \<Longrightarrow> entry_ok env (snd c) ap" by simp_all
qed

lemma fold_stop:
  "table_ok (fst t) \<Longrightarrow> table_ok (fst (fold stop_rule xs t))"
  "map_of (fst (fold stop_rule xs t)) n = (if n \<in> rule_name ` set xs then None else map_of (fst t) n)"
  by (induction xs arbitrary: t) (auto simp: table_ok_stop)

text \<open>Every entry serves a rule of the set, on the address that rule asks for.\<close>

definition serves :: "sup_env \<Rightarrow> rule list \<Rightarrow> active_map \<Rightarrow> bool" where
  "serves env rs act \<longleftrightarrow>
     (\<forall>n ap. map_of act n = Some ap \<longrightarrow> (\<exists>r\<in>set rs. rule_name r = n \<and> entry_ok env r ap))"

lemma diff_distinct:
  assumes "distinct (map rule_name (rules cur))" "distinct (map rule_name (rules new))"
  shows "distinct (map rule_name (added (rule_set_diff cur new)))"
    "distinct (map (rule_name \<circ> snd) (changed (rule_set_diff cur new)))"
proof -
  show "distinct (map rule_name (added (rule_set_diff cur new)))"
    by (simp add: diff_closed(1) [OF assms] distinct_map_filter assms(2))
  have "distinct (map rule_name (map snd (changed (rule_set_diff cur new))))"
    by (simp add: diff_closed(5) [OF assms] distinct_map_filter assms(2))
  then show "distinct (map (rule_name \<circ> snd) (changed (rule_set_diff cur new)))" by simp
qed

lemma before_start:
  assumes "distinct (map rule_name (rules cur))" "distinct (map rule_name (rules new))"
    and "serves env (rules cur) (fst t)" "n \<notin> rule_name ` set (rules cur) \<or> n \<notin> rule_name ` set (rules new)"
  shows "map_of (fst (fold (swap_rule env io) (changed (rule_set_diff cur new)) (fold stop_rule (removed (rule_set_diff cur new)) t))) n = None"
proof -
  let ?d = "rule_set_diff cur new"
  note d = diff_names [OF assms(1,2)]
  have "n \<noteq> rule_name (fst c) \<and> n \<noteq> rule_name (snd c)" if "c \<in> set (changed ?d)" for c
    using d(3) [OF that] assms(4) by (metis imageI)
  then have "map_of (fst (fold (swap_rule env io) (changed ?d) (fold stop_rule (removed ?d) t))) n =
    map_of (fst (fold stop_rule (removed ?d) t)) n" by (intro fold_other) (simp add: map_of_swap)
  also have "\<dots> = None"
  proof (cases "map_of (fst t) n")
    case (Some ap)
    then obtain r where r: "r \<in> set (rules cur)" "rule_name r = n" using assms(3) by (auto simp: serves_def)
    then have "r \<in> set (filter (\<lambda>r. rule_name r \<notin> rule_name ` set (rules new)) (rules cur))" using assms(4) by auto
    then have "r \<in> set (removed ?d)" using diff_closed(2) [OF assms(1,2)] by (metis set_mset_mset)
    with r(2) show ?thesis by (auto simp: fold_stop(2))
  qed (simp add: fold_stop(2))
  finally show ?thesis .
qed

lemma apply_update_ok:
  assumes c: "distinct (map rule_name (rules cur))" and n: "distinct (map rule_name (rules new))"
    and t: "table_ok (fst t)" "serves env (rules cur) (fst t)" and k: "kernel_ok env io (rules new)"
  shows "table_ok (fst (apply_update env io (rule_set_diff cur new) t))"
    and "serves env (rules new) (fst (apply_update env io (rule_set_diff cur new) t))"
proof -
  let ?d = "rule_set_diff cur new"
  let ?s = "fold stop_rule (removed ?d) t"
  let ?c = "fold (swap_rule env io) (changed ?d) ?s"
  let ?u = "apply_update env io ?d t"
  note d = diff_names [OF c n] and dd = diff_distinct [OF c n]
  have cs: "\<forall>c\<in>set (changed ?d). rule_name (fst c) = rule_name (snd c)" "snd ` set (changed ?d) \<subseteq> set (rules new)" using d(3) by auto
  note sw = fold_swap [OF dd(2) cs(1) fold_stop(1) [OF t(1)] k cs(2)]
  have ad: "\<forall>x\<in>set (added ?d). map_of (fst ?c) (rule_name x) = None" "set (added ?d) \<subseteq> set (rules new)"
    using before_start [OF c n t(2)] d(2) by auto
  note st = fold_start [OF dd(1) ad(1) sw(1) k ad(2)]
  have other: "map_of (fst ?u) m = map_of (fst ?c) m" if "m \<notin> rule_name ` set (added ?d)" for m
    unfolding apply_update_def by (rule fold_other, rule map_of_start) (use that in auto)
  show "table_ok (fst ?u)" using st(1) by (simp add: apply_update_def)
  show "serves env (rules new) (fst ?u)"
    unfolding serves_def
  proof (intro allI impI)
    fix m ap assume m: "map_of (fst ?u) m = Some ap"
    show "\<exists>r\<in>set (rules new). rule_name r = m \<and> entry_ok env r ap"
    proof (cases "m \<in> rule_name ` set (added ?d)")
      case True
      then obtain x where "x \<in> set (added ?d)" "rule_name x = m" by auto
      with st(2) [where x = x and ap = ap] m d(2) show ?thesis by (auto simp: apply_update_def)
    next
      case False
      with m other have mc: "map_of (fst ?c) m = Some ap" by simp
      with before_start [OF c n t(2), of m] obtain a b where ab: "a \<in> set (rules cur)" "b \<in> set (rules new)"
        "rule_name a = m" "rule_name b = m" by fastforce
      show ?thesis
      proof (cases "a = b")
        case True
        with unchanged_entry [OF c n ab(1)] ab(2,3) m have "map_of (fst t) m = Some ap" by simp
        then obtain r where "r \<in> set (rules cur)" "rule_name r = m" "entry_ok env r ap" using t(2) by (auto simp: serves_def)
        with same_name [OF c ab(1)] ab True show ?thesis by metis
      next
        case False
        with ab have "(a, b) \<in> set (changed ?d)" by (simp add: diff_closed(4) [OF c n])
        with sw(2) [where c = "(a, b)" and ap = ap] mc ab show ?thesis by auto
      qed
    qed
  qed
qed

text \<open>The sets the loop receives have unique names, and the kernel binds what it is asked for.\<close>

fun event_ok :: "sup_env \<Rightarrow> 'u sup_event \<Rightarrow> bool" where
  "event_ok env (WatcherUpdate io new) \<longleftrightarrow> distinct (map rule_name (rules new)) \<and> kernel_ok env io (rules new)"
| "event_ok env (ExternalPush io new) \<longleftrightarrow> distinct (map rule_name (rules new)) \<and> kernel_ok env io (rules new)"
| "event_ok env WatcherClosed \<longleftrightarrow> True"
| "event_ok env SupCancelled \<longleftrightarrow> True"

definition sup_inv :: "sup_env \<Rightarrow> 'u sup_state \<Rightarrow> bool" where
  "sup_inv env s \<longleftrightarrow> distinct (map rule_name (rules (current_set s))) \<and> table_ok (fst (tables s)) \<and>
     serves env (rules (current_set s)) (fst (tables s))"

lemma apply_set_inv:
  "sup_inv env s \<Longrightarrow> distinct (map rule_name (rules new)) \<Longrightarrow> kernel_ok env io (rules new) \<Longrightarrow> sup_inv env (apply_set env io new s)"
  using apply_update_ok [of "current_set s" new "tables s" env io] by (simp add: sup_inv_def apply_set_def)

lemma sup_drain_inv: "sup_inv env s \<Longrightarrow> sup_inv env (sup_drain s)"
  by (auto simp: sup_inv_def sup_drain_def table_ok_def serves_def collect_claimed_addrs_def split: prod.split)

lemma sup_start_inv: "sup_inv env sup_start"
  by (simp add: sup_inv_def sup_start_def table_ok_def serves_def collect_claimed_addrs_def)

lemma supervisor_loop_inv:
  "sup_inv env s \<Longrightarrow> list_all (event_ok env) es \<Longrightarrow> sup_inv env (supervisor_loop env es s)"
  by (induction env es s rule: supervisor_loop.induct) (auto simp: apply_set_inv sup_drain_inv)

section \<open>Which rules come online\<close>

lemma serves_start:
  "serves env rs (fst t) \<Longrightarrow> kernel_ok env io ks \<Longrightarrow> r \<in> set ks \<Longrightarrow> r \<in> set rs \<Longrightarrow> serves env rs (fst (start_rule env io r t))"
  using spawn_entry [of env io r "fst t" _ ks]
  by (auto simp: serves_def start_rule_def update_conv' split: prod.splits sum.splits)

lemma serves_stop: "serves env rs (fst t) \<Longrightarrow> serves env rs (fst (stop_rule r t))"
  by (simp add: serves_def)

lemma serves_fold:
  assumes "serves env rs (fst t)" "\<And>x t. x \<in> set xs \<Longrightarrow> serves env rs (fst t) \<Longrightarrow> serves env rs (fst (f x t))"
  shows "serves env rs (fst (fold f xs t))"
  using assms by (induction xs arbitrary: t) auto

lemma serves_swap:
  "serves env rs (fst t) \<Longrightarrow> kernel_ok env io ks \<Longrightarrow> snd c \<in> set ks \<Longrightarrow> snd c \<in> set rs \<Longrightarrow> serves env rs (fst (swap_rule env io c t))"
  by (cases c) (simp add: swap_rule_def serves_start serves_stop)

lemma entry_claimed: "map_of act n = Some ap \<Longrightarrow> entry_ok env r ap \<Longrightarrow> claim_of env r \<in> set (collect_claimed_addrs act)"
  using map_of_SomeD [of act n ap] by (auto simp: collect_claimed_addrs_def entry_ok_def handle_protocol_def image_iff intro!: bexI [of _ "(n, ap)"])

lemma claimed_iff:
  assumes "table_ok act" "serves env rs act"
  shows "k \<in> set (collect_claimed_addrs act) \<longleftrightarrow> (\<exists>r\<in>set rs. claim_of env r = k \<and> (\<exists>ap. map_of act (rule_name r) = Some ap \<and> entry_ok env r ap))"
proof
  assume "k \<in> set (collect_claimed_addrs act)"
  then obtain n ap where n: "(n, ap) \<in> set act" "k = (handle_local_addr (ap_handle ap), handle_protocol (ap_handle ap))"
    by (auto simp: collect_claimed_addrs_def)
  then have m: "map_of act n = Some ap" using assms(1) by (simp add: table_ok_def)
  then obtain r where "r \<in> set rs" "rule_name r = n" "entry_ok env r ap" using assms(2) by (auto simp: serves_def)
  with m n(2) show "\<exists>r\<in>set rs. claim_of env r = k \<and> (\<exists>ap. map_of act (rule_name r) = Some ap \<and> entry_ok env r ap)"
    by (intro bexI [of _ r]) (auto simp: entry_ok_def handle_protocol_def)
next
  assume "\<exists>r\<in>set rs. claim_of env r = k \<and> (\<exists>ap. map_of act (rule_name r) = Some ap \<and> entry_ok env r ap)"
  then show "k \<in> set (collect_claimed_addrs act)"
    using entry_claimed by blast
qed

text \<open>A rule that would start on an empty table starts on any table in which its socket is free.\<close>

definition spawnable :: "sup_env \<Rightarrow> (rule \<Rightarrow> spawn_io) \<Rightarrow> rule \<Rightarrow> bool" where
  "spawnable env io r \<longleftrightarrow> (\<exists>ap. spawn_proxy_for_rule env (io r) r [] = Inr ap)"

lemma start_online:
  assumes "spawnable env io r" "table_ok (fst t)" "serves env rs (fst t)" "map_of (fst t) (rule_name r) = None"
    and "\<forall>x\<in>set rs. claim_of env x = claim_of env r \<longrightarrow> rule_name x = rule_name r"
  shows "\<exists>ap. map_of (fst (start_rule env io r t)) (rule_name r) = Some ap"
proof -
  have "claim_of env r \<notin> set (collect_claimed_addrs (fst t))"
    using claimed_iff [OF assms(2,3)] assms(4,5) by (metis option.distinct(1))
  with assms(1) obtain ap where "spawn_proxy_for_rule env (io r) r (fst t) = Inr ap"
    by (auto simp: spawnable_def spawn_proxy_for_rule_def Let_def split: if_splits)
  then show ?thesis by (auto simp: start_rule_def update_conv' split: prod.split)
qed

lemma added_online:
  assumes "distinct (map rule_name xs)" "\<forall>x\<in>set xs. map_of (fst t) (rule_name x) = None" "table_ok (fst t)" "serves env rs (fst t)"
    and "kernel_ok env io ks" "set xs \<subseteq> set ks" "set xs \<subseteq> set rs" "r \<in> set xs" "spawnable env io r"
    and "\<forall>x\<in>set rs. claim_of env x = claim_of env r \<longrightarrow> rule_name x = rule_name r"
  shows "\<exists>ap. map_of (fst (fold (start_rule env io) xs t)) (rule_name r) = Some ap"
proof -
  obtain ys zs where xs: "xs = ys @ r # zs" using assms(8) by (metis split_list)
  let ?t = "fold (start_rule env io) ys t"
  have o: "\<forall>y\<in>set ys \<union> set zs. rule_name y \<noteq> rule_name r" using assms(1) xs by auto (metis imageI)+
  have "table_ok (fst ?t)" by (rule fold_start(1) [OF _ _ assms(3,5)]) (use assms(1,2,6) xs in auto)
  moreover have "serves env rs (fst ?t)"
    by (rule serves_fold [OF assms(4)], rule serves_start [OF _ assms(5)]) (use assms(6,7) xs in auto)
  moreover have "map_of (fst ?t) (rule_name r) = map_of (fst t) (rule_name r)"
    by (rule fold_other, rule map_of_start) (use o in auto)
  ultimately have "\<exists>ap. map_of (fst (start_rule env io r ?t)) (rule_name r) = Some ap"
    using assms(2,8) by (intro start_online [OF assms(9) _ _ _ assms(10)]) auto
  moreover have "map_of (fst (fold (start_rule env io) zs (start_rule env io r ?t))) (rule_name r) =
      map_of (fst (start_rule env io r ?t)) (rule_name r)"
    by (rule fold_other, rule map_of_start) (use o in auto)
  ultimately show ?thesis by (simp add: xs)
qed

lemma changed_online:
  assumes "distinct (map (rule_name \<circ> snd) cs)" "\<forall>c\<in>set cs. rule_name (fst c) = rule_name (snd c)" "table_ok (fst t)" "serves env rs (fst t)"
    and "kernel_ok env io ks" "snd ` set cs \<subseteq> set ks" "snd ` set cs \<subseteq> set rs" "c \<in> set cs" "spawnable env io (snd c)"
    and "\<forall>x\<in>set rs. claim_of env x = claim_of env (snd c) \<longrightarrow> rule_name x = rule_name (snd c)"
  shows "\<exists>ap. map_of (fst (fold (swap_rule env io) cs t)) (rule_name (snd c)) = Some ap"
proof -
  obtain ys zs where cs: "cs = ys @ c # zs" using assms(8) by (metis split_list)
  let ?t = "fold (swap_rule env io) ys t" and ?r = "snd c"
  have r: "rule_name (fst c) = rule_name ?r" using assms(2,8) by blast
  have o: "\<forall>y\<in>set zs. rule_name ?r \<noteq> rule_name (fst y) \<and> rule_name ?r \<noteq> rule_name (snd y)"
    using assms(1,2) cs by (auto simp: image_iff)
  have "table_ok (fst ?t)" by (rule fold_swap(1) [OF _ _ assms(3,5)]) (use assms(1,2,6) cs in auto)
  moreover have "serves env rs (fst ?t)"
    by (rule serves_fold [OF assms(4)], rule serves_swap [OF _ assms(5)]) (use assms(6,7) cs in auto)
  ultimately have "\<exists>ap. map_of (fst (start_rule env io ?r (stop_rule (fst c) ?t))) (rule_name ?r) = Some ap"
    using r by (intro start_online [OF assms(9) _ _ _ assms(10)]) (auto simp: table_ok_stop serves_stop)
  then have "\<exists>ap. map_of (fst (swap_rule env io c ?t)) (rule_name ?r) = Some ap" by (cases c) (simp add: swap_rule_def)
  moreover have "map_of (fst (fold (swap_rule env io) zs (swap_rule env io c ?t))) (rule_name ?r) =
      map_of (fst (swap_rule env io c ?t)) (rule_name ?r)"
    by (rule fold_other, rule map_of_swap) (use o in auto)
  ultimately show ?thesis by (simp add: cs)
qed

lemma serves_more: "serves env rs act \<Longrightarrow> set rs \<subseteq> set qs \<Longrightarrow> serves env qs act"
  unfolding serves_def by blast

lemma apply_update_online:
  assumes c: "distinct (map rule_name (rules cur))" and n: "distinct (map rule_name (rules new))"
    and t: "table_ok (fst t)" "serves env (rules cur) (fst t)" and k: "kernel_ok env io (rules new)"
    and r: "r \<in> set (rules new)" "r \<notin> set (rules cur)" "spawnable env io r"
    and free: "\<forall>x\<in>set (rules cur @ rules new). claim_of env x = claim_of env r \<longrightarrow> rule_name x = rule_name r"
  shows "\<exists>ap. map_of (fst (apply_update env io (rule_set_diff cur new) t)) (rule_name r) = Some ap"
proof -
  let ?d = "rule_set_diff cur new" and ?rs = "rules cur @ rules new"
  let ?s = "fold stop_rule (removed ?d) t"
  let ?c = "fold (swap_rule env io) (changed ?d) ?s"
  note d = diff_names [OF c n] and dd = diff_distinct [OF c n]
  have cs: "\<forall>c\<in>set (changed ?d). rule_name (fst c) = rule_name (snd c)" "snd ` set (changed ?d) \<subseteq> set (rules new)"
    "snd ` set (changed ?d) \<subseteq> set ?rs" using d(3) by auto
  have s: "table_ok (fst ?s)" "serves env ?rs (fst ?s)"
    using fold_stop(1) [OF t(1)] serves_fold [of env ?rs t "removed ?d" stop_rule] serves_more [OF t(2)] serves_stop by auto
  have "serves env ?rs (fst ?c)"
    by (rule serves_fold [OF s(2)], rule serves_swap [OF _ k]) (use cs(2) in auto)
  note sc = fold_swap(1) [OF dd(2) cs(1) s(1) k cs(2)] this
  have ad: "\<forall>x\<in>set (added ?d). map_of (fst ?c) (rule_name x) = None" "set (added ?d) \<subseteq> set (rules new)" "set (added ?d) \<subseteq> set ?rs"
    using before_start [OF c n t(2)] d(2) by auto
  show ?thesis
  proof (cases "rule_name r \<in> rule_name ` set (rules cur)")
    case False
    with r(1) have "r \<in> set (added ?d)" by (simp add: diff_closed(1) [OF c n])
    then show ?thesis
      unfolding apply_update_def by (intro added_online [OF dd(1) ad(1) sc k ad(2,3) _ r(3) free])
  next
    case True
    then obtain a where a: "a \<in> set (rules cur)" "rule_name a = rule_name r" by auto
    with r have m: "(a, r) \<in> set (changed ?d)" by (auto simp: diff_closed(4) [OF c n])
    have "\<exists>ap. map_of (fst ?c) (rule_name r) = Some ap"
      using changed_online [OF dd(2) cs(1) s k cs(2,3) m] r(3) free by simp
    moreover have "map_of (fst (apply_update env io ?d t)) (rule_name r) = map_of (fst ?c) (rule_name r)"
      unfolding apply_update_def by (rule fold_other, rule map_of_start) (use d(2) True in metis)
    ultimately show ?thesis by simp
  qed
qed

section \<open>Exchanged listeners\<close>

lemma start_claimed:
  assumes "claim_of env r \<in> set (collect_claimed_addrs (fst t))"
  shows "start_rule env io r t = t"
  using assms by (simp add: start_rule_def spawn_proxy_for_rule_def Let_def case_prod_beta)

lemma changed_blocked:
  assumes c: "distinct (map rule_name (rules cur))" and n: "distinct (map rule_name (rules new))"
    and t: "table_ok (fst t)" "serves env (rules cur) (fst t)" and k: "kernel_ok env io (rules new)"
    and new: "rules new = xs @ r # ys" "rule_name r \<in> rule_name ` set (rules cur)" "r \<notin> set (rules cur)"
    and b: "b \<in> set (rules cur)" "rule_name b \<in> rule_name ` set ys" "map_of (fst t) (rule_name b) = Some ap"
    "claim_of env b = claim_of env r"
  shows "map_of (fst (apply_update env io (rule_set_diff cur new) t)) (rule_name r) = None"
proof -
  let ?d = "rule_set_diff cur new"
  let ?s = "fold stop_rule (removed ?d) t"
  note d = diff_names [OF c n] and dd = diff_distinct [OF c n]
  let ?P = "\<lambda>x. rule_name x \<in> rule_name ` set (rules cur) \<and> x \<notin> set (rules cur)"
  have "map snd (changed ?d) = filter ?P xs @ r # filter ?P ys" using new(2,3) by (simp add: diff_closed(5) [OF c n] new(1))
  then obtain ps q qs where ch: "changed ?d = ps @ q # qs" "map snd ps = filter ?P xs" "snd q = r" "map snd qs = filter ?P ys"
    by (auto simp: map_eq_append_conv map_eq_Cons_conv)
  have cs: "\<forall>c\<in>set (changed ?d). rule_name (fst c) = rule_name (snd c)" "snd ` set (changed ?d) \<subseteq> set (rules new)" using d(3) by auto
  have q: "rule_name (fst q) = rule_name r" using cs(1) ch(1,3) by auto
  have bn: "rule_name b \<in> rule_name ` set (rules new)" "rule_name b \<noteq> rule_name r" using b(2) n new(1) by auto
  have px: "rule_name b \<noteq> rule_name (fst y) \<and> rule_name b \<noteq> rule_name (snd y)" if "y \<in> set ps" for y
  proof -
    have "snd y \<in> set (map snd ps)" using that by simp
    then have "snd y \<in> set xs" unfolding ch(2) by simp
    then have "rule_name (snd y) \<noteq> rule_name b" using b(2) n new(1) by auto
    then show ?thesis using cs(1) ch(1) that by auto
  qed
  have others: "rule_name r \<noteq> rule_name (fst y) \<and> rule_name r \<noteq> rule_name (snd y)" if "y \<in> set qs" for y
    using dd(2) cs(1) ch(1,3) that by (auto simp: image_iff)
  let ?t = "stop_rule (fst q) (fold (swap_rule env io) ps ?s)"
  have tb: "map_of (fst ?t) (rule_name b) = Some ap"
  proof -
    have "rule_name b \<notin> rule_name ` set (removed ?d)" using d(1) bn(1) by (metis imageE)
    then have "map_of (fst ?s) (rule_name b) = Some ap" by (simp add: fold_stop(2) b(3))
    moreover have "map_of (fst (fold (swap_rule env io) ps ?s)) (rule_name b) = map_of (fst ?s) (rule_name b)"
      by (rule fold_other, rule map_of_swap) (use px in auto)
    ultimately show ?thesis using bn(2) q by simp
  qed
  obtain b' where "b' \<in> set (rules cur)" "rule_name b' = rule_name b" "entry_ok env b' ap" using t(2) b(3) by (auto simp: serves_def)
  then have "entry_ok env b ap" using same_name [OF c b(1)] by metis
  from entry_claimed [OF tb this] b(4) have "claim_of env r \<in> set (collect_claimed_addrs (fst ?t))" by simp
  then have sq: "swap_rule env io q (fold (swap_rule env io) ps ?s) = ?t"
    using start_claimed [of env r ?t io] ch(3) by (cases q) (simp add: swap_rule_def)
  have "map_of (fst (fold (swap_rule env io) (changed ?d) ?s)) (rule_name r) = map_of (fst ?t) (rule_name r)"
    unfolding ch(1) fold_append fold_Cons comp_def sq by (rule fold_other, rule map_of_swap) (use others in auto)
  also have "\<dots> = None" using q by simp
  finally show ?thesis
    unfolding apply_update_def by (subst fold_other) (use d(2) new(2) in \<open>metis map_of_start\<close>)+
qed

fun event_has :: "rule \<Rightarrow> 'u sup_event \<Rightarrow> bool" where
  "event_has r (WatcherUpdate io new) \<longleftrightarrow> r \<in> set (rules new)"
| "event_has r (ExternalPush io new) \<longleftrightarrow> r \<in> set (rules new)"
| "event_has r WatcherClosed \<longleftrightarrow> True"
| "event_has r SupCancelled \<longleftrightarrow> True"

lemma stays_offline:
  assumes "distinct (map rule_name (rules (current_set s)))" "r \<in> set (rules (current_set s))"
    and "map_of (fst (tables s)) (rule_name r) = None"
    and "list_all (event_ok env) es" "list_all (event_has r) es"
  shows "map_of (fst (tables (supervisor_loop env es s))) (rule_name r) = None"
  using assms
  by (induction env es s rule: supervisor_loop.induct)
    (auto simp: apply_set_def unchanged_entry sup_drain_def split: prod.split)

text \<open>The proxies a reload stops, on top of those stopped before, are not those of the name \<open>m\<close>.\<close>

definition spared :: "string \<Rightarrow> proxy_handle list \<Rightarrow> sup_tables \<Rightarrow> bool" where
  "spared m before t \<longleftrightarrow> (\<exists>hs. snd t = before @ hs \<and> (\<forall>h\<in>set hs. handle_name h \<noteq> m))"

lemma spared_stop:
  assumes "spared m before t" "serves env rs (fst t)" "rule_name r \<noteq> m"
  shows "spared m before (stop_rule r t)"
proof (cases "map_of (fst t) (rule_name r)")
  case (Some ap)
  then have "handle_name (ap_handle ap) = rule_name r"
    using assms(2) unfolding serves_def entry_ok_def handle_name_def by (metis override_simps(1))
  moreover obtain hs where "snd t = before @ hs" "\<forall>h\<in>set hs. handle_name h \<noteq> m" using assms(1) by (auto simp: spared_def)
  ultimately show ?thesis
    using Some assms(3) by (auto simp: spared_def stop_rule_def case_prod_beta intro!: exI [of _ "hs @ [ap_handle ap]"])
qed (use assms(1) in \<open>simp add: stop_rule_def spared_def case_prod_beta\<close>)

lemma start_stops_none [simp]: "snd (start_rule env io r t) = snd t"
  by (auto simp: start_rule_def split: prod.split sum.split)

lemma spared_start [simp]: "spared m before (start_rule env io r t) \<longleftrightarrow> spared m before t"
  by (simp add: spared_def)

lemma fold_both:
  assumes "P t" "Q t" "\<And>x t. x \<in> set xs \<Longrightarrow> P t \<Longrightarrow> Q t \<Longrightarrow> P (f x t) \<and> Q (f x t)"
  shows "P (fold f xs t) \<and> Q (fold f xs t)"
  using assms by (induction xs arbitrary: t) auto

lemma unchanged_spared:
  assumes c: "distinct (map rule_name (rules cur))" and n: "distinct (map rule_name (rules new))"
    and t: "serves env (rules cur) (fst t)" and k: "kernel_ok env io (rules new)"
    and r: "r \<in> set (rules cur)" "r \<in> set (rules new)"
  shows "spared (rule_name r) (snd t) (apply_update env io (rule_set_diff cur new) t)"
proof -
  let ?d = "rule_set_diff cur new" and ?P = "\<lambda>t'. serves env (rules cur @ rules new) (fst t')"
  let ?Q = "spared (rule_name r) (snd t)"
  note d = diff_names [OF c n]
  have "?P (fold stop_rule (removed ?d) t) \<and> ?Q (fold stop_rule (removed ?d) t)"
  proof (rule fold_both)
    show "?P t" using serves_more [OF t] by simp
    show "?Q t" by (simp add: spared_def)
    fix x t' assume x: "x \<in> set (removed ?d)" and pq: "?P t'" "?Q t'"
    then show "?P (stop_rule x t') \<and> ?Q (stop_rule x t')"
      using serves_stop spared_stop [OF pq(2,1)] d(1) [OF x] r(2) by (metis imageI)
  qed
  moreover have "?P (swap_rule env io x t') \<and> ?Q (swap_rule env io x t')" if x: "x \<in> set (changed ?d)" "?P t'" "?Q t'" for x t'
  proof -
    have "rule_name (fst x) \<noteq> rule_name r" using d(3) [OF x(1)] same_name [OF n r(2)] r(1) by metis
    with spared_stop [OF x(3,2)] have "?Q (stop_rule (fst x) t')" by simp
    then have "?Q (swap_rule env io x t')" by (cases x) (simp add: swap_rule_def)
    moreover have "?P (swap_rule env io x t')" by (rule serves_swap [OF x(2) k]) (use d(3) [OF x(1)] in auto)
    ultimately show ?thesis by simp
  qed
  ultimately have "?Q (fold (swap_rule env io) (changed ?d) (fold stop_rule (removed ?d) t))"
    using fold_both [of ?P _ ?Q "changed ?d" "swap_rule env io"] by blast
  then show ?thesis
    unfolding apply_update_def using fold_both [of ?Q _ ?Q "added ?d" "start_rule env io"] by simp
qed

section \<open>Properties\<close>

text \<open>
  C11: a reload never touches a rule that is the same in the old and the new set: whatever else is
  stopped, swapped or started, and whichever of those starts fail, its table entry is the very
  one that was there before, and none of the proxies the reload stopped has its name.
\<close>

theorem reload_spares_unchanged:
  assumes "sup_inv env s" "distinct (map rule_name (rules new))" "kernel_ok env io (rules new)"
    and "r \<in> set (rules (current_set s))" "r \<in> set (rules new)"
  shows "map_of (fst (tables (apply_set env io new s))) (rule_name r) = map_of (fst (tables s)) (rule_name r) \<and>
    (\<exists>hs. snd (tables (apply_set env io new s)) = snd (tables s) @ hs \<and> (\<forall>h\<in>set hs. handle_name h \<noteq> rule_name r))"
  using assms unchanged_entry [of "current_set s" new r env io "tables s"] unchanged_spared [of "current_set s" new env "tables s" io r]
  by (simp add: apply_set_def sup_inv_def spared_def)

definition demo_env :: sup_env where
  "demo_env = \<lparr>resolver_factory_of = new_relay, default_bind = None, default_workers = Some 1, available_parallelism = None\<rparr>"

definition demo_io :: "rule \<Rightarrow> spawn_io" where
  "demo_io r = \<lparr>bound = Some (listen r), bound_others = []\<rparr>"

definition demo_set :: "rule list \<Rightarrow> unit rule_set" where
  "demo_set rs = \<lparr>rules = rs, routes = []\<rparr>"

lemma demo_kernel [simp]: "kernel_ok demo_env demo_io rs"
  by (simp add: kernel_ok_def demo_env_def demo_io_def with_bind_override_def)

lemma demo_inv: "distinct (map rule_name rs) \<Longrightarrow> sup_inv demo_env (apply_set demo_env demo_io (demo_set rs) sup_start)"
  by (rule apply_set_inv) (simp_all add: sup_start_inv demo_set_def)

lemma demo_spawnable [simp]: "spawnable demo_env demo_io (plain_rule n p q)"
  by (simp add: spawnable_def plain_rule_def demo_env_def demo_io_def with_bind_override_def spawn_proxy_for_rule_def
      collect_claimed_addrs_def build_def parsed_target_def new_relay_def rbind_def map_err_def spawn_handle_def
      tcp_spawn_with_arm_table_def build_tcp_listener_sockets_def resolve_workers_def)

lemma demo_claim [simp]: "claim_of demo_env r = (listen r, protocol r)"
  by (simp add: demo_env_def with_bind_override_def)

theorem reload_spares_unchanged_witness:
  "let s = apply_set demo_env demo_io (demo_set [plain_rule ''a'' 1 1, plain_rule ''b'' 2 2]) sup_start;
       new = demo_set [plain_rule ''b'' 2 2, plain_rule ''a'' 3 3]
   in map_of (fst (tables (apply_set demo_env demo_io new s))) ''b'' = map_of (fst (tables s)) ''b'' \<and>
      (\<exists>hs. snd (tables (apply_set demo_env demo_io new s)) = snd (tables s) @ hs \<and> (\<forall>h\<in>set hs. handle_name h \<noteq> ''b''))"
  unfolding Let_def
  using reload_spares_unchanged [OF demo_inv, of "[plain_rule ''a'' 1 1, plain_rule ''b'' 2 2]"
      "demo_set [plain_rule ''b'' 2 2, plain_rule ''a'' 3 3]" demo_io "plain_rule ''b'' 2 2"]
  by (simp add: plain_rule_def demo_set_def apply_set_def)

text \<open>
  C12: whatever sequence of rule sets the watcher and the external push deliver, the table never
  holds two proxies of one name or of one listening socket, and every proxy in it serves a rule of
  the set applied last, with that rule's current contents and on the address it asks for.
\<close>

theorem supervisor_serves_current_set:
  assumes "list_all (event_ok env) es"
  shows "let s = supervisor_loop env es sup_start; act = fst (tables s) in
    distinct (map fst act) \<and> distinct (collect_claimed_addrs act) \<and>
    (\<forall>n ap. map_of act n = Some ap \<longrightarrow> (\<exists>r\<in>set (rules (current_set s)). rule_name r = n \<and>
       handle_rule (ap_handle ap) = with_bind_override (default_bind env) r \<and>
       handle_local_addr (ap_handle ap) = listen (with_bind_override (default_bind env) r)))"
  using supervisor_loop_inv [OF sup_start_inv assms]
  unfolding sup_inv_def table_ok_def serves_def entry_ok_def Let_def by blast

theorem supervisor_serves_current_set_witness:
  "let s = supervisor_loop demo_env
        [WatcherUpdate demo_io (demo_set [plain_rule ''a'' 1 1]), ExternalPush demo_io (demo_set [plain_rule ''a'' 2 2])] sup_start;
       act = fst (tables s) in
    distinct (map fst act) \<and> distinct (collect_claimed_addrs act) \<and>
    (\<forall>n ap. map_of act n = Some ap \<longrightarrow> (\<exists>r\<in>set (rules (current_set s)). rule_name r = n \<and>
       handle_rule (ap_handle ap) = with_bind_override (default_bind demo_env) r \<and>
       handle_local_addr (ap_handle ap) = listen (with_bind_override (default_bind demo_env) r)))"
  by (rule supervisor_serves_current_set) (simp add: demo_set_def)

text \<open>
  C13: a reload brings online every new or changed rule that can start at all and whose socket is not
  asked for by a rule of another name in the old or the new set.
\<close>

theorem reload_brings_rules_online:
  assumes "sup_inv env s" "distinct (map rule_name (rules new))" "kernel_ok env io (rules new)"
    and "r \<in> set (rules new)" "r \<notin> set (rules (current_set s))" "spawnable env io r"
    and "\<forall>x\<in>set (rules (current_set s) @ rules new). claim_of env x = claim_of env r \<longrightarrow> rule_name x = rule_name r"
  shows "\<exists>ap. map_of (fst (tables (apply_set env io new s))) (rule_name r) = Some ap \<and>
    handle_rule (ap_handle ap) = with_bind_override (default_bind env) r"
proof -
  have i: "distinct (map rule_name (rules (current_set s)))" "table_ok (fst (tables s))"
    "serves env (rules (current_set s)) (fst (tables s))" using assms(1) by (simp_all add: sup_inv_def)
  let ?u = "apply_update env io (rule_set_diff (current_set s) new) (tables s)"
  obtain ap where ap: "map_of (fst ?u) (rule_name r) = Some ap"
    using apply_update_online [OF i(1) assms(2) i(2,3) assms(3-7)] by blast
  then obtain x where "x \<in> set (rules new)" "rule_name x = rule_name r" "entry_ok env x ap"
    using apply_update_ok(2) [OF i(1) assms(2) i(2,3) assms(3)] unfolding serves_def by blast
  with same_name [OF assms(2,4)] have "entry_ok env r ap" by metis
  with ap show ?thesis by (simp add: apply_set_def entry_ok_def)
qed

theorem reload_brings_rules_online_witness:
  "let s = apply_set demo_env demo_io (demo_set [plain_rule ''a'' 1 1]) sup_start; r = plain_rule ''a'' 2 2
   in \<exists>ap. map_of (fst (tables (apply_set demo_env demo_io (demo_set [r]) s))) (rule_name r) = Some ap \<and>
     handle_rule (ap_handle ap) = with_bind_override (default_bind demo_env) r"
  unfolding Let_def
  by (rule reload_brings_rules_online [OF demo_inv])
    (auto simp: plain_rule_def [of _ 1] demo_set_def apply_set_def, simp_all add: plain_rule_def)

text \<open>
  C35: when an edited rule takes over the socket of a running rule that comes after it in the new set
  (two rules that exchange their listen addresses, for one), it is stopped, its replacement is
  refused because the other proxy still holds the socket, and it stays offline as long as the later
  sets contain it unchanged, although its socket is free once the reload is over.
\<close>

theorem exchanged_listener_stays_offline:
  assumes "sup_inv env s" "distinct (map rule_name (rules new))" "kernel_ok env io (rules new)"
    and "rules new = xs @ r # ys" "rule_name r \<in> rule_name ` set (rules (current_set s))" "r \<notin> set (rules (current_set s))"
    and "b \<in> set (rules (current_set s))" "rule_name b \<in> rule_name ` set ys" "map_of (fst (tables s)) (rule_name b) = Some ap"
    and "claim_of env b = claim_of env r"
    and "list_all (event_ok env) es" "list_all (event_has r) es"
  shows "map_of (fst (tables (supervisor_loop env es (apply_set env io new s)))) (rule_name r) = None"
proof (rule stays_offline [OF _ _ _ assms(11,12)])
  show "distinct (map rule_name (rules (current_set (apply_set env io new s))))"
    "r \<in> set (rules (current_set (apply_set env io new s)))" using assms(2,4) by (simp_all add: apply_set_def)
  have i: "distinct (map rule_name (rules (current_set s)))" "table_ok (fst (tables s))"
    "serves env (rules (current_set s)) (fst (tables s))" using assms(1) by (simp_all add: sup_inv_def)
  show "map_of (fst (tables (apply_set env io new s))) (rule_name r) = None"
    using changed_blocked [OF i(1) assms(2) i(2,3) assms(3-10)] by (simp add: apply_set_def)
qed

theorem exchanged_listener_stays_offline_witness:
  "let s = apply_set demo_env demo_io (demo_set [plain_rule ''a'' 1 1, plain_rule ''b'' 2 2]) sup_start;
       new = demo_set [plain_rule ''a'' 2 1, plain_rule ''b'' 1 2]
   in map_of (fst (tables s)) ''a'' \<noteq> None \<and>
      map_of (fst (tables (supervisor_loop demo_env [WatcherUpdate demo_io new] (apply_set demo_env demo_io new s)))) ''a'' = None"
proof -
  let ?set = "demo_set [plain_rule ''a'' 1 1, plain_rule ''b'' 2 2]"
  let ?s = "apply_set demo_env demo_io ?set sup_start"
  let ?new = "demo_set [plain_rule ''a'' 2 1, plain_rule ''b'' 1 2]"
  have on: "\<exists>ap. map_of (fst (tables ?s)) (rule_name r) = Some ap" if "r \<in> {plain_rule ''a'' 1 1, plain_rule ''b'' 2 2}" for r
    unfolding apply_set_def sup_state.simps
    by (rule apply_update_online [where env = demo_env])
      (use that in \<open>auto simp: sup_start_def demo_set_def table_ok_def collect_claimed_addrs_def serves_def, auto simp: plain_rule_def\<close>)
  obtain ap where b: "map_of (fst (tables ?s)) (rule_name (plain_rule ''b'' 2 2)) = Some ap" using on by blast
  have "map_of (fst (tables (supervisor_loop demo_env [WatcherUpdate demo_io ?new] (apply_set demo_env demo_io ?new ?s))))
      (rule_name (plain_rule ''a'' 2 1)) = None"
    by (rule exchanged_listener_stays_offline [OF demo_inv, where xs = "[]" and ys = "[plain_rule ''b'' 1 2]", OF _ _ _ _ _ _ _ _ b])
      (simp_all add: demo_set_def apply_set_def, simp_all add: plain_rule_def)
  with on [of "plain_rule ''a'' 1 1"] show ?thesis unfolding Let_def by (simp add: plain_rule_def)
qed

end
