(* ===== verification/Lan_Cidrs.thy ===== *)
theory Lan_Cidrs
  imports Net_V6
begin

unbundle bit_operations_syntax

text \<open>
  The set of networks whose clients may use routes without a certificate (crate \<open>yggdrasil\<close>, file
  \<open>lan_cidrs.rs\<close>): parsing of CIDR notation, the prefix test on words of 32 and 128 bits, the default
  set and the override. Error texts of the standard library's parsers are left out of the error values.
\<close>

section \<open>Definitions\<close>

record ip_cidr =
  network :: ip_addr
  prefix :: u8

datatype cidr_parse_error = MissingSlash string | InvalidAddr string | InvalidPrefix string
  | PrefixTooLarge string string u8

definition cidr_parse :: "string \<Rightarrow> cidr_parse_error + ip_cidr" where
  "cidr_parse s =
     (case split_once CHR ''/'' s of
        None \<Rightarrow> Inl (MissingSlash s)
      | Some (addr_str, prefix_str) \<Rightarrow>
          (case parse_ip addr_str of
             None \<Rightarrow> Inl (InvalidAddr s)
           | Some ip \<Rightarrow>
               (case parse_u8 prefix_str of
                  None \<Rightarrow> Inl (InvalidPrefix s)
                | Some p \<Rightarrow>
                    (case ip of
                       V4 _ \<Rightarrow> if 32 < p then Inl (PrefixTooLarge s ''IPv4'' p) else Inr \<lparr>network = ip, prefix = p\<rparr>
                     | V6 _ \<Rightarrow> if 128 < p then Inl (PrefixTooLarge s ''IPv6'' p) else Inr \<lparr>network = ip, prefix = p\<rparr>))))"

definition v4_prefix_match :: "u32 \<Rightarrow> u32 \<Rightarrow> u8 \<Rightarrow> bool" where
  "v4_prefix_match a b p =
     (if p = 0 then True
      else if 32 < p then False
      else let mask = (if p = 32 then - 1 else push_bit (32 - unat p) (- 1)) in a AND mask = b AND mask)"

definition v6_prefix_match :: "u128 \<Rightarrow> u128 \<Rightarrow> u8 \<Rightarrow> bool" where
  "v6_prefix_match a b p =
     (if p = 0 then True
      else if 128 < p then False
      else let mask = (if p = 128 then - 1 else push_bit (128 - unat p) (- 1)) in a AND mask = b AND mask)"

definition cidr_contains :: "ip_cidr \<Rightarrow> ip_addr \<Rightarrow> bool" where
  "cidr_contains c ip =
     (case (network c, ip) of
        (V4 net, V4 peer) \<Rightarrow> v4_prefix_match net peer (prefix c)
      | (V6 net, V6 peer) \<Rightarrow> v6_prefix_match net peer (prefix c)
      | _ \<Rightarrow> False)"

definition show_cidr :: "ip_cidr \<Rightarrow> string" where
  "show_cidr c = show_ip (network c) @ ''/'' @ show_nat (unat (prefix c))"

definition DEFAULT_LAN_CIDR_STRINGS :: "string list" where
  "DEFAULT_LAN_CIDR_STRINGS =
     [''127.0.0.0/8'', ''10.0.0.0/8'', ''172.16.0.0/12'', ''192.168.0.0/16'', ''::1/128'', ''fc00::/7'']"

datatype lan_cidrs_source = SourceDefault | SourceOverride

record lan_cidrs =
  cidrs :: "ip_cidr list"
  lan_source :: lan_cidrs_source

text \<open>The default list is parsed with \<open>expect\<close>; that this cannot panic is part of the property below.\<close>

definition lan_resolve :: "string list option \<Rightarrow> cidr_parse_error + lan_cidrs" where
  "lan_resolve override_cidrs =
     (case override_cidrs of
        Some operator_list \<Rightarrow>
          rbind (try_map cidr_parse operator_list) (\<lambda>cs. Inr \<lparr>cidrs = cs, lan_source = SourceOverride\<rparr>)
      | None \<Rightarrow>
          rbind (try_map cidr_parse DEFAULT_LAN_CIDR_STRINGS) (\<lambda>cs. Inr \<lparr>cidrs = cs, lan_source = SourceDefault\<rparr>))"

definition lan_contains :: "lan_cidrs \<Rightarrow> ip_addr \<Rightarrow> bool" where
  "lan_contains l peer = list_ex (\<lambda>c. cidr_contains c peer) (cidrs l)"

definition as_strings :: "lan_cidrs \<Rightarrow> string list" where
  "as_strings l = map show_cidr (cidrs l)"

section \<open>Prefixes\<close>

lemma mask_eq_iff:
  fixes a b :: "'a::len word"
  shows "a AND NOT (mask n) = b AND NOT (mask n) \<longleftrightarrow> drop_bit n a = drop_bit n b"
proof
  assume e: "a AND NOT (mask n) = b AND NOT (mask n)"
  show "drop_bit n a = drop_bit n b"
  proof (rule bit_word_eqI)
    fix k assume "k < LENGTH('a)"
    show "bit (drop_bit n a) k = bit (drop_bit n b) k"
    proof (cases "n + k < LENGTH('a)")
      case True
      with e have "bit (a AND NOT (mask n)) (n + k) = bit (b AND NOT (mask n)) (n + k)" by simp
      with True show ?thesis by (simp add: bit_simps)
    qed (auto simp: bit_simps dest: bit_imp_le_length)
  qed
next
  assume e: "drop_bit n a = drop_bit n b"
  show "a AND NOT (mask n) = b AND NOT (mask n)"
  proof (rule bit_word_eqI)
    fix k assume "k < LENGTH('a)"
    from e have "bit (drop_bit n a) (k - n) = bit (drop_bit n b) (k - n)" by simp
    then show "bit (a AND NOT (mask n)) k = bit (b AND NOT (mask n)) k"
      by (auto simp: bit_simps)
  qed
qed

lemma drop_bit_eq_iff:
  fixes a b :: "'a::len word"
  shows "drop_bit n a = drop_bit n b \<longleftrightarrow> unat a div 2 ^ n = unat b div 2 ^ n"
  by (metis unat_drop_bit_eq drop_bit_eq_div word_unat_eq_iff)

lemma v4_prefix_match_iff:
  assumes "p \<le> 32"
  shows "v4_prefix_match a b p \<longleftrightarrow> unat a div 2 ^ (32 - unat p) = unat b div 2 ^ (32 - unat p)"
proof -
  consider "p = 0" | "p = 32" | "p \<noteq> 0" "p \<noteq> 32" by blast
  then show ?thesis
  proof cases
    case 1
    have "unat a div 4294967296 = 0" "unat b div 4294967296 = 0" using unat_bound [of a] unat_bound [of b] by simp_all
    with 1 show ?thesis by (simp add: v4_prefix_match_def)
  next
    case 3
    with assms show ?thesis
      by (simp add: v4_prefix_match_def Let_def mask_eq_iff drop_bit_eq_iff not_less [symmetric])
  qed (simp add: v4_prefix_match_def unsigned_word_eqI, simp add: word_unat_eq_iff)
qed

lemma v6_prefix_match_iff:
  assumes "p \<le> 128"
  shows "v6_prefix_match a b p \<longleftrightarrow> unat a div 2 ^ (128 - unat p) = unat b div 2 ^ (128 - unat p)"
proof -
  consider "p = 0" | "p = 128" | "p \<noteq> 0" "p \<noteq> 128" by blast
  then show ?thesis
  proof cases
    case 1
    have "unat a div 2 ^ 128 = 0" "unat b div 2 ^ 128 = 0" using unat_bound [of a] unat_bound [of b] by (simp_all add: div_less)
    with 1 show ?thesis by (simp add: v6_prefix_match_def)
  next
    case 3
    with assms show ?thesis
      by (simp add: v6_prefix_match_def Let_def mask_eq_iff drop_bit_eq_iff not_less [symmetric])
  qed (simp add: v6_prefix_match_def unsigned_word_eqI, simp add: word_unat_eq_iff)
qed

section \<open>Text form\<close>

lemma parse_u8_show: "parse_u8 (show_nat (unat p)) = Some p"
proof -
  have td: "take_digits 10 (show_nat (unat p)) = (radix_digits 10 (unat p), [])"
    using take_digits_show_radix [of 10 "[]" "unat p"] by (simp add: show_nat_def)
  obtain c cs where s: "show_nat (unat p) = c # cs"
    by (cases "show_nat (unat p)") (simp_all add: show_nat_def show_radix_digits)
  have "to_digit 10 c \<noteq> None" using td s by (auto split: option.splits prod.splits)
  then have "c \<noteq> CHR ''+''" by (auto simp: to_digit_def)
  with td s show ?thesis by (simp add: parse_u8_def parse_uint_def radix_digits_value)
qed

lemma show_radix_no_slash: "r \<le> 16 \<Longrightarrow> 2 \<le> r \<Longrightarrow> CHR ''/'' \<notin> set (show_radix r g)"
proof
  assume r: "r \<le> 16" "2 \<le> r" and "CHR ''/'' \<in> set (show_radix r g)"
  then obtain d where d: "d \<in> set (radix_digits r g)" "digit_char d = CHR ''/''"
    unfolding show_radix_digits by auto
  then have "d < 36" using radix_digits_less [of r g] r by auto
  with to_digit_char [of d 36] d(2) have "to_digit 36 (CHR ''/'') = Some d" by simp
  then show False by (simp add: to_digit_def)
qed

lemma set_join: "c \<notin> set sep \<Longrightarrow> \<forall>x\<in>set xs. c \<notin> set x \<Longrightarrow> c \<notin> set (join sep xs)"
  by (induction sep xs rule: join.induct) auto

lemma show_ip_no_slash: "CHR ''/'' \<notin> set (show_ip ip)"
proof -
  have dec: "CHR ''/'' \<notin> set (show_ipv4 a)" for a
    unfolding show_ipv4_def by (rule set_join) (auto simp: show_nat_def show_radix_no_slash)
  have hex: "CHR ''/'' \<notin> set (join '':'' (map (show_radix 16) gs))" for gs
    by (rule set_join) (auto simp: show_radix_no_slash)
  show ?thesis by (cases ip) (auto simp: show_ipv6_def Let_def dec hex split: prod.split)
qed

lemma read_ipv4_of_v6: "read_ipv4_addr (show_ipv6 w) = None"
proof -
  have colon: "read_ipv4_addr (CHR '':'' # s) = None" for s by (rule no_digit_ipv4) auto
  have group: "read_ipv4_addr (show_radix 16 g @ more_groups gs @ rest) = None" if "rest = [] \<or> (\<exists>u. rest = CHR '':'' # u)" for g gs rest
    by (rule read_ipv4_hex) (use that in \<open>cases gs; auto\<close>)+
  have hex: "read_ipv4_addr (hex_groups gs @ rest) = None" if "gs \<noteq> [] \<or> rest \<noteq> []" "rest = [] \<or> (\<exists>u. rest = CHR '':'' # u)" for gs rest
  proof (cases gs)
    case (Cons g hs)
    then show ?thesis using group [OF that(2), of g hs] by (simp only: hex_groups_Cons append_assoc)
  qed (use that colon in auto)
  have "segments w \<noteq> []" using length_segments [of w] by (metis length_0_conv zero_neq_numeral)
  with hex [of "segments w" "[]"] have plain: "read_ipv4_addr (hex_groups (segments w)) = None" by simp
  show ?thesis
    unfolding show_ipv6_def Let_def using colon plain by (auto intro!: hex split: prod.split)
qed

lemma parse_ip_show: "parse_ip (show_ip ip) = Some ip"
proof (cases ip)
  case (V6 w)
  with parse_ipv6_show [of w] read_ipv4_of_v6 [of w] show ?thesis
    by (auto simp: parse_whole_def read_ip_addr_def split: option.splits list.splits prod.splits)
qed (use parse_ip_show_v4 in simp)

text \<open>A network prints and parses back, with every prefix its family allows.\<close>

definition cidr_ok :: "ip_cidr \<Rightarrow> bool" where
  "cidr_ok c \<longleftrightarrow> prefix c \<le> (case network c of V4 _ \<Rightarrow> 32 | V6 _ \<Rightarrow> 128)"

lemma cidr_parse_show:
  assumes "cidr_ok c"
  shows "cidr_parse (show_cidr c) = Inr c"
proof -
  have "split_once CHR ''/'' (show_cidr c) = Some (show_ip (network c), show_nat (unat (prefix c)))"
    unfolding show_cidr_def using split_once_append [OF show_ip_no_slash] by simp
  with assms show ?thesis
    by (simp add: cidr_parse_def parse_ip_show parse_u8_show cidr_ok_def not_less split: ip_addr.splits)
qed

lemma cidr_parse_ok: "cidr_parse s = Inr c \<Longrightarrow> cidr_ok c"
  by (auto simp: cidr_parse_def cidr_ok_def not_less split: option.splits ip_addr.splits if_splits)

lemma cidr_contains_iff:
  assumes "cidr_ok c"
  shows "cidr_contains c ip \<longleftrightarrow>
    (case (network c, ip) of
       (V4 a, V4 b) \<Rightarrow> unat a div 2 ^ (32 - unat (prefix c)) = unat b div 2 ^ (32 - unat (prefix c))
     | (V6 a, V6 b) \<Rightarrow> unat a div 2 ^ (128 - unat (prefix c)) = unat b div 2 ^ (128 - unat (prefix c))
     | _ \<Rightarrow> False)"
  using assms
  by (auto simp: cidr_contains_def cidr_ok_def v4_prefix_match_iff v6_prefix_match_iff split: ip_addr.splits)

lemma parse_default:
  "cidr_parse ''127.0.0.0/8'' = Inr \<lparr>network = V4 0x7F000000, prefix = 8\<rparr>"
  "cidr_parse ''10.0.0.0/8'' = Inr \<lparr>network = V4 0x0A000000, prefix = 8\<rparr>"
  "cidr_parse ''172.16.0.0/12'' = Inr \<lparr>network = V4 0xAC100000, prefix = 12\<rparr>"
  "cidr_parse ''192.168.0.0/16'' = Inr \<lparr>network = V4 0xC0A80000, prefix = 16\<rparr>"
  by (simp_all add: cidr_parse_def parse_u8_def parse_uint_def codec_simps)

lemma replicate_7: "replicate 7 x = [x, x, x, x, x, x, x]"
  by (simp add: numeral_eq_Suc)

lemma parse_default_v6:
  "cidr_parse ''::1/128'' = Inr \<lparr>network = V6 1, prefix = 128\<rparr>"
  "cidr_parse ''fc00::/7'' = Inr \<lparr>network = V6 (0xFC00 * 2 ^ 112), prefix = 7\<rparr>"
  by (simp_all add: cidr_parse_def parse_u8_def parse_uint_def segments_value_def replicate_7 codec_simps)

section \<open>Membership\<close>

lemma lan_contains_iff:
  assumes "lan_resolve (Some ss) = Inr l"
  shows "lan_contains l ip \<longleftrightarrow> (\<exists>s\<in>set ss. \<exists>c. cidr_parse s = Inr c \<and> cidr_contains c ip)"
proof -
  have "list_all2 (\<lambda>s c. cidr_parse s = Inr c) ss (cidrs l)"
    using assms by (auto simp: lan_resolve_def try_map_Inr)
  then have "list_ex (\<lambda>c. cidr_contains c ip) (cidrs l) \<longleftrightarrow> (\<exists>s\<in>set ss. \<exists>c. cidr_parse s = Inr c \<and> cidr_contains c ip)"
    by (induction rule: list_all2_induct) auto
  then show ?thesis by (simp add: lan_contains_def)
qed

lemma lan_default:
  "lan_resolve None = Inr \<lparr>cidrs =
     [\<lparr>network = V4 0x7F000000, prefix = 8\<rparr>, \<lparr>network = V4 0x0A000000, prefix = 8\<rparr>,
      \<lparr>network = V4 0xAC100000, prefix = 12\<rparr>, \<lparr>network = V4 0xC0A80000, prefix = 16\<rparr>,
      \<lparr>network = V6 1, prefix = 128\<rparr>, \<lparr>network = V6 (0xFC00 * 2 ^ 112), prefix = 7\<rparr>],
     lan_source = SourceDefault\<rparr>"
  unfolding lan_resolve_def DEFAULT_LAN_CIDR_STRINGS_def option.case try_map.simps parse_default parse_default_v6 by simp

text \<open>
  C40: without an override the default list parses, and the set holds exactly the loopback
  and private networks: \<open>127/8\<close>, \<open>10/8\<close>, \<open>172.16/12\<close> and \<open>192.168/16\<close> for IPv4, \<open>::1\<close> and \<open>fc00::/7\<close> for
  IPv6. In particular no IPv4 address written as an IPv4-mapped IPv6 address is in it.
\<close>

theorem lan_default_exact:
  "\<exists>l. lan_resolve None = Inr l \<and>
    (\<forall>ip. lan_contains l ip \<longleftrightarrow>
       (case ip of
          V4 w \<Rightarrow> unat w div 2 ^ 24 = 127 \<or> unat w div 2 ^ 24 = 10 \<or> unat w div 2 ^ 20 = 172 * 16 + 1
            \<or> unat w div 2 ^ 16 = 192 * 256 + 168
        | V6 w \<Rightarrow> w = 1 \<or> unat w div 2 ^ 121 = 126)) \<and>
    (\<forall>a. \<not> lan_contains l (V6 (word_of_nat (0xFFFF * 2 ^ 32 + unat (a :: u32)))))"
proof -
  define l where "l = (case lan_resolve None of Inr l \<Rightarrow> l | Inl _ \<Rightarrow> undefined)"
  have l: "lan_resolve None = Inr l" by (simp add: l_def lan_default)
  have v4: "lan_contains l (V4 w) \<longleftrightarrow> unat w div 2 ^ 24 = 127 \<or> unat w div 2 ^ 24 = 10 \<or> unat w div 2 ^ 20 = 172 * 16 + 1
      \<or> unat w div 2 ^ 16 = 192 * 256 + 168" for w
    by (auto simp: l_def lan_default lan_contains_def cidr_contains_iff cidr_ok_def)
  have v6: "lan_contains l (V6 w) \<longleftrightarrow> w = 1 \<or> unat w div 2 ^ 121 = 126" for w
    by (auto simp: l_def lan_default lan_contains_def cidr_contains_iff cidr_ok_def word_unat_eq_iff)
  have "\<not> lan_contains l (V6 (word_of_nat (0xFFFF * 2 ^ 32 + unat a)))" for a :: u32
  proof -
    have lt: "unat a < 2 ^ 32" using unat_bound [of a] by simp
    let ?n = "0xFFFF * 2 ^ 32 + unat a"
    have "?n < 2 ^ 121" using lt by simp
    moreover have u: "unat (word_of_nat ?n :: u128) = ?n"
      unfolding unsigned_of_nat take_bit_eq_mod of_nat_id by (rule mod_less) (use lt in simp)
    ultimately have "unat (word_of_nat ?n :: u128) div 2 ^ 121 = 0" by (simp only: div_less)
    moreover have "(word_of_nat ?n :: u128) \<noteq> 1"
    proof
      assume "(word_of_nat ?n :: u128) = 1"
      then have "unat (word_of_nat ?n :: u128) = 1" by (simp only: unsigned_1)
      then show False unfolding u by simp
    qed
    ultimately show ?thesis unfolding v6 by simp
  qed
  moreover have "lan_contains l ip \<longleftrightarrow>
       (case ip of
          V4 w \<Rightarrow> unat w div 2 ^ 24 = 127 \<or> unat w div 2 ^ 24 = 10 \<or> unat w div 2 ^ 20 = 172 * 16 + 1
            \<or> unat w div 2 ^ 16 = 192 * 256 + 168
        | V6 w \<Rightarrow> w = 1 \<or> unat w div 2 ^ 121 = 126)" for ip
    by (cases ip) (simp_all only: v4 v6 ip_addr.case)
  ultimately show ?thesis using l by blast
qed

end
