(* ===== verification/Spec2Isabelle.thy ===== *)
theory Spec2Isabelle
  imports Nat_Mapper Chain_Link Udp_Flows Publisher Supervisor Lan_Cidrs
begin

text \<open>
  \<^bold>\<open>Yggdrasil: a reverse proxy with a chain control plane.\<close>

  A deployment is a chain of nodes. The terminal (at home) validates its operator's rules,
  publishes them as predicates to its upstream over an authenticated UDP session, and every relay
  up to the gateway derives its own listeners from them and forwards them further. Heartbeats on
  the same session tell each relay the current address of its downstream peer. Two crates are
  covered: \<open>src/crates/ratatoskr\<close> (wire formats, cryptographic sessions, rules, predicates) and
  \<open>src/crates/yggdrasil\<close> (the daemon).

  \<^bold>\<open>Conventions.\<close> A \<open>Result\<close> is a sum type with the error on the left, \<open>?\<close> is \<open>rbind\<close>; structs are
  records, enums datatypes, integers of a fixed width words, strings the lists of their UTF-8 bytes.
  Code outside the repository is a record of functions passed as an argument (BLAKE2 and hex:
  \<open>hash_lib\<close>, the Noise library: \<open>noise_lib\<close>, postcard: \<open>postcard_lib\<close> and \<open>predicate_codec\<close>, the
  URL parser: \<open>url_lib\<close>), with what the code relies on as named predicates on it; each is
  instantiated in a witness. Clocks, random numbers, the network and the outcome of waiting are
  inputs of the operations. Logging and metrics have no counterpart.

  \<^bold>\<open>Theories, in the order of the code.\<close>

  \<^item> \<open>Prelude\<close>: integers, results, big-endian codecs, Rust's string functions, and the interfaces
    shared by the components: \<open>codec\<close>, \<open>canonical_codec\<close>, \<open>invariant_machine\<close>. \<open>Ordered_Map\<close>:
    \<open>BTreeMap\<close> as the interface \<open>ordered_map\<close>.
  \<^item> \<open>Wire\<close> (\<open>wire.rs\<close>, \<open>error.rs\<close>), \<open>PubKey\<close> (\<open>pubkey.rs\<close>), \<open>Control_Frame\<close> (\<open>control_frame.rs\<close>):
    packet layout, tagged keys, control envelopes; exact codecs.
  \<^item> \<open>Auth\<close> (\<open>auth.rs\<close>): identities, the Noise handshake and sessions. \<open>Secure_Channel\<close>: a client and a
    server session linked by a handshake; every delivered message decodes to itself, counters of
    accepted packets increase strictly.
  \<^item> \<open>Reliability\<close> (\<open>chain/reliability.rs\<close>): sequence numbers, retransmission with backoff,
    acknowledgements, the duplicate window; every waiter is notified exactly once, silence ends
    in a timeout.
  \<^item> \<open>Net\<close>, \<open>Net_V6\<close>: the text forms of IP addresses in Rust's standard library, with round trips.
  \<^item> \<open>Rules\<close> (\<open>rule/\<close>): rules, routes, targets, validation, rule sets and their difference.
  \<^item> \<open>Predicate_Set\<close> (\<open>predicate.rs\<close>) and \<open>Derive\<close> (\<open>chain/derive.rs\<close>,
    \<open>chain/predicate_extractor.rs\<close>): what a terminal publishes and what a relay serves; derivation
    succeeds exactly on derivable sets.
  \<^item> \<open>Peer_State\<close> (\<open>heartbeat/peer_state.rs\<close>, \<open>pending_peers.rs\<close>) and \<open>Heartbeat_Server\<close>
    (\<open>heartbeat/server.rs\<close>): the accepting side of a session. Its control dispatcher is the
    interface \<open>control_dispatcher\<close>; unauthenticated datagrams change nothing.
  \<^item> \<open>Canary_Table\<close> (\<open>proxy/canary.rs\<close>): armed canary tokens as a refinement of a map with expiry.
  \<^item> \<open>Chain_Query\<close> (\<open>chain_query.rs\<close>, \<open>canary.rs\<close>, \<open>chain/query_router.rs\<close>,
    \<open>chain/client/body_handler.rs\<close>): correlated queries to the upstream.
  \<^item> \<open>Acceptor\<close> (\<open>chain/acceptor.rs\<close>, \<open>chain/introspection.rs\<close>): what a relay does with control
    bodies; it interprets \<open>control_dispatcher\<close>.
  \<^item> \<open>Publisher\<close> (\<open>chain/predicate_publisher.rs\<close>): the terminal's side of the same exchange; the relay
    holds the predicates of the rules applied last as long as pushes are acknowledged, and two
    schedules in which it does not.
  \<^item> \<open>Chain_Client\<close> (\<open>chain/client/\<close>): the connecting side of a session: handshake, heartbeat loop,
    liveness probes, control traffic, reconnection; a dead upstream is detected in bounded time, a live
    one is kept. \<open>Chain_Link\<close>: the client and the server of a session over a network that drops,
    duplicates, reorders and forges, and that replays handshakes, which may replace the server's
    session; up to the 256 entries of the duplicate window, control operations are dispatched at
    most once.
  \<^item> \<open>Proxy_Protocol\<close> (\<open>proxy/proxy_protocol.rs\<close>): PROXY headers, both versions, on streams and
    datagrams.
  \<^item> \<open>Resolver\<close> (\<open>proxy/resolver.rs\<close>): where a rule dials to. \<open>Tcp_Proxy\<close> (\<open>proxy/tcp.rs\<close>): accept loop,
    canary echo, one connection, drain; bytes are conserved and the client address survives a
    chain. \<open>Udp_Proxy\<close> (\<open>proxy/udp/mod.rs\<close>): flow table, workers, reaper, upstream loops; \<open>Udp_Flows\<close>:
    its properties, among them the exact budget and the isolation of clients.
  \<^item> \<open>Supervisor\<close> (\<open>proxy/supervisor/handle.rs\<close>, \<open>reconcile.rs\<close>): the table of running proxies under
    any sequence of rule sets; unchanged rules are spared, every proxy serves a current rule.
  \<^item> \<open>Lan_Cidrs\<close> (\<open>lan_cidrs.rs\<close>): the networks allowed to use routes without a certificate; the
    default set is exactly the loopback and private ranges.
  \<^item> \<open>Nat_Wire\<close> (\<open>nat/wire/\<close>, \<open>nat/discovery.rs\<close>) and \<open>Nat_Mapper\<close> (\<open>nat/mapper.rs\<close>): port mappings
    at the home router; the mapped protocol-port pairs follow the rules, the mapped addresses only
    while no listener moves to another address on its port.
  \<^item> This theory: the heartbeat server with the acceptor as its dispatcher, under arbitrary traffic.

  \<^bold>\<open>Bounds.\<close> Loops over data are structural or have a measure. The loops that wait (retransmission,
  gateway exchange, heartbeats) are bounded by the retry constants and deadlines of the code, and
  the theorems about them state that they end. Event loops run over a list of events, one per wake-up;
  no fuel is used.

  \<^bold>\<open>Not modelled.\<close> Socket and file I/O, threads, TLS, QUIC, HTTP and ACME, which are calls of
  libraries: the HTTPS frontends with the certificate store, the ACME client, the header rewriting
  over the types of the \<open>http\<close> crate and the part of the supervisor that starts the frontends. The
  deserialisation of configuration and rule files by serde, the file watcher, the local control
  socket, the command-line tool, logging, metrics and the load generators.
\<close>

section \<open>A relay under arbitrary traffic\<close>

text \<open>The heartbeat server with the chain acceptor as its dispatcher; every event has its own clock.\<close>

definition relay_run ::
  "('h, 't) noise_lib \<Rightarrow> postcard_lib \<Rightarrow> chain_lib \<Rightarrow> predicate_codec \<Rightarrow> static_key_pair
     \<Rightarrow> (64 word \<times> server_event) list \<Rightarrow> ('t, 'u chain_acceptor) server \<Rightarrow> ('t, 'u chain_acceptor) server" where
  "relay_run N P L C keys evs srv = fold (\<lambda>(now, ev) srv. server_step N P (dispatch L C now) keys srv ev) evs srv"

lemma relay_run_wf: "server_wf (acceptor_wf C) srv \<Longrightarrow> server_wf (acceptor_wf C) (relay_run N P L C keys evs srv)"
  unfolding relay_run_def
proof (induction evs arbitrary: srv)
  case (Cons x evs)
  obtain now ev where x: "x = (now, ev)" by fastforce
  from Cons.IH [OF relay.server_wf_step [OF Cons.prems]] show ?case by (simp add: x)
qed simp

text \<open>
  C10: A relay's state stays well formed under arbitrary traffic. Whatever datagrams arrive and
  whatever frames are sent, in any order and with any contents, every rule set the relay hands to its
  supervisor consists of rules that pass validation, with no name and no listener used twice; the
  bodies it keeps for a resynchronisation are accepted predicate sets, one per origin; the staged
  candidates keep their invariant and the control channel of the session its own.
\<close>

theorem relay_state_well_formed:
  assumes "apply_queue (supervisor acc) = []" "last_forwarded acc = []"
  shows "case relay_run N P L C keys evs (server_new k [] (Some acc)) of srv \<Rightarrow>
    server_wf (acceptor_wf C) srv \<and>
    (\<forall>a. acceptor srv = Some a \<longrightarrow>
       (\<forall>rs\<in>set (apply_queue (supervisor a)).
          (\<forall>r\<in>set (rules rs). rule_validate r = Inr ()) \<and> unique_keys (rules rs) (routes rs)))"
proof -
  have "server_wf (acceptor_wf C) (server_new k [] (Some acc))"
    using assms by (simp add: server_wf_def server_new_def acceptor_wf_def store_wf_def)
  from relay_run_wf [OF this, of N P L keys evs] show ?thesis
    by (auto simp: server_wf_def acceptor_wf_def list_all_iff rule_set_ok_def rule_validate_ok)
qed

theorem relay_state_well_formed_witness:
  "server_wf (acceptor_wf plain_codec) (relay_run plain_noise plain_postcard plain_chain_lib plain_codec (plain_key 2)
     [(0, Datagram plain_io [1, 2, 3] (SockV4 1 1)),
      (1, Datagram plain_io (write_preamble [] Handshake1 (SessionId 1 2 3 4) @ replicate 32 1) (SockV4 1 1))]
     (server_new None [] (Some (plain_relay None))))"
  using relay_state_well_formed [of "plain_relay None" plain_codec plain_noise plain_postcard plain_chain_lib "plain_key 2"
      "[(0, Datagram plain_io [1, 2, 3] (SockV4 1 1)),
        (1, Datagram plain_io (write_preamble [] Handshake1 (SessionId 1 2 3 4) @ replicate 32 1) (SockV4 1 1))]" None]
  by (simp add: plain_relay_def acceptor_new_def)

end
